(* ===== verification/Prelude.thy ===== *)
theory Prelude
  imports "HOL-Library.Word" "HOL-Library.Monad_Syntax"
begin

text \<open>
  Shared vocabulary of the development: machine integers, panics as \<^const>\<open>None\<close>, the
  bit-counting operations of the standard library's \<^verbatim>\<open>u64\<close>, prefix masks, and generic
  lemmas on lists and words that the components use.
\<close>

unbundle bit_operations_syntax

type_synonym u8 = "8 word"
type_synonym u16 = "16 word"
type_synonym u64 = "64 word"

text \<open>A computation that may panic: \<^const>\<open>None\<close> is the panic.\<close>

type_synonym 'a panics = "'a option"

definition assert_that :: "bool \<Rightarrow> unit panics" where
  "assert_that b = (if b then Some () else None)"

lemma assert_that_simps [simp]:
  "assert_that True = Some ()"
  "assert_that False = None"
  by (simp_all add: assert_that_def)

text \<open>\<^verbatim>\<open>w << n\<close> on \<^verbatim>\<open>u64\<close>: a shift by 64 or more overflows.\<close>

definition shl :: "u64 \<Rightarrow> nat \<Rightarrow> u64 panics" where
  "shl w n = (if n < 64 then Some (push_bit n w) else None)"

named_theorems mask_simps \<open>facts on prefix masks\<close>
named_theorems block_simps \<open>facts on address blocks\<close>

section \<open>Counting bits\<close>

definition leading_zeros :: "u64 \<Rightarrow> nat" where
  "leading_zeros w = length (takeWhile (\<lambda>i. \<not> bit w (63 - i)) [0..<64])"

definition leading_ones :: "u64 \<Rightarrow> nat" where
  "leading_ones w = length (takeWhile (\<lambda>i. bit w (63 - i)) [0..<64])"

definition trailing_zeros :: "u64 \<Rightarrow> nat" where
  "trailing_zeros w = length (takeWhile (\<lambda>i. \<not> bit w i) [0..<64])"

lemma length_takeWhile_upt:
  assumes "n \<le> m" and "\<And>i. i < n \<Longrightarrow> P i" and "n < m \<Longrightarrow> \<not> P n"
  shows "length (takeWhile P [0..<m]) = n"
proof -
  have split: "[0..<m] = [0..<n] @ [n..<m]"
    using assms(1) upt_add_eq_append [of 0 n "m - n"] by simp
  have "takeWhile P [n..<m] = []"
    using assms(1,3) by (cases "n < m") (simp_all add: upt_conv_Cons)
  then show ?thesis
    unfolding split using assms(2) by (subst takeWhile_append2) auto
qed

lemma nth_length_takeWhile_prefix:
  "i < length (takeWhile P xs) \<Longrightarrow> P (xs ! i)"
  by (metis nth_mem set_takeWhileD takeWhile_nth)

section \<open>Prefix masks\<close>

text \<open>
  \<open>pmask k\<close> is \<^verbatim>\<open>u64::MAX << k\<close>: the network mask that leaves the low \<open>k\<close> bits free
  (all of them for \<open>k = 64\<close>).
\<close>

definition pmask :: "nat \<Rightarrow> u64" where
  "pmask k = push_bit k (-1)"

lemma bit_pmask [mask_simps]: "bit (pmask k) i \<longleftrightarrow> k \<le> i \<and> i < 64"
  by (auto simp: pmask_def bit_not_iff bit_mask_iff)

lemma pmask_0 [simp]: "pmask 0 = -1"
  by (simp add: pmask_def)

lemma pmask_64 [simp]: "pmask 64 = 0"
  by (rule bit_word_eqI) (simp add: bit_pmask)

lemma shl_pmask [mask_simps]: "n < 64 \<Longrightarrow> shl (-1) n = Some (pmask n)"
  by (simp add: shl_def pmask_def)

lemma leading_ones_pmask [mask_simps]: "k \<le> 64 \<Longrightarrow> leading_ones (pmask k) = 64 - k"
  unfolding leading_ones_def by (rule length_takeWhile_upt) (auto simp: bit_pmask)

lemma trailing_zeros_pmask [mask_simps]: "k \<le> 64 \<Longrightarrow> trailing_zeros (pmask k) = k"
  unfolding trailing_zeros_def by (rule length_takeWhile_upt) (auto simp: bit_pmask)

lemma pmask_inj [mask_simps]: "k \<le> 64 \<Longrightarrow> j \<le> 64 \<Longrightarrow> pmask k = pmask j \<longleftrightarrow> k = j"
  by (metis trailing_zeros_pmask)

lemma pmask_and [mask_simps]: "pmask k AND pmask j = pmask (max k j)"
  by (rule bit_word_eqI) (auto simp: bit_pmask bit_and_iff)

lemma pmask_times_2 [mask_simps]: "pmask k * 2 = pmask (Suc k)"
proof -
  have "push_bit 1 (pmask k) = pmask (Suc k)"
    unfolding pmask_def push_bit_push_bit by simp
  then show ?thesis by simp
qed

lemma valid_mask_pmask:
  "leading_ones m + trailing_zeros m = 64 \<longleftrightarrow> (\<exists>k\<le>64. m = pmask k)"
proof
  assume sum: "leading_ones m + trailing_zeros m = 64"
  let ?k = "trailing_zeros m"
  have "?k \<le> 64" using sum by simp
  have hi: "bit m i" if "?k \<le> i" "i < 64" for i
  proof -
    have "63 - i < leading_ones m" using sum that by linarith
    then have "bit m (63 - ([0..<64] ! (63 - i)))"
      using nth_length_takeWhile_prefix [of "63 - i" "\<lambda>i. bit m (63 - i)" "[0..<64]"]
      by (simp add: leading_ones_def)
    then show ?thesis using that by simp
  qed
  have lo: "\<not> bit m i" if "i < ?k" for i
    using that nth_length_takeWhile_prefix [of i "\<lambda>i. \<not> bit m i" "[0..<64]"] \<open>?k \<le> 64\<close>
    by (simp add: trailing_zeros_def)
  have "m = pmask ?k"
    by (rule bit_word_eqI) (use hi lo in \<open>auto simp: bit_pmask intro: leI\<close>)
  then show "\<exists>k\<le>64. m = pmask k" using \<open>?k \<le> 64\<close> by blast
next
  assume "\<exists>k\<le>64. m = pmask k"
  then show "leading_ones m + trailing_zeros m = 64"
    by (auto simp: mask_simps)
qed

lemma bit_above_leading_zeros: "64 - leading_zeros w \<le> i \<Longrightarrow> \<not> bit w i"
proof (cases "i < 64")
  case True
  assume "64 - leading_zeros w \<le> i"
  with True have "63 - i < leading_zeros w" by linarith
  then have "\<not> bit w (63 - ([0..<64] ! (63 - i)))"
    using nth_length_takeWhile_prefix [of "63 - i" "\<lambda>i. \<not> bit w (63 - i)" "[0..<64]"]
    by (simp add: leading_zeros_def)
  then show ?thesis using True by simp
qed (auto dest: bit_imp_le_length)

lemma leading_zeros_le: "leading_zeros w \<le> 64"
  using length_takeWhile_le [of _ "[0..<64]"] by (simp add: leading_zeros_def)

lemma bit_at_leading_zeros:
  assumes "leading_zeros w < 64"
  shows "bit w (63 - leading_zeros w)"
proof -
  have "\<not> \<not> bit w (63 - [0..<64] ! length (takeWhile (\<lambda>i. \<not> bit w (63 - i)) [0..<64]))"
    by (rule nth_length_takeWhile) (use assms in \<open>simp add: leading_zeros_def\<close>)
  then show ?thesis using assms by (simp add: leading_zeros_def)
qed

section \<open>Sets kept as lists\<close>

text \<open>A \<open>BTreeSet\<close> is the sorted list of its elements, a \<open>HashSet\<close> the list of its elements in the order
  it yields them.\<close>

definition btree_insert :: "'a::linorder \<Rightarrow> 'a list \<Rightarrow> 'a list" where
  "btree_insert x xs = (if x \<in> set xs then xs else insort x xs)"

definition hset_insert :: "'a \<Rightarrow> 'a list \<Rightarrow> 'a list" where
  "hset_insert x xs = (if x \<in> set xs then xs else xs @ [x])"

definition hset_remove :: "'a \<Rightarrow> 'a list \<Rightarrow> bool \<times> 'a list" where
  "hset_remove x xs = (x \<in> set xs, removeAll x xs)"

lemma set_btree_insert [simp]: "set (btree_insert x xs) = insert x (set xs)"
  by (auto simp: btree_insert_def set_insort_key)

lemma btree_insert_sorted: "sorted xs \<Longrightarrow> sorted (btree_insert x xs)"
  by (simp add: btree_insert_def sorted_insort)

lemma btree_insert_distinct: "distinct xs \<Longrightarrow> distinct (btree_insert x xs)"
  by (simp add: btree_insert_def distinct_insort)

lemma set_hset_insert [simp]: "set (hset_insert x xs) = insert x (set xs)"
  by (auto simp: hset_insert_def)

lemma hset_insert_distinct: "distinct xs \<Longrightarrow> distinct (hset_insert x xs)"
  by (simp add: hset_insert_def)

lemma sorted_removeAll: "sorted xs \<Longrightarrow> sorted (removeAll x xs)"
  by (simp add: removeAll_filter_not_eq sorted_wrt_filter)

lemma find_SomeD: "find P xs = Some x \<Longrightarrow> x \<in> set xs \<and> P x"
  by (auto simp: find_Some_iff)

end
