(* ===== verification/Restart_Intensity.thy ===== *)
theory Restart_Intensity
  imports Prelude
begin

text \<open>
  The restart counter of the supervisors,
  \<^verbatim>\<open>components/mm1-sup/src/common/restart_intensity.rs\<close>. Instants and durations are numbers of
  clock ticks; subtracting a duration from an earlier instant than the clock can represent fails.
\<close>

type_synonym instant = nat
type_synonym duration = nat

record restart_intensity =
  max_restarts :: nat
  within :: duration

type_synonym restart_stats = "instant list"

definition new_stats :: "restart_intensity \<Rightarrow> restart_stats" where
  "new_stats ri = []"

definition instant_checked_sub :: "instant \<Rightarrow> duration \<Rightarrow> instant option" where
  "instant_checked_sub t d = (if d \<le> t then Some (t - d) else None)"

text \<open>The flag says whether the exit is accepted (\<^verbatim>\<open>Ok(())\<close>).\<close>

definition report_exit :: "restart_intensity \<Rightarrow> restart_stats \<Rightarrow> instant \<Rightarrow> bool \<times> restart_stats" where
  "report_exit ri stats now =
     (let t_cutoff = (case instant_checked_sub now (within ri) of None \<Rightarrow> now | Some t \<Rightarrow> t);
          stats = filter (\<lambda>t. t_cutoff \<le> t) stats @ [now]
      in (\<not> length stats > max_restarts ri, stats))"

fun report_exits :: "restart_intensity \<Rightarrow> restart_stats \<Rightarrow> instant list \<Rightarrow> bool list \<times> restart_stats" where
  "report_exits ri stats [] = ([], stats)"
| "report_exits ri stats (t # ts) =
     (let (ok, stats') = report_exit ri stats t; (oks, stats'') = report_exits ri stats' ts
      in (ok # oks, stats''))"






section \<open>Properties\<close>



text \<open>When the window is longer than the time the clock has run, as it always is for the
  longest duration, the counter keeps only exits at the present instant: any number of exits at
  distinct instants is accepted as soon as one restart is allowed.\<close>

theorem restart_intensity_long_window_unlimited:
  assumes "sorted_wrt (<) ts" "\<forall>t\<in>set ts. t < within ri" "1 \<le> max_restarts ri"
  shows "False \<notin> set (fst (report_exits ri (new_stats ri) ts))"
proof -
  have "False \<notin> set (fst (report_exits ri stats ts))" if "\<forall>s\<in>set stats. \<forall>t\<in>set ts. s < t" for stats
    using assms(1,2) that
  proof (induction ts arbitrary: stats)
    case (Cons t ts)
    have "filter ((\<le>) t) stats = []" using Cons.prems(3) by (auto simp: filter_empty_conv not_le)
    then have "report_exit ri stats t = (True, [t])"
      using Cons.prems(2) assms(3) by (simp add: report_exit_def instant_checked_sub_def Let_def)
    then show ?case using Cons.IH [of "[t]"] Cons.prems by (simp add: split_beta Let_def)
  qed simp
  from this [of "[]"] show ?thesis by (simp add: new_stats_def)
qed

theorem restart_intensity_long_window_unlimited_witness:
  "False \<notin> set (fst (report_exits \<lparr>max_restarts = 1, within = 100\<rparr>
    (new_stats \<lparr>max_restarts = 1, within = 100\<rparr>) [1, 2, 3, 4, 5]))"
  by (rule restart_intensity_long_window_unlimited) simp_all

end
