(* ===== verification/Blocks.thy ===== *)
theory Blocks
  imports Prelude
begin

text \<open>
  Address blocks: the sets of 64-bit addresses that share all bits from position \<open>k\<close> up.
  A subnet with prefix mask \<^term>\<open>pmask k\<close> denotes such a block. Blocks are nested or disjoint,
  which is what the trie of free blocks, the subnets and the address ranges rest on.
\<close>

unbundle bit_operations_syntax

definition blk :: "u64 \<Rightarrow> nat \<Rightarrow> u64 set" where
  "blk a k = {x. \<forall>i\<ge>k. bit x i = bit a i}"

definition aligned :: "u64 \<Rightarrow> nat \<Rightarrow> bool" where
  "aligned a k \<longleftrightarrow> a AND pmask k = a"

lemma blkI [intro]: "(\<And>i. k \<le> i \<Longrightarrow> bit x i = bit a i) \<Longrightarrow> x \<in> blk a k"
  by (simp add: blk_def)

lemma blkD: "x \<in> blk a k \<Longrightarrow> k \<le> i \<Longrightarrow> bit x i = bit a i"
  by (simp add: blk_def)

lemma blk_self [simp, intro]: "a \<in> blk a k"
  by (simp add: blk_def)

lemma blk_nonempty [simp]: "blk a k \<noteq> {}"
  using blk_self by blast

lemma blk_eq_mask: "x \<in> blk a k \<longleftrightarrow> x AND pmask k = a AND pmask k"
proof
  assume "x \<in> blk a k"
  then show "x AND pmask k = a AND pmask k"
    by (intro bit_word_eqI) (auto simp: blk_def bit_and_iff bit_pmask)
next
  assume eq: "x AND pmask k = a AND pmask k"
  have "bit x i = bit a i" if "k \<le> i" for i
  proof (cases "i < 64")
    case True
    with that arg_cong [OF eq, of "\<lambda>w. bit w i"] show ?thesis
      by (simp add: bit_and_iff bit_pmask)
  qed (auto dest: bit_imp_le_length)
  then show "x \<in> blk a k" by blast
qed

lemma aligned_bits: "aligned a k \<longleftrightarrow> (\<forall>i<k. \<not> bit a i)"
proof
  assume "aligned a k"
  then show "\<forall>i<k. \<not> bit a i"
    unfolding aligned_def by (metis bit_and_iff bit_pmask not_le)
next
  assume "\<forall>i<k. \<not> bit a i"
  then show "aligned a k" unfolding aligned_def
    by (intro bit_word_eqI) (auto simp: bit_and_iff bit_pmask intro: leI)
qed

lemma aligned_not_mask: "a AND NOT (pmask k) = 0 \<longleftrightarrow> aligned a k"
  unfolding aligned_def bit_eq_iff bit_and_iff bit_not_iff by (auto simp: bit_not_iff)

lemma aligned_and_pmask [simp, intro]: "aligned (a AND pmask k) k"
  by (simp add: aligned_bits bit_and_iff bit_pmask)

lemma blk_and_pmask [block_simps]: "blk (a AND pmask k) k = blk a k"
  by (auto simp: blk_eq_mask and.assoc)

lemma blk_0 [block_simps]: "blk a 0 = {a}"
  by (auto simp: blk_eq_mask)

lemma blk_64 [block_simps]: "blk a 64 = UNIV"
  by (auto simp: blk_eq_mask)

lemma blk_mono: "x \<in> blk a k \<Longrightarrow> j \<le> k \<Longrightarrow> blk x j \<subseteq> blk a k"
  by (auto simp: blk_def)

lemma blk_subset_iff: "j \<le> k \<Longrightarrow> blk x j \<subseteq> blk a k \<longleftrightarrow> x \<in> blk a k"
  using blk_mono blk_self by blast

lemma blk_nested: "j \<le> k \<Longrightarrow> blk x j \<inter> blk a k \<noteq> {} \<Longrightarrow> blk x j \<subseteq> blk a k"
  by (auto simp: blk_def)

lemma blk_disjoint_or_subset: "j \<le> k \<Longrightarrow> blk x j \<inter> blk a k = {} \<or> blk x j \<subseteq> blk a k"
  using blk_nested by blast

lemma blk_Suc_iff: "x \<in> blk a k \<longleftrightarrow> x \<in> blk a (Suc k) \<and> bit x k = bit a k"
proof
  assume "x \<in> blk a (Suc k) \<and> bit x k = bit a k"
  then have "bit x i = bit a i" if "k \<le> i" for i
    using that by (cases "i = k") (auto simp: blk_def)
  then show "x \<in> blk a k" by blast
qed (auto simp: blk_def)

lemma blk_same: "x \<in> blk a k \<Longrightarrow> blk x k = blk a k"
  by (simp add: blk_def)

lemma blk_subset_length:
  assumes sub: "blk a k \<subseteq> blk b j" and "k \<le> 64"
  shows "k \<le> j"
proof (rule ccontr)
  assume "\<not> k \<le> j"
  then have "flip_bit j a \<in> blk a k"
    by (intro blkI) (auto simp: bit_flip_bit_iff dest: bit_imp_le_length)
  then have "flip_bit j a \<in> blk b j" and "a \<in> blk b j" using sub blk_self by blast+
  then have "bit (flip_bit j a) j = bit a j" by (auto dest: blkD)
  then show False using \<open>\<not> k \<le> j\<close> \<open>k \<le> 64\<close>
    by (auto simp: bit_flip_bit_iff)
qed

lemma blk_eq_aligned:
  assumes "blk a k = blk b j" "k \<le> 64" "j \<le> 64" "aligned a k" "aligned b j"
  shows "k = j \<and> a = b"
proof -
  have "k = j"
    using assms blk_subset_length [of a k b j] blk_subset_length [of b j a k] by simp
  moreover have "a \<in> blk b j" using assms(1) blk_self by blast
  ultimately show ?thesis using assms(4,5) by (simp add: blk_eq_mask aligned_def)
qed

text \<open>The two halves of a block: the branch taken by the trie on bit \<open>k\<close>.\<close>

definition half :: "bool \<Rightarrow> u64 \<Rightarrow> nat \<Rightarrow> u64 set" where
  "half b a k = {x \<in> blk a (Suc k). bit x k = b}"

lemma half_of_member:
  assumes "x \<in> half b a k"
  shows "half b a k = blk x k"
proof -
  have "x \<in> blk a (Suc k)" "b = bit x k" using assms by (simp_all add: half_def)
  then have "half b a k = {y \<in> blk x (Suc k). bit y k = bit x k}"
    by (simp add: half_def blk_same)
  also have "\<dots> = blk x k" using blk_Suc_iff by blast
  finally show ?thesis .
qed

lemma half_blk:
  assumes "k < 64"
  shows "half False a k = blk (unset_bit k a) k" "half True a k = blk (set_bit k a) k"
proof -
  have "unset_bit k a \<in> half False a k" "set_bit k a \<in> half True a k"
    using assms by (auto simp: half_def blk_def bit_set_bit_iff bit_unset_bit_iff)
  then show "half False a k = blk (unset_bit k a) k" "half True a k = blk (set_bit k a) k"
    by (simp_all add: half_of_member)
qed

lemma blk_halves: "blk a (Suc k) = half False a k \<union> half True a k"
  by (auto simp: half_def)

lemma halves_disjoint: "half False a k \<inter> half True a k = {}"
  by (auto simp: half_def)

lemma half_subset: "half b a k \<subseteq> blk a (Suc k)"
  by (auto simp: half_def)

lemma half_pred_subset: "0 < k \<Longrightarrow> half b a (k - 1) \<subseteq> blk a k"
  using half_subset [of b a "k - 1"] by simp

lemma blk_pred_halves: "0 < k \<Longrightarrow> blk a k = half False a (k - 1) \<union> half True a (k - 1)"
  using blk_halves [of a "k - 1"] by simp

lemma blk_in_half:
  assumes "blk x j \<subseteq> blk a (Suc k)" "j \<le> k"
  shows "blk x j \<subseteq> half (bit x k) a k"
  using assms by (auto simp: half_def dest: blkD)

lemma blk_in_pred_half:
  assumes "x \<in> blk a c" "j < c"
  shows "blk x j \<subseteq> half (bit x (c - 1)) a (c - 1)"
proof -
  have "blk x j \<subseteq> blk a c" using assms by (intro blk_mono) simp_all
  then show ?thesis using assms(2) blk_in_half [of x j a "c - 1"] by simp
qed

section \<open>The addresses of a network\<close>

definition net_block :: "u64 \<Rightarrow> u64 \<Rightarrow> u64 set" where
  "net_block a m = {x. x AND m = a AND m}"

lemma net_block_pmask [block_simps]: "net_block a (pmask k) = blk a k"
  by (auto simp: net_block_def blk_eq_mask)

definition valid_prefix :: "u64 \<Rightarrow> u64 \<Rightarrow> bool" where
  "valid_prefix p m \<longleftrightarrow> leading_ones m + trailing_zeros m = 64 \<and> p AND m = p"

lemma valid_prefix_pmask: "valid_prefix p m \<longleftrightarrow> (\<exists>k\<le>64. m = pmask k \<and> aligned p k)"
  unfolding valid_prefix_def valid_mask_pmask aligned_def by auto

lemma valid_prefixE:
  assumes "valid_prefix p m"
  obtains k where "k \<le> 64" "m = pmask k" "aligned p k" "trailing_zeros m = k"
  using assms unfolding valid_prefix_pmask by (auto simp: trailing_zeros_pmask)

lemma valid_prefix_pmaskI [simp]: "k \<le> 64 \<Longrightarrow> valid_prefix p (pmask k) \<longleftrightarrow> aligned p k"
  unfolding valid_prefix_pmask by (auto simp: pmask_inj)

end
