(* ===== verification/Address.thy ===== *)
theory Address
  imports Blocks
begin

text \<open>
  Addresses and their textual form, \<^verbatim>\<open>libs/mm1-address/src/address.rs\<close>: a 64-bit number
  printed as hexadecimal digits between angle brackets, with the longest run of zeros written as a
  colon. A Rust \<^verbatim>\<open>str\<close> is its list of bytes.
\<close>

unbundle bit_operations_syntax

type_synonym address = u64

definition CH_GAP :: char where "CH_GAP = CHR '':''"
definition CH_OPEN :: char where "CH_OPEN = CHR ''<''"
definition CH_CLOSE :: char where "CH_CLOSE = CHR ''>''"

text \<open>\<^verbatim>\<open>char::to_digit(16)\<close> and \<^verbatim>\<open>char::from_digit(_, 16)\<close> of the standard library.\<close>

definition to_digit16 :: "char \<Rightarrow> nat option" where
  "to_digit16 c = (let n = of_char c in
     if 48 \<le> n \<and> n \<le> 57 then Some (n - 48)
     else if 97 \<le> n \<and> n \<le> 102 then Some (n - 87)
     else if 65 \<le> n \<and> n \<le> 70 then Some (n - 55)
     else None)"

definition from_digit16 :: "nat \<Rightarrow> char option" where
  "from_digit16 d = (if d < 10 then Some (char_of (48 + d))
     else if d < 16 then Some (char_of (87 + d)) else None)"

section \<open>Printing\<close>

fun digits_loop :: "nat \<Rightarrow> u64 \<Rightarrow> nat list panics" where
  "digits_loop 0 u = Some []"
| "digits_loop (Suc n) u = do {
     let d = unat (drop_bit 60 (u AND 0xF000000000000000));
     assert_that (d \<le> 0xF);
     ds \<leftarrow> digits_loop n (push_bit 4 u);
     Some (d # ds)
   }"

definition digits :: "u64 \<Rightarrow> nat list panics" where
  "digits u = digits_loop 16 u"

record span =
  span_start :: nat
  span_len :: nat

fun best_span :: "nat \<Rightarrow> nat list \<Rightarrow> span \<Rightarrow> span \<Rightarrow> span" where
  "best_span idx [] this best = (if span_len this > span_len best then this else best)"
| "best_span idx (d # ds) this best =
     (if d = 0 then best_span (idx + 1) ds (this\<lparr>span_len := span_len this + 1\<rparr>) best
      else best_span (idx + 1) ds \<lparr>span_start = idx + 1, span_len = 0\<rparr>
        (if span_len this > span_len best then this else best))"

fun hex_chars :: "nat list \<Rightarrow> string panics" where
  "hex_chars [] = Some []"
| "hex_chars (d # ds) = do {
     c \<leftarrow> from_digit16 d;
     cs \<leftarrow> hex_chars ds;
     Some (c # cs)
   }"

definition to_chars :: "u64 \<Rightarrow> string panics" where
  "to_chars u = do {
     ds \<leftarrow> digits u;
     let zero = \<lparr>span_start = 0, span_len = 0\<rparr>;
     let best = best_span 0 ds zero zero;
     left \<leftarrow> hex_chars (take (span_start best) ds);
     let (center, resume_from) =
       (if span_len best > 1 then ([CH_GAP], span_start best + span_len best)
        else ([], span_start best));
     right \<leftarrow> hex_chars (drop resume_from ds);
     Some ([CH_OPEN] @ left @ center @ right @ [CH_CLOSE])
   }"

section \<open>Parsing\<close>

fun parse_loop :: "nat option \<Rightarrow> u64 \<Rightarrow> string \<Rightarrow> u64 option" where
  "parse_loop gap_len out [] = Some out"
| "parse_loop gap_len out (c # cs) = (
     let out = push_bit 4 out in
     if c = CH_GAP then
       (case gap_len of
          None \<Rightarrow> None
        | Some g \<Rightarrow> parse_loop None (push_bit (4 * g) out) cs)
     else
       (case to_digit16 c of
          None \<Rightarrow> None
        | Some d \<Rightarrow> parse_loop gap_len (out + of_nat d) cs))"

definition checked_sub :: "nat \<Rightarrow> nat \<Rightarrow> nat option" where
  "checked_sub a b = (if b \<le> a then Some (a - b) else None)"

definition address_from_str :: "string \<Rightarrow> address option" where
  "address_from_str s =
     (if s = [] \<or> hd s \<noteq> CH_OPEN \<or> last s \<noteq> CH_CLOSE then None
      else let bytes = butlast (tl s) in do {
        gap_len \<leftarrow> checked_sub 16 (length bytes);
        parse_loop (Some gap_len) 0 bytes
      })"

section \<open>The value of a digit list\<close>

definition hex_value :: "u64 \<Rightarrow> nat list \<Rightarrow> u64" where
  "hex_value = foldl (\<lambda>acc d. push_bit 4 acc + of_nat d)"

lemma hex_value_simps [simp]:
  "hex_value acc [] = acc"
  "hex_value acc (d # ds) = hex_value (push_bit 4 acc + of_nat d) ds"
  "hex_value acc (xs @ ys) = hex_value (hex_value acc xs) ys"
  by (simp_all add: hex_value_def)

lemma hex_value_zeros: "hex_value acc (replicate n 0) = push_bit (4 * n) acc"
  by (induction n arbitrary: acc) (simp_all add: push_bit_eq_mult power_add)

lemma top_digit: "unat (drop_bit 60 (u AND 0xF000000000000000)) = unat u div 2 ^ 60"
  for u :: u64
proof -
  have "(0xF000000000000000 :: u64) = pmask 60" by (simp add: pmask_def mask_eq_exp_minus_1)
  moreover have "drop_bit 60 (u AND pmask 60) = drop_bit 60 u"
    by (rule bit_word_eqI) (auto simp: bit_drop_bit_eq bit_and_iff bit_pmask dest: bit_imp_le_length)
  ultimately have "unat (drop_bit 60 (u AND 0xF000000000000000)) = unat (drop_bit 60 u)"
    by (simp only:)
  also have "\<dots> = unat u div 2 ^ 60" by (subst unat_drop_bit_eq) (rule drop_bit_eq_div)
  finally show ?thesis .
qed

lemma unat_u64: "unat u < 2 ^ 64" for u :: u64
  by (rule order.strict_trans2 [OF unsigned_less]) simp

lemma div_exp_split:
  "u div 2 ^ (k + m) * 2 ^ m + (u mod 2 ^ (k + m)) div 2 ^ k = u div 2 ^ k" for u :: nat
proof -
  have "u div 2 ^ k = (u div 2 ^ (k + m) * 2 ^ (k + m) + u mod 2 ^ (k + m)) div 2 ^ k"
    by (simp only: div_mult_mod_eq)
  also have "\<dots> = (u mod 2 ^ (k + m) + (u div 2 ^ (k + m) * 2 ^ m) * 2 ^ k) div 2 ^ k"
    by (simp only: power_add ac_simps)
  also have "\<dots> = u div 2 ^ (k + m) * 2 ^ m + (u mod 2 ^ (k + m)) div 2 ^ k"
    by (subst div_mult_self1) simp_all
  finally show ?thesis by simp
qed

lemma digits_loop_Suc:
  assumes "unat u div 2 ^ 60 < 16" "digits_loop n (push_bit 4 u) = Some ds"
  shows "digits_loop (Suc n) u = Some (unat u div 2 ^ 60 # ds)"
proof -
  have "unat u div 2 ^ 60 \<le> 15" using assms(1) by linarith
  then show ?thesis unfolding digits_loop.simps Let_def top_digit assms(2) by (simp only: assert_that_simps) simp
qed

lemma digits_loop_value:
  assumes "n \<le> 16"
  shows "\<exists>ds. digits_loop n u = Some ds \<and> length ds = n \<and> (\<forall>d\<in>set ds. d < 16)
    \<and> hex_value acc ds = push_bit (4 * n) acc + of_nat (unat u div 2 ^ (64 - 4 * n))"
  using assms
proof (induction n arbitrary: u acc)
  case 0
  have "unat u div 2 ^ 64 = 0" using unat_u64 [of u] by simp
  then show ?case by simp
next
  case (Suc n)
  let ?d = "unat u div 2 ^ 60"
  have "?d < 16" using unat_u64 [of u] by (simp add: less_mult_imp_div_less)
  obtain ds where ds: "digits_loop n (push_bit 4 u) = Some ds" "length ds = n" "\<forall>d\<in>set ds. d < 16"
    "hex_value (push_bit 4 acc + of_nat ?d) ds = push_bit (4 * n) (push_bit 4 acc + of_nat ?d)
      + of_nat (unat (push_bit 4 u) div 2 ^ (64 - 4 * n))"
    using Suc by fastforce
  have low: "unat (push_bit 4 u) = (unat u mod 2 ^ 60) * 16"
    by (simp add: push_bit_eq_mult unat_word_ariths mult_mod_left)
  have "unat (push_bit 4 u) div 2 ^ (64 - 4 * n) = (unat u mod 2 ^ 60) div 2 ^ (60 - 4 * n)"
  proof -
    have "64 - 4 * n = (60 - 4 * n) + 4" using Suc.prems by simp
    then have "(2 :: nat) ^ (64 - 4 * n) = 2 ^ (60 - 4 * n) * 16" by (simp only: power_add) simp
    then show ?thesis unfolding low by simp
  qed
  moreover have "?d * 2 ^ (4 * n) + (unat u mod 2 ^ 60) div 2 ^ (60 - 4 * n) = unat u div 2 ^ (60 - 4 * n)"
    using div_exp_split [of "unat u" "60 - 4 * n" "4 * n"] Suc.prems by simp
  ultimately have nat: "?d * 2 ^ (4 * n) + unat (push_bit 4 u) div 2 ^ (64 - 4 * n)
    = unat u div 2 ^ (60 - 4 * n)" by simp
  have "64 - 4 * Suc n = 60 - 4 * n" by simp
  then have sum: "of_nat ?d * 2 ^ (4 * n) + of_nat (unat (push_bit 4 u) div 2 ^ (64 - 4 * n))
    = (of_nat (unat u div 2 ^ (64 - 4 * Suc n)) :: u64)"
    using arg_cong [OF nat, of "of_nat :: nat \<Rightarrow> u64"] by (simp only: of_nat_add of_nat_mult of_nat_power) simp
  have "push_bit (4 * n) (push_bit 4 acc + of_nat ?d) = push_bit (4 * Suc n) acc + of_nat ?d * 2 ^ (4 * n)"
    by (simp add: push_bit_eq_mult power_add algebra_simps)
  then have "hex_value acc (?d # ds) = push_bit (4 * Suc n) acc + of_nat (unat u div 2 ^ (64 - 4 * Suc n))"
    using ds(4) sum by (simp only: hex_value_simps) (simp only: add.assoc)
  then show ?case using digits_loop_Suc [OF \<open>?d < 16\<close> ds(1)] ds(2,3) \<open>?d < 16\<close>
    by (intro exI [of _ "?d # ds"]) (simp only: list.size set_simps, simp)
qed

lemma digits_value:
  "\<exists>ds. digits u = Some ds \<and> length ds = 16 \<and> (\<forall>d\<in>set ds. d < 16) \<and> hex_value 0 ds = u"
  using digits_loop_value [of 16 u 0] by (simp add: digits_def)

section \<open>The compressed run of zeros\<close>

definition zero_span :: "nat list \<Rightarrow> span \<Rightarrow> bool" where
  "zero_span ds s \<longleftrightarrow> span_start s + span_len s \<le> length ds
     \<and> (\<forall>i. span_start s \<le> i \<longrightarrow> i < span_start s + span_len s \<longrightarrow> ds ! i = 0)"

lemma zero_span_append: "zero_span ds s \<Longrightarrow> zero_span (ds @ es) s"
  by (auto simp: zero_span_def nth_append)

lemma best_span_zero:
  assumes "zero_span pre best" "zero_span pre this" "span_start this + span_len this = length pre"
  shows "zero_span (pre @ ds) (best_span (length pre) ds this best)"
  using assms
proof (induction ds arbitrary: pre this best)
  case Nil
  then show ?case by simp
next
  case (Cons d ds)
  show ?case
  proof (cases "d = 0")
    case True
    have "zero_span (pre @ [d]) (this\<lparr>span_len := span_len this + 1\<rparr>)"
      using Cons.prems(2,3) True by (auto simp: zero_span_def nth_append)
    then show ?thesis
      using Cons.IH [of "pre @ [d]" best "this\<lparr>span_len := span_len this + 1\<rparr>"]
        Cons.prems True zero_span_append by simp
  next
    case False
    have "zero_span (pre @ [d]) \<lparr>span_start = length pre + 1, span_len = 0\<rparr>"
      by (simp add: zero_span_def)
    then show ?thesis
      using Cons.IH [of "pre @ [d]" "if span_len this > span_len best then this else best"
          "\<lparr>span_start = length pre + 1, span_len = 0\<rparr>"]
        Cons.prems False zero_span_append by simp
  qed
qed

lemma zero_span_split:
  assumes "zero_span ds s"
  shows "ds = take (span_start s) ds @ replicate (span_len s) 0 @ drop (span_start s + span_len s) ds"
proof -
  have "take (span_len s) (drop (span_start s) ds) = replicate (span_len s) 0"
    using assms by (intro nth_equalityI) (auto simp: zero_span_def)
  then show ?thesis by (metis append_take_drop_id drop_drop add.commute)
qed

section \<open>Parsing what was printed\<close>

lemma hex_digit_all:
  "\<forall>d\<in>set [0..<16]. case from_digit16 d of
     None \<Rightarrow> False | Some c \<Rightarrow> to_digit16 c = Some d \<and> c \<noteq> CH_GAP"
  by code_simp

lemma hex_digit:
  assumes "d < 16"
  obtains c where "from_digit16 d = Some c" "to_digit16 c = Some d" "c \<noteq> CH_GAP"
proof -
  have "d \<in> set [0..<16]" using assms by simp
  then show thesis using that hex_digit_all by (auto split: option.splits dest!: bspec)
qed

lemma hex_chars_parse:
  assumes "\<forall>d\<in>set ds. d < 16"
  shows "\<exists>cs. hex_chars ds = Some cs \<and> length cs = length ds
    \<and> (\<forall>g out rest. parse_loop g out (cs @ rest) = parse_loop g (hex_value out ds) rest)"
  using assms
proof (induction ds)
  case (Cons d ds)
  obtain c where c: "from_digit16 d = Some c" "to_digit16 c = Some d" "c \<noteq> CH_GAP"
    using hex_digit Cons.prems by auto
  obtain cs where "hex_chars ds = Some cs" "length cs = length ds"
    "\<And>g out rest. parse_loop g out (cs @ rest) = parse_loop g (hex_value out ds) rest"
    using Cons by auto
  then show ?case using c by (intro exI [of _ "c # cs"]) (simp add: Let_def)
qed simp

lemma to_chars_parse:
  "\<exists>s. to_chars u = Some s \<and> address_from_str s = Some u"
proof -
  obtain ds where ds: "digits u = Some ds" "length ds = 16" "\<forall>d\<in>set ds. d < 16" "hex_value 0 ds = u"
    using digits_value by blast
  define zero where "zero = \<lparr>span_start = 0, span_len = 0\<rparr>"
  define b where "b = best_span 0 ds zero zero"
  have b: "zero_span ds b"
    using best_span_zero [of "[]" zero zero ds] by (simp add: b_def zero_def zero_span_def)
  let ?l = "take (span_start b) ds" and ?r = "drop (span_start b + span_len b) ds"
  obtain l where l: "hex_chars ?l = Some l" "length l = length ?l"
    "\<And>g out rest. parse_loop g out (l @ rest) = parse_loop g (hex_value out ?l) rest"
    using hex_chars_parse [of ?l] ds(3) by (auto dest: in_set_takeD)
  have val: "hex_value (push_bit (4 * span_len b) (hex_value 0 ?l)) ?r = u"
    using zero_span_split [OF b] ds(4) by (metis hex_value_simps(3) hex_value_zeros)
  have len: "span_start b + span_len b \<le> 16" using b ds(2) by (simp add: zero_span_def)
  show ?thesis
  proof (cases "span_len b > 1")
    case True
    obtain r where r: "hex_chars ?r = Some r" "length r = length ?r"
      "\<And>g out rest. parse_loop g out (r @ rest) = parse_loop g (hex_value out ?r) rest"
      using hex_chars_parse [of ?r] ds(3) by (auto dest: in_set_dropD)
    have "to_chars u = Some ([CH_OPEN] @ l @ [CH_GAP] @ r @ [CH_CLOSE])"
      using ds(1) l(1) r(1) True by (simp add: to_chars_def b_def zero_def Let_def)
    moreover have "parse_loop (Some (span_len b - 1)) 0 (l @ CH_GAP # r) = Some u"
    proof -
      have "push_bit (4 * (span_len b - 1)) (push_bit 4 x) = push_bit (4 * span_len b) x" for x :: u64
        using True by (simp add: push_bit_push_bit algebra_simps flip: mult_Suc_right del: mult_Suc_right)
      then show ?thesis using l(3) r(3) [of _ _ "[]"] val by (simp add: Let_def)
    qed
    ultimately show ?thesis
      using l(2) r(2) ds(2) len True
      by (simp add: address_from_str_def checked_sub_def butlast_append Let_def)
  next
    case False
    obtain r where r: "hex_chars (drop (span_start b) ds) = Some r"
      "length r = length (drop (span_start b) ds)"
      "\<And>g out rest. parse_loop g out (r @ rest) = parse_loop g (hex_value out (drop (span_start b) ds)) rest"
      using hex_chars_parse [of "drop (span_start b) ds"] ds(3) by (auto dest: in_set_dropD)
    have "to_chars u = Some ([CH_OPEN] @ l @ r @ [CH_CLOSE])"
      using ds(1) l(1) r(1) False by (simp add: to_chars_def b_def zero_def Let_def)
    moreover have "hex_value (hex_value 0 ?l) (drop (span_start b) ds) = u"
      using ds(4) by (metis append_take_drop_id hex_value_simps(3))
    ultimately show ?thesis
      using l(2,3) r(2) r(3) [of _ _ "[]"] ds(2) len
      by (simp add: address_from_str_def checked_sub_def butlast_append Let_def)
  qed
qed

end
