(* ===== verification/Sup_Common.thy ===== *)
theory Sup_Common
  imports Restart_Intensity Address
begin

text \<open>
  What the two restart strategies share, \<^verbatim>\<open>components/mm1-sup/src/mixed.rs\<close>,
  \<^verbatim>\<open>mixed/decider.rs\<close> and \<^verbatim>\<open>mixed/strategy/error.rs\<close>: child types, the status of a child, the
  actions a decider asks for, and lemmas on updating the first matching entry of a list.
\<close>

datatype child_type = Permanent | Transient | Temporary

datatype child_status = ChildStarting | ChildRunning address | ChildTerminating address | ChildStopped

datatype 'k action =
    Noop
  | InitDone
  | Start 'k
  | Stop address "'k option"
  | Quit bool

datatype decider_error = DuplicateKey | KeyNotFound | Unsupported

text \<open>The address of a child that runs or is being terminated.\<close>

fun status_address :: "child_status \<Rightarrow> address option" where
  "status_address (ChildRunning a) = Some a"
| "status_address (ChildTerminating a) = Some a"
| "status_address _ = None"

fun is_running :: "child_status \<Rightarrow> bool" where
  "is_running (ChildRunning a) = True"
| "is_running _ = False"

definition acceptable_exit :: "child_type \<Rightarrow> bool \<Rightarrow> bool" where
  "acceptable_exit ct normal_exit = (case ct of
     Permanent \<Rightarrow> False
   | Transient \<Rightarrow> normal_exit
   | Temporary \<Rightarrow> True)"

section \<open>Updating the first match\<close>

fun update_first :: "('a \<Rightarrow> bool) \<Rightarrow> ('a \<Rightarrow> 'a) \<Rightarrow> 'a list \<Rightarrow> 'a list" where
  "update_first P f [] = []"
| "update_first P f (x # xs) = (if P x then f x # xs else x # update_first P f xs)"

lemma update_first_split:
  assumes "find P xs = Some x"
  obtains ys zs where "xs = ys @ x # zs" "P x" "\<forall>y\<in>set ys. \<not> P y"
    "\<And>f. update_first P f xs = ys @ f x # zs"
proof -
  have "\<exists>ys zs. xs = ys @ x # zs \<and> P x \<and> (\<forall>y\<in>set ys. \<not> P y)
    \<and> (\<forall>f. update_first P f xs = ys @ f x # zs)"
    using assms
  proof (induction xs)
    case (Cons a xs)
    show ?case
    proof (cases "P a")
      case True
      then show ?thesis using Cons.prems by (intro exI [of _ "[]"] exI [of _ xs]) simp
    next
      case False
      then obtain ys zs where "xs = ys @ x # zs" "P x" "\<forall>y\<in>set ys. \<not> P y"
        "\<forall>f. update_first P f xs = ys @ f x # zs" using Cons by auto
      then show ?thesis using False by (intro exI [of _ "a # ys"] exI [of _ zs]) simp
    qed
  qed simp
  then show thesis using that by blast
qed

lemma find_key:
  assumes "distinct (map fst cs)" "(k, s) \<in> set cs"
  shows "find (\<lambda>(k', _). k' = k) cs = Some (k, s)"
  using assms by (induction cs) (auto simp: image_iff)

lemma update_first_length [simp]: "length (update_first P f xs) = length xs"
  by (induction xs) simp_all

lemma update_first_map:
  "(\<And>x. g (f x) = g x) \<Longrightarrow> map g (update_first P f xs) = map g xs"
  by (induction xs) simp_all

lemma update_first_noop: "\<forall>x\<in>set xs. \<not> P x \<Longrightarrow> update_first P f xs = xs"
  by (induction xs) simp_all

section \<open>The addresses of the live children\<close>

definition live_addrs :: "('s \<Rightarrow> child_status) \<Rightarrow> ('k \<times> 's) list \<Rightarrow> address list" where
  "live_addrs st cs = concat (map (\<lambda>(k, s). case status_address (st s) of None \<Rightarrow> [] | Some a \<Rightarrow> [a]) cs)"

lemma live_addrs_simps [simp]:
  "live_addrs st [] = []"
  "live_addrs st ((k, s) # cs) =
    (case status_address (st s) of None \<Rightarrow> [] | Some a \<Rightarrow> [a]) @ live_addrs st cs"
  "live_addrs st (xs @ ys) = live_addrs st xs @ live_addrs st ys"
  by (simp_all add: live_addrs_def)

lemma live_addrs_filter:
  "\<forall>c\<in>set cs. \<not> P c \<longrightarrow> status_address (st (snd c)) = None \<Longrightarrow> live_addrs st (filter P cs) = live_addrs st cs"
  by (induction cs) auto

lemma set_live_addrs: "a \<in> set (live_addrs st cs) \<longleftrightarrow> (\<exists>c\<in>set cs. status_address (st (snd c)) = Some a)"
  by (induction cs) (auto split: option.splits)

lemma live_addrI: "(k, s) \<in> set cs \<Longrightarrow> status_address (st s) = Some a \<Longrightarrow> a \<in> set (live_addrs st cs)"
  unfolding set_live_addrs by (rule bexI [of _ "(k, s)"]) simp_all

definition child_of :: "('k \<times> 's) list \<Rightarrow> 'k \<Rightarrow> 's option" where
  "child_of cs k = map_of cs k"

lemma child_of_update:
  "distinct (map fst (xs @ (k, s) # ys)) \<Longrightarrow>
    child_of (xs @ (k, s') # ys) = (child_of (xs @ (k, s) # ys))(k \<mapsto> s')"
  by (auto simp: child_of_def fun_eq_iff map_add_def split: option.splits dest: map_of_SomeD)
    (metis fst_conv image_eqI map_of_SomeD)+

section \<open>Scanning the children for the next action\<close>

text \<open>
  Both deciders walk the list of children and act on the first one whose status is not what it
  should be. The result of the walk is the action with the updated list, or the flags
  \<open>all_children_started\<close> and \<open>all_children_stopped\<close>.
\<close>

datatype ('k, 's) scan = Act "'k action" "('k \<times> 's) list" | Scanned bool bool

fun scan_cons :: "'k \<times> 's \<Rightarrow> ('k, 's) scan \<Rightarrow> ('k, 's) scan" where
  "scan_cons c (Act a cs) = Act a (c # cs)"
| "scan_cons c (Scanned x y) = Scanned x y"

text \<open>
  The two walks are instances of one: \<open>goal\<close> gives what a child should be (\<^const>\<open>True\<close> for
  running), \<open>st\<close> and \<open>put\<close> read and write its status.
\<close>

fun scan_with :: "('s \<Rightarrow> child_status) \<Rightarrow> (child_status \<Rightarrow> 's \<Rightarrow> 's) \<Rightarrow> ('s \<Rightarrow> bool) \<Rightarrow> bool \<Rightarrow> bool
    \<Rightarrow> ('k \<times> 's) list \<Rightarrow> ('k, 's) scan" where
  "scan_with st put goal started stopped [] = Scanned started stopped"
| "scan_with st put goal started stopped ((k, s) # rest) =
     (case st s of
        ChildStopped \<Rightarrow> if goal s then Act (Start k) ((k, put ChildStarting s) # rest)
          else scan_cons (k, s) (scan_with st put goal False stopped rest)
      | ChildRunning a \<Rightarrow> if goal s then scan_cons (k, s) (scan_with st put goal started False rest)
          else Act (Stop a (Some k)) ((k, put (ChildTerminating a) s) # rest)
      | _ \<Rightarrow> scan_cons (k, s) (scan_with st put goal False False rest))"

definition settled :: "('s \<Rightarrow> child_status) \<Rightarrow> ('s \<Rightarrow> bool) \<Rightarrow> 'k \<times> 's \<Rightarrow> bool" where
  "settled st goal = (\<lambda>(k, s). case st s of
     ChildStopped \<Rightarrow> \<not> goal s
   | ChildRunning _ \<Rightarrow> goal s
   | _ \<Rightarrow> True)"

lemma scan_with_settled:
  "\<forall>c\<in>set cs. settled st goal c \<Longrightarrow> scan_with st put goal started stopped cs =
    Scanned (started \<and> (\<forall>c\<in>set cs. is_running (st (snd c)))) (stopped \<and> (\<forall>c\<in>set cs. st (snd c) = ChildStopped))"
  by (induction cs arbitrary: started stopped) (auto simp: settled_def split: child_status.splits)

lemma scan_with_start:
  "\<forall>c\<in>set pre. settled st goal c \<Longrightarrow> st s = ChildStopped \<Longrightarrow> goal s \<Longrightarrow>
    scan_with st put goal started stopped (pre @ (k, s) # post) =
      Act (Start k) (pre @ (k, put ChildStarting s) # post)"
  by (induction pre arbitrary: started stopped) (auto simp: settled_def split: child_status.splits)

lemma scan_with_stop:
  "\<forall>c\<in>set pre. settled st goal c \<Longrightarrow> st s = ChildRunning a \<Longrightarrow> \<not> goal s \<Longrightarrow>
    scan_with st put goal started stopped (pre @ (k, s) # post) =
      Act (Stop a (Some k)) (pre @ (k, put (ChildTerminating a) s) # post)"
  by (induction pre arbitrary: started stopped) (auto simp: settled_def split: child_status.splits)

lemma scan_with_cases:
  obtains (scanned) "\<forall>c\<in>set cs. settled st goal c" "scan_with st put goal started stopped cs =
        Scanned (started \<and> (\<forall>c\<in>set cs. is_running (st (snd c)))) (stopped \<and> (\<forall>c\<in>set cs. st (snd c) = ChildStopped))"
  | (start) pre k s post where "cs = pre @ (k, s) # post" "\<forall>c\<in>set pre. settled st goal c"
      "st s = ChildStopped" "goal s"
      "scan_with st put goal started stopped cs = Act (Start k) (pre @ (k, put ChildStarting s) # post)"
  | (stop) pre k s a post where "cs = pre @ (k, s) # post" "\<forall>c\<in>set pre. settled st goal c"
      "st s = ChildRunning a" "\<not> goal s"
      "scan_with st put goal started stopped cs =
        Act (Stop a (Some k)) (pre @ (k, put (ChildTerminating a) s) # post)"
proof (cases "\<forall>c\<in>set cs. settled st goal c")
  case True
  then show thesis using scanned scan_with_settled by blast
next
  case False
  then obtain pre k s post where cs: "cs = pre @ (k, s) # post" "\<forall>c\<in>set pre. settled st goal c"
    "\<not> settled st goal (k, s)" using split_list_first_prop [of cs "\<lambda>c. \<not> settled st goal c"] by auto
  then consider "st s = ChildStopped" "goal s" | a where "st s = ChildRunning a" "\<not> goal s"
    by (auto simp: settled_def split: child_status.splits)
  then show thesis
  proof cases
    case 1
    then show ?thesis using start [OF cs(1,2)] scan_with_start [OF cs(2)] by (simp add: cs(1))
  next
    case (2 a)
    then show ?thesis using stop [OF cs(1,2)] scan_with_stop [OF cs(2)] by (simp add: cs(1))
  qed
qed

end
