(* ===== verification/One_For_One.thy ===== *)
theory One_For_One
  imports Sup_Common
begin

text \<open>
  The decider of the one-for-one strategy,
  \<^verbatim>\<open>components/mm1-sup/src/mixed/strategy/one_for_one.rs\<close>. The set of orphans is a hash set: which
  orphan its iterator yields first is the index \<open>pick\<close>, an argument of \<^verbatim>\<open>next_action\<close>.
\<close>

section \<open>State\<close>

datatype ofo_target = TargetRunning | TargetStopped | TargetRemoved

datatype ofo_sup_status = SupStarting | SupRunning | SupStopping bool | SupStopped

record ofo_state =
  ofo_child_type :: child_type
  ofo_status :: child_status
  ofo_target :: ofo_target

record 'k ofo =
  ofo_intensity :: restart_intensity
  ofo_stats :: restart_stats
  ofo_states :: "('k \<times> ofo_state) list"
  ofo_orphans :: "address list"
  ofo_sup :: ofo_sup_status

definition ofo_new :: "restart_intensity \<Rightarrow> 'k ofo" where
  "ofo_new ri = \<lparr>ofo_intensity = ri, ofo_stats = new_stats ri, ofo_states = [], ofo_orphans = [],
     ofo_sup = SupStarting\<rparr>"

section \<open>Operations\<close>

definition ofo_address :: "'k ofo \<Rightarrow> 'k \<Rightarrow> decider_error + address option" where
  "ofo_address d key = (case find (\<lambda>(k, s). key = k) (ofo_states d) of
     None \<Rightarrow> Inl KeyNotFound
   | Some (_, s) \<Rightarrow> Inr (status_address (ofo_status s)))"

definition ofo_add :: "'k ofo \<Rightarrow> 'k \<Rightarrow> child_type \<Rightarrow> decider_error + 'k ofo" where
  "ofo_add d key ct =
     (if list_ex (\<lambda>(k, _). k = key) (ofo_states d) then Inl DuplicateKey
      else Inr (d\<lparr>ofo_states := ofo_states d @
        [(key, \<lparr>ofo_child_type = ct, ofo_status = ChildStopped, ofo_target = TargetRunning\<rparr>)]\<rparr>))"

definition ofo_rm :: "'k ofo \<Rightarrow> 'k \<Rightarrow> 'k ofo" where
  "ofo_rm d key = d\<lparr>ofo_states := update_first (\<lambda>(k, _). k = key)
     (\<lambda>(k, s). (k, s\<lparr>ofo_target := TargetRemoved\<rparr>)) (ofo_states d)\<rparr>"

definition ofo_started :: "'k ofo \<Rightarrow> 'k \<Rightarrow> address \<Rightarrow> 'k ofo panics" where
  "ofo_started d key addr =
     (if list_ex (\<lambda>(_, s). status_address (ofo_status s) = Some addr) (ofo_states d) then None
      else case find (\<lambda>(k, _). k = key) (ofo_states d) of
        None \<Rightarrow> Some d
      | Some (_, s) \<Rightarrow> (case ofo_status s of
          ChildStarting \<Rightarrow> Some (d\<lparr>ofo_states := update_first (\<lambda>(k, _). k = key)
            (\<lambda>(k, s). (k, s\<lparr>ofo_status := ChildRunning addr\<rparr>)) (ofo_states d)\<rparr>)
        | _ \<Rightarrow> Some (d\<lparr>ofo_orphans := List.insert addr (ofo_orphans d)\<rparr>)))"

definition ofo_exited :: "'k ofo \<Rightarrow> address \<Rightarrow> bool \<Rightarrow> instant \<Rightarrow> 'k ofo panics" where
  "ofo_exited d addr normal_exit at =
     (let selected = (\<lambda>(_, s). status_address (ofo_status s) = Some addr);
          put = (\<lambda>f. update_first selected (\<lambda>(k, s). (k, f s)) (ofo_states d))
      in case find selected (ofo_states d) of
        None \<Rightarrow> Some (d\<lparr>ofo_sup := SupStopping True\<rparr>)
      | Some (_, s) \<Rightarrow>
          (case (ofo_status s, acceptable_exit (ofo_child_type s) normal_exit) of
             (ChildTerminating address, _) \<Rightarrow>
               if address = addr then Some (d\<lparr>ofo_states := put (ofo_status_update (\<lambda>_. ChildStopped))\<rparr>)
               else None
           | (ChildRunning address, True) \<Rightarrow>
               if address = addr then Some (d\<lparr>ofo_states :=
                 put (\<lambda>s. s\<lparr>ofo_status := ChildStopped, ofo_target := TargetStopped\<rparr>)\<rparr>)
               else None
           | (ChildRunning address, False) \<Rightarrow>
               if address = addr then
                 let (ok, stats) = report_exit (ofo_intensity d) (ofo_stats d) at
                 in Some (d\<lparr>ofo_stats := stats,
                      ofo_sup := (if ok then ofo_sup d else SupStopping False),
                      ofo_states := put (ofo_status_update (\<lambda>_. ChildStopped))\<rparr>)
               else None
           | _ \<Rightarrow> None))"

definition ofo_failed :: "'k ofo \<Rightarrow> 'k \<Rightarrow> 'k ofo" where
  "ofo_failed d key = (case find (\<lambda>(k, _). k = key) (ofo_states d) of
     None \<Rightarrow> d
   | Some _ \<Rightarrow> d\<lparr>ofo_states := update_first (\<lambda>(k, _). k = key)
       (\<lambda>(k, s). (k, case ofo_status s of
          ChildStarting \<Rightarrow> s\<lparr>ofo_status := ChildStopped\<rparr>
        | _ \<Rightarrow> s\<lparr>ofo_target := TargetStopped\<rparr>)) (ofo_states d),
       ofo_sup := SupStopping False\<rparr>)"

definition ofo_quit :: "'k ofo \<Rightarrow> bool \<Rightarrow> 'k ofo" where
  "ofo_quit d normal_exit = d\<lparr>ofo_sup := (case ofo_sup d of
     SupStopped \<Rightarrow> SupStopped
   | SupStopping existing \<Rightarrow> SupStopping (normal_exit \<and> existing)
   | SupStarting \<Rightarrow> SupStopping normal_exit
   | SupRunning \<Rightarrow> SupStopping normal_exit)\<rparr>"

text \<open>
  The loop over the children: either it acts on a child and returns, with the list in which that
  child is updated, or it ends with the flags \<open>all_children_started\<close> and \<open>all_children_stopped\<close>.
\<close>

fun ofo_scan :: "bool \<Rightarrow> bool \<Rightarrow> bool \<Rightarrow> ('k \<times> ofo_state) list \<Rightarrow> ('k, ofo_state) scan panics" where
  "ofo_scan stopping started stopped [] = Some (Scanned started stopped)"
| "ofo_scan stopping started stopped ((key, state) # rest) =
     (let status = ofo_status state;
          target = (if stopping then TargetStopped else ofo_target state);
          stopped' = (stopped \<and> status = ChildStopped);
          started' = (started \<and> is_running status);
          continue = map_option (scan_cons (key, state)) (ofo_scan stopping started' stopped' rest)
      in case (status, target) of
           (ChildStarting, _) \<Rightarrow> continue
         | (ChildTerminating _, _) \<Rightarrow> continue
         | (ChildRunning _, TargetRunning) \<Rightarrow> continue
         | (ChildStopped, TargetStopped) \<Rightarrow> continue
         | (ChildStopped, TargetRemoved) \<Rightarrow> None
         | (ChildStopped, TargetRunning) \<Rightarrow>
             Some (Act (Start key) ((key, state\<lparr>ofo_status := ChildStarting\<rparr>) # rest))
         | (ChildRunning a, _) \<Rightarrow>
             Some (Act (Stop a (Some key)) ((key, state\<lparr>ofo_status := ChildTerminating a\<rparr>) # rest)))"

definition ofo_next_action :: "nat \<Rightarrow> 'k ofo \<Rightarrow> ('k action option \<times> 'k ofo) panics" where
  "ofo_next_action pick d0 =
     (let d = d0\<lparr>ofo_states := filter (\<lambda>(_, s).
            \<not> (ofo_status s = ChildStopped \<and> ofo_target s = TargetRemoved)) (ofo_states d0)\<rparr>
      in if ofo_orphans d \<noteq> [] then
        let address = ofo_orphans d ! (pick mod length (ofo_orphans d))
        in Some (Some (Stop address None), d\<lparr>ofo_orphans := remove1 address (ofo_orphans d)\<rparr>)
      else do {
        result \<leftarrow> (case ofo_sup d of
            SupStarting \<Rightarrow> ofo_scan False True True (ofo_states d)
          | SupRunning \<Rightarrow> ofo_scan False True True (ofo_states d)
          | SupStopping _ \<Rightarrow> ofo_scan True True True (rev (ofo_states d))
          | SupStopped \<Rightarrow> Some (Scanned True True));
        (case result of
           Act a states \<Rightarrow> Some (Some a, d\<lparr>ofo_states :=
             (case ofo_sup d of SupStopping _ \<Rightarrow> rev states | _ \<Rightarrow> states)\<rparr>)
         | Scanned all_started all_stopped \<Rightarrow>
             (case ofo_sup d of
                SupRunning \<Rightarrow> Some (None, d)
              | SupStopped \<Rightarrow> Some (None, d)
              | SupStarting \<Rightarrow>
                  if all_started then Some (Some InitDone, d\<lparr>ofo_sup := SupRunning\<rparr>)
                  else Some (None, d)
              | SupStopping normal_exit \<Rightarrow>
                  if all_stopped then Some (Some (Quit normal_exit), d\<lparr>ofo_sup := SupStopped\<rparr>)
                  else Some (None, d)))
      })"

section \<open>The walk over the children\<close>

definition ofo_goal :: "bool \<Rightarrow> ofo_state \<Rightarrow> bool" where
  "ofo_goal stopping s \<longleftrightarrow> \<not> stopping \<and> ofo_target s = TargetRunning"

abbreviation ofo_put :: "child_status \<Rightarrow> ofo_state \<Rightarrow> ofo_state" where
  "ofo_put x s \<equiv> s\<lparr>ofo_status := x\<rparr>"

definition ofo_present :: "'k \<times> ofo_state \<Rightarrow> bool" where
  "ofo_present = (\<lambda>(_, s). \<not> (ofo_status s = ChildStopped \<and> ofo_target s = TargetRemoved))"

lemma ofo_scan_with:
  assumes "\<forall>c\<in>set cs. stopping \<or> ofo_present c"
  shows "ofo_scan stopping started stopped cs =
    Some (scan_with ofo_status ofo_put (ofo_goal stopping) started stopped cs)"
  using assms
proof (induction cs arbitrary: started stopped)
  case (Cons c cs)
  then show ?case
    by (cases c; cases "ofo_status (snd c)"; cases "ofo_target (snd c)")
      (auto simp: ofo_present_def ofo_goal_def Let_def)
qed simp

definition ofo_stopping :: "'k ofo \<Rightarrow> bool" where
  "ofo_stopping d = (case ofo_sup d of SupStopping _ \<Rightarrow> True | _ \<Rightarrow> False)"

definition ofo_settled :: "'k ofo \<Rightarrow> 'k \<times> ofo_state \<Rightarrow> bool" where
  "ofo_settled d = settled ofo_status (ofo_goal (ofo_stopping d))"

definition ofo_retain :: "'k ofo \<Rightarrow> 'k ofo" where
  "ofo_retain d = d\<lparr>ofo_states := filter ofo_present (ofo_states d)\<rparr>"

text \<open>The outcomes of \<^const>\<open>ofo_next_action\<close>, one rule for each.\<close>

inductive ofo_next :: "'k ofo \<Rightarrow> 'k action option \<Rightarrow> 'k ofo \<Rightarrow> bool" where
  next_orphan: "a \<in> set (ofo_orphans d) \<Longrightarrow>
    ofo_next d (Some (Stop a None)) (d\<lparr>ofo_orphans := remove1 a (ofo_orphans d)\<rparr>)"
| next_start: "ofo_orphans d = [] \<Longrightarrow> ofo_sup d = SupStarting \<or> ofo_sup d = SupRunning \<Longrightarrow>
    ofo_states d = pre @ (k, s) # post \<Longrightarrow> \<forall>c\<in>set pre. ofo_settled d c \<Longrightarrow>
    ofo_status s = ChildStopped \<Longrightarrow> ofo_target s = TargetRunning \<Longrightarrow>
    ofo_next d (Some (Start k)) (d\<lparr>ofo_states := pre @ (k, s\<lparr>ofo_status := ChildStarting\<rparr>) # post\<rparr>)"
| next_stop: "ofo_orphans d = [] \<Longrightarrow> ofo_sup d = SupStarting \<or> ofo_sup d = SupRunning \<Longrightarrow>
    ofo_states d = pre @ (k, s) # post \<Longrightarrow> \<forall>c\<in>set pre. ofo_settled d c \<Longrightarrow>
    ofo_status s = ChildRunning a \<Longrightarrow> ofo_target s \<noteq> TargetRunning \<Longrightarrow>
    ofo_next d (Some (Stop a (Some k))) (d\<lparr>ofo_states := pre @ (k, s\<lparr>ofo_status := ChildTerminating a\<rparr>) # post\<rparr>)"
| next_shutdown: "ofo_orphans d = [] \<Longrightarrow> ofo_sup d = SupStopping n \<Longrightarrow>
    ofo_states d = pre @ (k, s) # post \<Longrightarrow> \<forall>c\<in>set post. ofo_settled d c \<Longrightarrow>
    ofo_status s = ChildRunning a \<Longrightarrow>
    ofo_next d (Some (Stop a (Some k))) (d\<lparr>ofo_states := pre @ (k, s\<lparr>ofo_status := ChildTerminating a\<rparr>) # post\<rparr>)"
| next_init_done: "ofo_orphans d = [] \<Longrightarrow> ofo_sup d = SupStarting \<Longrightarrow>
    \<forall>c\<in>set (ofo_states d). is_running (ofo_status (snd c)) \<and> ofo_target (snd c) = TargetRunning \<Longrightarrow>
    ofo_next d (Some InitDone) (d\<lparr>ofo_sup := SupRunning\<rparr>)"
| next_quit: "ofo_orphans d = [] \<Longrightarrow> ofo_sup d = SupStopping n \<Longrightarrow>
    \<forall>c\<in>set (ofo_states d). ofo_status (snd c) = ChildStopped \<Longrightarrow>
    ofo_next d (Some (Quit n)) (d\<lparr>ofo_sup := SupStopped\<rparr>)"
| next_none: "ofo_orphans d = [] \<Longrightarrow> ofo_sup d = SupStopped \<or> (\<forall>c\<in>set (ofo_states d). ofo_settled d c) \<Longrightarrow>
    ofo_sup d = SupStarting \<longrightarrow> (\<exists>c\<in>set (ofo_states d). \<not> is_running (ofo_status (snd c))) \<Longrightarrow>
    ofo_stopping d \<longrightarrow> (\<exists>c\<in>set (ofo_states d). ofo_status (snd c) \<noteq> ChildStopped) \<Longrightarrow>
    ofo_next d None d"

lemma ofo_next_action_retain:
  "ofo_next_action pick d = ofo_next_action pick (ofo_retain d)"
  by (simp add: ofo_next_action_def ofo_retain_def ofo_present_def)

lemma ofo_retained:
  assumes "ofo_retain d = d"
  shows "\<forall>c\<in>set (ofo_states d). ofo_present c"
    "d\<lparr>ofo_states := filter (\<lambda>(_, s). \<not> (ofo_status s = ChildStopped \<and> ofo_target s = TargetRemoved))
      (ofo_states d)\<rparr> = d"
proof -
  have eq: "filter ofo_present (ofo_states d) = ofo_states d"
    using arg_cong [OF assms, of ofo_states] by (simp add: ofo_retain_def)
  then show "\<forall>c\<in>set (ofo_states d). ofo_present c" by (simp add: filter_id_conv)
  show "d\<lparr>ofo_states := filter (\<lambda>(_, s). \<not> (ofo_status s = ChildStopped \<and> ofo_target s = TargetRemoved))
      (ofo_states d)\<rparr> = d" using eq by (simp add: ofo_present_def)
qed

lemma ofo_next_action_orphan:
  assumes "ofo_retain d = d" "ofo_orphans d \<noteq> []"
  shows "\<exists>a d'. ofo_next_action pick d = Some (a, d') \<and> ofo_next d a d'"
proof -
  let ?a = "ofo_orphans d ! (pick mod length (ofo_orphans d))"
  have "?a \<in> set (ofo_orphans d)" using assms(2) by simp
  from next_orphan [OF this] show ?thesis
    unfolding ofo_next_action_def Let_def ofo_retained(2) [OF assms(1)] using assms(2) by auto
qed

lemma ofo_next_action_up:
  assumes "ofo_retain d = d" "ofo_orphans d = []" "ofo_sup d = SupStarting \<or> ofo_sup d = SupRunning"
  shows "\<exists>a d'. ofo_next_action pick d = Some (a, d') \<and> ofo_next d a d'"
proof -
  have goal: "ofo_goal False = (\<lambda>s. ofo_target s = TargetRunning)" by (simp add: ofo_goal_def fun_eq_iff)
  have settled: "ofo_settled d = settled ofo_status (ofo_goal False)"
    using assms(3) by (auto simp: ofo_settled_def ofo_stopping_def)
  have scan: "ofo_scan False True True (ofo_states d) =
    Some (scan_with ofo_status ofo_put (ofo_goal False) True True (ofo_states d))"
    using ofo_retained(1) [OF assms(1)] by (intro ofo_scan_with) simp
  note unfold = ofo_next_action_def Let_def ofo_retained(2) [OF assms(1)]
  show ?thesis
  proof (cases rule: scan_with_cases [of "ofo_states d" ofo_status "ofo_goal False" ofo_put True True])
    case scanned
    have run: "ofo_target (snd c) = TargetRunning"
      if "c \<in> set (ofo_states d)" "is_running (ofo_status (snd c))" for c
      using scanned(1) that by (cases c; cases "ofo_status (snd c)") (auto simp: settled_def goal)
    have init: "ofo_next d (Some InitDone) (d\<lparr>ofo_sup := SupRunning\<rparr>)"
      if "ofo_sup d = SupStarting" "\<forall>c\<in>set (ofo_states d). is_running (ofo_status (snd c))"
      using that run by (intro next_init_done [OF assms(2)]) blast+
    show ?thesis
      using assms(2,3) scanned scan init next_none [OF assms(2)]
      unfolding unfold by (auto simp: settled ofo_stopping_def)
  next
    case (start pre k s post)
    then show ?thesis
      using next_start [OF assms(2,3) start(1)] assms(2,3) scan
      unfolding unfold by (auto simp: settled goal)
  next
    case (stop pre k s a post)
    then show ?thesis
      using next_stop [OF assms(2,3) stop(1)] assms(2,3) scan
      unfolding unfold by (auto simp: settled goal)
  qed
qed

lemma ofo_next_action_stopping:
  assumes "ofo_retain d = d" "ofo_orphans d = []" "ofo_sup d = SupStopping n"
  shows "\<exists>a d'. ofo_next_action pick d = Some (a, d') \<and> ofo_next d a d'"
proof -
  have settled: "ofo_settled d = settled ofo_status (ofo_goal True)"
    using assms(3) by (auto simp: ofo_settled_def ofo_stopping_def)
  have scan: "ofo_scan True True True (rev (ofo_states d)) =
    Some (scan_with ofo_status ofo_put (ofo_goal True) True True (rev (ofo_states d)))"
    by (intro ofo_scan_with) simp
  note unfold = ofo_next_action_def Let_def ofo_retained(2) [OF assms(1)]
  show ?thesis
  proof (cases rule: scan_with_cases [of "rev (ofo_states d)" ofo_status "ofo_goal True" ofo_put True True])
    case scanned
    show ?thesis
    proof (cases "\<forall>c\<in>set (ofo_states d). ofo_status (snd c) = ChildStopped")
      case True
      then show ?thesis using scanned(2) assms(2,3) scan next_quit [OF assms(2,3)] unfolding unfold by auto
    next
      case False
      then have "ofo_next d None d"
        using scanned(1) assms(2,3) by (intro next_none) (auto simp: settled)
      moreover have "ofo_next_action pick d = Some (None, d)"
        using scanned(2) assms(2,3) scan False unfolding unfold by auto
      ultimately show ?thesis by blast
    qed
  next
    case (start pre k s post)
    then show ?thesis by (simp add: ofo_goal_def)
  next
    case (stop pre k s a post)
    have "ofo_states d = rev post @ (k, s) # rev pre" using arg_cong [OF stop(1), of rev] by simp
    then have "ofo_next d (Some (Stop a (Some k)))
      (d\<lparr>ofo_states := rev post @ (k, s\<lparr>ofo_status := ChildTerminating a\<rparr>) # rev pre\<rparr>)"
      using assms(2,3) stop(2,3) by (intro next_shutdown) (auto simp: settled)
    then show ?thesis using stop(5) assms(2,3) scan unfolding unfold by auto
  qed
qed

lemma ofo_next_action_ok:
  assumes "ofo_retain d = d"
  shows "\<exists>a d'. ofo_next_action pick d = Some (a, d') \<and> ofo_next d a d'"
proof (cases "ofo_orphans d = []")
  case True
  show ?thesis
  proof (cases "ofo_sup d")
    case SupStopped
    then have "ofo_next d None d" using True by (intro next_none) (auto simp: ofo_stopping_def)
    moreover have "ofo_next_action pick d = Some (None, d)"
      using True SupStopped unfolding ofo_next_action_def Let_def ofo_retained(2) [OF assms] by simp
    ultimately show ?thesis by blast
  qed (use ofo_next_action_up ofo_next_action_stopping True assms in blast)+
qed (rule ofo_next_action_orphan [OF assms])

section \<open>Invariant\<close>

definition ofo_inv :: "'k ofo \<Rightarrow> bool" where
  "ofo_inv d \<longleftrightarrow> distinct (map fst (ofo_states d)) \<and> distinct (live_addrs ofo_status (ofo_states d))"

lemma ofo_new_inv: "ofo_inv (ofo_new ri)"
  by (simp add: ofo_inv_def ofo_new_def)

lemma ofo_add_inv:
  assumes "ofo_inv d" "ofo_add d k ct = Inr d'"
  shows "ofo_inv d' \<and> map fst (ofo_states d') = map fst (ofo_states d) @ [k]"
  using assms by (auto simp: ofo_inv_def ofo_add_def list_ex_iff split: if_splits) fastforce

lemma ofo_update_inv:
  assumes "ofo_inv d" "ofo_states d = pre @ (k, s) # post" "ofo_states d' = pre @ (k, s') # post"
    and "status_address (ofo_status s') = status_address (ofo_status s)
      \<or> status_address (ofo_status s') = None
      \<or> (\<exists>a. status_address (ofo_status s') = Some a \<and> a \<notin> set (live_addrs ofo_status (ofo_states d)))"
  shows "ofo_inv d'"
  using assms by (auto simp: ofo_inv_def split: option.splits)

lemma ofo_retain_inv: "ofo_inv d \<Longrightarrow> ofo_inv (ofo_retain d)"
proof -
  assume "ofo_inv d"
  moreover have "live_addrs ofo_status (filter ofo_present (ofo_states d)) = live_addrs ofo_status (ofo_states d)"
    by (rule live_addrs_filter) (auto simp: ofo_present_def)
  ultimately show ?thesis by (simp add: ofo_inv_def ofo_retain_def distinct_map_filter)
qed

lemma ofo_retain_idem: "ofo_retain (ofo_retain d) = ofo_retain d"
  by (simp add: ofo_retain_def)

lemma ofo_next_inv:
  assumes "ofo_next d a d'" "ofo_inv d"
  shows "ofo_inv d' \<and> map fst (ofo_states d') = map fst (ofo_states d)"
  using assms
proof (cases rule: ofo_next.cases)
  case (next_start pre k s post)
  then show ?thesis using assms(2) ofo_update_inv [OF assms(2) next_start(5), of d'] by simp
next
  case (next_stop pre k s post a)
  then show ?thesis using assms(2) ofo_update_inv [OF assms(2) next_stop(5), of d'] by simp
next
  case (next_shutdown n pre k s post a)
  then show ?thesis using assms(2) ofo_update_inv [OF assms(2) next_shutdown(5), of d'] by simp
qed (auto simp: ofo_inv_def)

lemma ofo_next_retained:
  assumes "ofo_next d a d'" "ofo_retain d = d"
  shows "ofo_retain d' = d'"
  using assms(1) ofo_retained(1) [OF assms(2)] assms(2)
  by (cases rule: ofo_next.cases) (auto simp: ofo_retain_def filter_id_conv ofo_present_def)

section \<open>The loop of actions ends\<close>

definition ofo_pending :: "'k ofo \<Rightarrow> nat" where
  "ofo_pending d = length (ofo_orphans d) + (case ofo_sup d of
     SupStopped \<Rightarrow> 0
   | SupRunning \<Rightarrow> length (filter (\<lambda>c. \<not> ofo_settled d c) (ofo_states d))
   | _ \<Rightarrow> Suc (length (filter (\<lambda>c. \<not> ofo_settled d c) (ofo_states d))))"

lemma ofo_next_pending:
  assumes "ofo_next d (Some a) d'"
  shows "ofo_pending d' < ofo_pending d"
  using assms
proof (cases rule: ofo_next.cases)
  case (next_orphan x)
  have "ofo_settled d' = ofo_settled d" by (simp add: next_orphan ofo_settled_def ofo_stopping_def)
  then show ?thesis using next_orphan length_pos_if_in_set [of x "ofo_orphans d"]
    by (cases "ofo_sup d") (simp_all add: ofo_pending_def length_remove1)
next
  case (next_start pre k s post)
  have "ofo_settled d' = ofo_settled d" by (simp add: next_start ofo_settled_def ofo_stopping_def)
  moreover have "\<not> ofo_settled d (k, s)" "ofo_settled d (k, s\<lparr>ofo_status := ChildStarting\<rparr>)"
    using next_start by (auto simp: ofo_settled_def settled_def ofo_goal_def ofo_stopping_def)
  ultimately show ?thesis using next_start by (auto simp: ofo_pending_def)
next
  case (next_stop pre k s post x)
  have "ofo_settled d' = ofo_settled d" by (simp add: next_stop ofo_settled_def ofo_stopping_def)
  moreover have "\<not> ofo_settled d (k, s)" "ofo_settled d (k, s\<lparr>ofo_status := ChildTerminating x\<rparr>)"
    using next_stop by (auto simp: ofo_settled_def settled_def ofo_goal_def ofo_stopping_def)
  ultimately show ?thesis using next_stop by (auto simp: ofo_pending_def)
next
  case (next_shutdown n pre k s post x)
  have "ofo_settled d' = ofo_settled d" by (simp add: next_shutdown ofo_settled_def ofo_stopping_def)
  moreover have "\<not> ofo_settled d (k, s)" "ofo_settled d (k, s\<lparr>ofo_status := ChildTerminating x\<rparr>)"
    using next_shutdown by (auto simp: ofo_settled_def settled_def ofo_goal_def ofo_stopping_def)
  ultimately show ?thesis using next_shutdown by (auto simp: ofo_pending_def)
next
  case next_init_done
  have "ofo_settled d' = ofo_settled d" by (simp add: next_init_done ofo_settled_def ofo_stopping_def)
  then show ?thesis using next_init_done by (simp add: ofo_pending_def)
qed (auto simp: ofo_pending_def)

fun ofo_drain :: "nat \<Rightarrow> (nat \<Rightarrow> nat) \<Rightarrow> 'k ofo \<Rightarrow> ('k action list \<times> 'k ofo) option" where
  "ofo_drain 0 picks d = None"
| "ofo_drain (Suc fuel) picks d = do {
     (a, d') \<leftarrow> ofo_next_action (picks fuel) d;
     (case a of
        None \<Rightarrow> Some ([], d')
      | Some x \<Rightarrow> do {
          (xs, d'') \<leftarrow> ofo_drain fuel picks d';
          Some (x # xs, d'')
        })
   }"

lemma ofo_drain_ok:
  assumes "ofo_retain d = d" "ofo_inv d" "ofo_pending d < fuel"
  shows "\<exists>xs d'. ofo_drain fuel picks d = Some (xs, d') \<and> ofo_inv d' \<and> ofo_next d' None d' \<and> length xs \<le> ofo_pending d"
  using assms
proof (induction fuel arbitrary: d)
  case (Suc fuel)
  obtain a d' where step: "ofo_next_action (picks fuel) d = Some (a, d')" "ofo_next d a d'"
    using ofo_next_action_ok [OF Suc.prems(1)] by blast
  show ?case
  proof (cases a)
    case None
    then have "d' = d" using step(2) by (auto elim: ofo_next.cases)
    then show ?thesis using None step Suc.prems by auto
  next
    case (Some x)
    have "ofo_pending d' < ofo_pending d" using step(2) Some ofo_next_pending by blast
    then have "\<exists>xs d''. ofo_drain fuel picks d' = Some (xs, d'') \<and> ofo_inv d'' \<and> ofo_next d'' None d''
      \<and> length xs \<le> ofo_pending d'"
      using Suc ofo_next_retained [OF step(2)] ofo_next_inv [OF step(2)] by simp
    then show ?thesis using Some step(1) \<open>ofo_pending d' < ofo_pending d\<close> by fastforce
  qed
qed simp

section \<open>Reports to the decider\<close>

lemma ofo_keys_update: "map fst (update_first P (\<lambda>(k, s). (k, f s)) cs) = map fst cs"
  by (rule update_first_map) (simp add: split_beta)

lemma ofo_started_ok:
  assumes "ofo_inv d" "addr \<notin> set (live_addrs ofo_status (ofo_states d))"
  shows "\<exists>d'. ofo_started d k addr = Some d' \<and> ofo_inv d' \<and> map fst (ofo_states d') = map fst (ofo_states d)"
proof -
  have fresh: "\<not> list_ex (\<lambda>(_, s). status_address (ofo_status s) = Some addr) (ofo_states d)"
    using assms(2) by (auto simp: set_live_addrs list_ex_iff)
  show ?thesis
  proof (cases "find (\<lambda>(k', _). k' = k) (ofo_states d)")
    case None
    then show ?thesis using fresh assms(1) by (simp add: ofo_started_def)
  next
    case (Some c)
    then obtain s pre post where c: "c = (k, s)" "ofo_states d = pre @ (k, s) # post"
      "\<And>f. update_first (\<lambda>(k', _). k' = k) f (ofo_states d) = pre @ f (k, s) # post"
      by (auto elim!: update_first_split)
    show ?thesis
    proof (cases "ofo_status s")
      case ChildStarting
      let ?d = "d\<lparr>ofo_states := pre @ (k, s\<lparr>ofo_status := ChildRunning addr\<rparr>) # post\<rparr>"
      have "ofo_inv ?d" using ofo_update_inv [OF assms(1) c(2), of ?d] assms(2) by simp
      then show ?thesis using fresh Some c ChildStarting by (simp add: ofo_started_def)
    qed (use fresh Some c assms(1) in \<open>auto simp: ofo_started_def ofo_inv_def\<close>)
  qed
qed

lemma ofo_exited_unknown:
  assumes "addr \<notin> set (live_addrs ofo_status (ofo_states d))"
  shows "ofo_exited d addr normal at = Some (d\<lparr>ofo_sup := SupStopping True\<rparr>)"
proof -
  have "find (\<lambda>(_, s). status_address (ofo_status s) = Some addr) (ofo_states d) = None"
    using assms by (auto simp: set_live_addrs find_None_iff)
  then show ?thesis by (simp add: ofo_exited_def)
qed

lemma ofo_exited_known:
  assumes "ofo_inv d" "addr \<in> set (live_addrs ofo_status (ofo_states d))"
  obtains pre k s post d' where "ofo_states d = pre @ (k, s) # post" "status_address (ofo_status s) = Some addr"
    "ofo_exited d addr normal at = Some d'"
    "ofo_states d' = pre @ (k, s\<lparr>ofo_status := ChildStopped,
      ofo_target := (if is_running (ofo_status s) \<and> acceptable_exit (ofo_child_type s) normal
        then TargetStopped else ofo_target s)\<rparr>) # post"
    "(ofo_sup d', ofo_stats d') =
      (if is_running (ofo_status s) \<and> \<not> acceptable_exit (ofo_child_type s) normal
       then (if fst (report_exit (ofo_intensity d) (ofo_stats d) at) then ofo_sup d else SupStopping False,
         snd (report_exit (ofo_intensity d) (ofo_stats d) at))
       else (ofo_sup d, ofo_stats d))"
    "ofo_orphans d' = ofo_orphans d" "ofo_intensity d' = ofo_intensity d"
proof -
  let ?P = "\<lambda>(_, s). status_address (ofo_status s) = Some addr"
  obtain k s where found: "find ?P (ofo_states d) = Some (k, s)"
    using assms(2) by (cases "find ?P (ofo_states d)") (auto simp: set_live_addrs find_None_iff)
  obtain pre post where split: "ofo_states d = pre @ (k, s) # post" "?P (k, s)"
    "\<And>f. update_first ?P f (ofo_states d) = pre @ f (k, s) # post"
    by (rule update_first_split [OF found]) (rule that; assumption)
  then have addr: "status_address (ofo_status s) = Some addr" by simp
  note c = found split(1) addr split(3)
  note simps = ofo_exited_def c(1) c(4) Let_def split_beta
  have ex: "\<exists>d'. ofo_exited d addr normal at = Some d' \<and> ofo_states d' = pre @ (k, s\<lparr>ofo_status := ChildStopped,
      ofo_target := (if is_running (ofo_status s) \<and> acceptable_exit (ofo_child_type s) normal
        then TargetStopped else ofo_target s)\<rparr>) # post
    \<and> (ofo_sup d', ofo_stats d') =
      (if is_running (ofo_status s) \<and> \<not> acceptable_exit (ofo_child_type s) normal
       then (if fst (report_exit (ofo_intensity d) (ofo_stats d) at) then ofo_sup d else SupStopping False,
         snd (report_exit (ofo_intensity d) (ofo_stats d) at))
       else (ofo_sup d, ofo_stats d))
    \<and> ofo_orphans d' = ofo_orphans d \<and> ofo_intensity d' = ofo_intensity d"
  proof (cases "ofo_status s")
    case (ChildRunning a)
    then show ?thesis using c(3) by (cases "acceptable_exit (ofo_child_type s) normal") (auto simp: simps)
  next
    case (ChildTerminating a)
    then show ?thesis using c(3) by (auto simp: simps)
  qed (use c(3) in auto)
  then show thesis using that [OF c(2,3)] by blast
qed

lemma ofo_exited_ok:
  assumes "ofo_inv d"
  shows "\<exists>d'. ofo_exited d addr normal at = Some d' \<and> ofo_inv d'
    \<and> map fst (ofo_states d') = map fst (ofo_states d) \<and> addr \<notin> set (live_addrs ofo_status (ofo_states d'))"
proof (cases "addr \<in> set (live_addrs ofo_status (ofo_states d))")
  case True
  then show ?thesis using assms
    by (cases rule: ofo_exited_known [OF assms True, of normal at]) (auto simp: ofo_inv_def)
next
  case False
  then show ?thesis using assms ofo_exited_unknown [OF False] by (simp add: ofo_inv_def)
qed

lemma ofo_failed_ok:
  assumes "ofo_inv d"
  shows "ofo_inv (ofo_failed d k) \<and> map fst (ofo_states (ofo_failed d k)) = map fst (ofo_states d)
    \<and> live_addrs ofo_status (ofo_states (ofo_failed d k)) = live_addrs ofo_status (ofo_states d)"
proof (cases "find (\<lambda>(k', _). k' = k) (ofo_states d)")
  case None
  then show ?thesis using assms by (simp add: ofo_failed_def)
next
  case (Some c)
  then obtain s pre post where c: "c = (k, s)" "ofo_states d = pre @ (k, s) # post"
    "\<And>f. update_first (\<lambda>(k', _). k' = k) f (ofo_states d) = pre @ f (k, s) # post"
    by (auto elim!: update_first_split)
  then show ?thesis using assms Some
    by (cases "ofo_status s") (auto simp: ofo_failed_def ofo_inv_def)
qed

lemma ofo_quit_ok: "ofo_inv (ofo_quit d n) = ofo_inv d" "ofo_states (ofo_quit d n) = ofo_states d"
  by (simp_all add: ofo_inv_def ofo_quit_def)

section \<open>Properties\<close>

lemma ofo_next_action_total: "\<exists>a d'. ofo_next_action pick d = Some (a, d') \<and> ofo_next (ofo_retain d) a d'"
  using ofo_next_action_ok [OF ofo_retain_idem] ofo_next_action_retain by metis

text \<open>C29. The one-for-one decider always answers: its unreachable branch is not reached in any
  state. It first drops the removed children and the orphans; while starting or running it acts on
  the first child, in the order they were added, that is stopped and should run or runs and should
  not; while stopping it stops the last running child; it reports the end of the initialisation
  only when every child runs and quits only when every child is stopped; otherwise there is nothing
  to do and it changes nothing.\<close>

theorem ofo_next_action_refines:
  "\<exists>a d'. ofo_next_action pick d = Some (a, d') \<and> ofo_next (ofo_retain d) a d'"
  by (rule ofo_next_action_total)

text \<open>C31. While a one-for-one supervisor is stopping it never starts a child, it stops the children
  one by one from the last added to the first, and it quits, with the exit kind it was asked for,
  only once all of them are stopped.\<close>

theorem ofo_shutdown_order:
  assumes "ofo_sup d = SupStopping n" "ofo_next_action pick d = Some (Some act, d')"
  shows "(\<exists>o'. act = Stop o' None \<and> o' \<in> set (ofo_orphans d))
    \<or> (\<exists>pre k s post a. act = Stop a (Some k) \<and> ofo_states (ofo_retain d) = pre @ (k, s) # post
        \<and> ofo_status s = ChildRunning a \<and> (\<forall>c\<in>set post. \<not> is_running (ofo_status (snd c))))
    \<or> (act = Quit n \<and> ofo_sup d' = SupStopped
        \<and> (\<forall>c\<in>set (ofo_states d'). ofo_status (snd c) = ChildStopped))"
proof -
  have sup: "ofo_sup (ofo_retain d) = SupStopping n" "ofo_orphans (ofo_retain d) = ofo_orphans d"
    using assms(1) by (simp_all add: ofo_retain_def)
  have "ofo_next (ofo_retain d) (Some act) d'"
    using ofo_next_action_total [of pick d] assms(2) by auto
  then show ?thesis
  proof (cases rule: ofo_next.cases)
    case (next_shutdown n' pre k s post a)
    have "\<not> is_running (ofo_status (snd c))" if "c \<in> set post" for c
      using next_shutdown(6) that sup(1)
      by (cases c; cases "ofo_status (snd c)")
        (auto simp: ofo_settled_def settled_def ofo_goal_def ofo_stopping_def)
    then show ?thesis using next_shutdown by blast
  qed (use sup in auto)
qed

definition ofo_demo_child :: ofo_state where
  "ofo_demo_child = \<lparr>ofo_child_type = Transient, ofo_status = ChildRunning 11, ofo_target = TargetRunning\<rparr>"

definition ofo_demo :: "nat ofo" where
  "ofo_demo = \<lparr>ofo_intensity = \<lparr>max_restarts = 1, within = 10\<rparr>, ofo_stats = [],
     ofo_states = [
       (0, \<lparr>ofo_child_type = Permanent, ofo_status = ChildRunning 10, ofo_target = TargetRunning\<rparr>),
       (1, ofo_demo_child)],
     ofo_orphans = [], ofo_sup = SupRunning\<rparr>"

theorem ofo_shutdown_order_witness:
  "\<exists>act d'. ofo_next_action 0 (ofo_quit ofo_demo False) = Some (Some act, d')
    \<and> ((\<exists>o'. act = Stop o' None \<and> o' \<in> set (ofo_orphans (ofo_quit ofo_demo False)))
      \<or> (\<exists>pre k s post a. act = Stop a (Some k) \<and> ofo_states (ofo_retain (ofo_quit ofo_demo False)) = pre @ (k, s) # post
          \<and> ofo_status s = ChildRunning a \<and> (\<forall>c\<in>set post. \<not> is_running (ofo_status (snd c))))
      \<or> (act = Quit False \<and> ofo_sup d' = SupStopped
          \<and> (\<forall>c\<in>set (ofo_states d'). ofo_status (snd c) = ChildStopped)))"
proof -
  have sup: "ofo_sup (ofo_quit ofo_demo False) = SupStopping False" by (simp add: ofo_quit_def ofo_demo_def)
  have "\<exists>d'. ofo_next_action 0 (ofo_quit ofo_demo False) = Some (Some (Stop 11 (Some 1)), d')"
    by (simp add: ofo_next_action_def ofo_quit_def ofo_demo_def ofo_demo_child_def Let_def)
  then obtain d' where "ofo_next_action 0 (ofo_quit ofo_demo False) = Some (Some (Stop 11 (Some 1)), d')" by blast
  from this ofo_shutdown_order [OF sup this] show ?thesis by blast
qed

text \<open>C32. The exit of a running child of a one-for-one supervisor stops that child and no other. An
  exit its child type accepts (any exit of a temporary child, a normal one of a transient child)
  leaves it stopped for good and is not counted; any other exit leaves its target as it was and is
  counted, and the supervisor gives up exactly when the count exceeds the restart intensity.\<close>

theorem ofo_exit_policy:
  assumes "ofo_inv d" "(k, s) \<in> set (ofo_states d)" "ofo_status s = ChildRunning addr"
  shows "\<exists>d'. ofo_exited d addr normal at = Some d' \<and> ofo_inv d'
    \<and> child_of (ofo_states d') = (child_of (ofo_states d))(k \<mapsto> s\<lparr>ofo_status := ChildStopped,
        ofo_target := (if acceptable_exit (ofo_child_type s) normal then TargetStopped else ofo_target s)\<rparr>)
    \<and> (if acceptable_exit (ofo_child_type s) normal
       then ofo_sup d' = ofo_sup d \<and> ofo_stats d' = ofo_stats d
       else ofo_stats d' = snd (report_exit (ofo_intensity d) (ofo_stats d) at)
         \<and> ofo_sup d' = (if fst (report_exit (ofo_intensity d) (ofo_stats d) at)
             then ofo_sup d else SupStopping False))"
proof -
  have live: "addr \<in> set (live_addrs ofo_status (ofo_states d))"
    using assms(2,3) by (intro live_addrI) auto
  show ?thesis
  proof (cases rule: ofo_exited_known [OF assms(1) live, of normal at])
    case (1 pre k' s' post d')
    have "(k', s') = (k, s)"
    proof (rule ccontr)
      assume "(k', s') \<noteq> (k, s)"
      then have "(k, s) \<in> set pre \<or> (k, s) \<in> set post" using assms(2) 1(1) by auto
      then have "addr \<in> set (live_addrs ofo_status pre) \<or> addr \<in> set (live_addrs ofo_status post)"
        using assms(3) live_addrI [of k s _ ofo_status addr] by auto
      then show False using assms(1) 1(1,2) by (auto simp: ofo_inv_def)
    qed
    then have eq: "k' = k" "s' = s" by simp_all
    have "ofo_inv d'" using ofo_exited_ok [OF assms(1), of addr normal at] 1(3) by simp
    moreover have keys: "distinct (map fst (pre @ (k, s) # post))"
      using assms(1) 1(1) eq by (simp add: ofo_inv_def)
    moreover have "child_of (ofo_states d') = (child_of (ofo_states d))(k \<mapsto>
        s\<lparr>ofo_status := ChildStopped,
          ofo_target := (if acceptable_exit (ofo_child_type s) normal then TargetStopped else ofo_target s)\<rparr>)"
      unfolding 1(1) 1(4) eq by (subst child_of_update [OF keys]) (simp add: assms(3))
    moreover have "if acceptable_exit (ofo_child_type s) normal
       then ofo_sup d' = ofo_sup d \<and> ofo_stats d' = ofo_stats d
       else ofo_stats d' = snd (report_exit (ofo_intensity d) (ofo_stats d) at)
         \<and> ofo_sup d' = (if fst (report_exit (ofo_intensity d) (ofo_stats d) at)
             then ofo_sup d else SupStopping False)"
      using 1(5) assms(3) eq by (cases "acceptable_exit (ofo_child_type s) normal") simp_all
    ultimately show ?thesis using 1(3) by (intro exI [of _ d'] conjI)
  qed
qed

theorem ofo_exit_policy_witness:
  "\<exists>d'. ofo_exited ofo_demo 11 False 20 = Some d' \<and> ofo_inv d'
    \<and> child_of (ofo_states d') = (child_of (ofo_states ofo_demo))(1 \<mapsto> ofo_demo_child\<lparr>ofo_status := ChildStopped,
        ofo_target := (if acceptable_exit (ofo_child_type ofo_demo_child) False then TargetStopped
          else ofo_target ofo_demo_child)\<rparr>)
    \<and> (if acceptable_exit (ofo_child_type ofo_demo_child) False
       then ofo_sup d' = ofo_sup ofo_demo \<and> ofo_stats d' = ofo_stats ofo_demo
       else ofo_stats d' = snd (report_exit (ofo_intensity ofo_demo) (ofo_stats ofo_demo) 20)
         \<and> ofo_sup d' = (if fst (report_exit (ofo_intensity ofo_demo) (ofo_stats ofo_demo) 20)
             then ofo_sup ofo_demo else SupStopping False))"
  by (rule ofo_exit_policy) (simp_all add: ofo_demo_def ofo_demo_child_def ofo_inv_def)

text \<open>C30. Asking the one-for-one decider for actions until it has none ends: from any state in which
  its keys and its live addresses are distinct, after at most one action for each orphan and each
  child and one more, and then there is nothing left to do.\<close>

theorem ofo_actions_end:
  assumes "ofo_inv d" "length (ofo_orphans d) + length (ofo_states d) + 2 \<le> fuel"
  shows "\<exists>xs d'. ofo_drain fuel picks d = Some (xs, d') \<and> ofo_inv d' \<and> ofo_next d' None d'
    \<and> length xs \<le> length (ofo_orphans d) + length (ofo_states d) + 1"
proof -
  let ?d = "ofo_retain d"
  have "length (filter P (filter Q (ofo_states d))) \<le> length (ofo_states d)" for P Q
    by (meson length_filter_le order_trans)
  then have pending: "ofo_pending ?d \<le> length (ofo_orphans d) + length (ofo_states d) + 1"
    by (auto simp: ofo_pending_def ofo_retain_def le_SucI split: ofo_sup_status.splits)
  moreover have "ofo_drain fuel picks d = ofo_drain fuel picks ?d"
    by (cases fuel) (simp_all add: ofo_next_action_retain [of _ d, symmetric])
  moreover have "ofo_pending ?d < fuel" using pending assms(2) by linarith
  ultimately show ?thesis
    using ofo_drain_ok [OF ofo_retain_idem ofo_retain_inv [OF assms(1)], of fuel picks]
    by (auto intro: order_trans)
qed

theorem ofo_actions_end_witness:
  "\<exists>xs d'. ofo_drain 4 (\<lambda>_. 0) (ofo_quit ofo_demo True) = Some (xs, d') \<and> ofo_inv d' \<and> ofo_next d' None d'
    \<and> length xs \<le> length (ofo_orphans (ofo_quit ofo_demo True)) + length (ofo_states (ofo_quit ofo_demo True)) + 1"
  by (rule ofo_actions_end) (simp_all add: ofo_demo_def ofo_demo_child_def ofo_quit_def ofo_inv_def)

end
