(* ===== verification/All_For_One.thy ===== *)
theory All_For_One
  imports Sup_Common
begin

text \<open>
  The decider of the all-for-one strategy,
  \<^verbatim>\<open>components/mm1-sup/src/mixed/strategy/all_for_one.rs\<close>: one unacceptable exit stops all the
  children, in reverse order, and then starts them again.
\<close>

section \<open>State\<close>

datatype afo_target = AfoRunning | AfoStopped

datatype afo_sup_status = AfoSupStarting | AfoSupRunning | AfoSupRestarting | AfoSupStopping bool | AfoSupStopped

record afo_state =
  afo_child_type :: child_type
  afo_target :: afo_target
  afo_status :: child_status

record 'k afo =
  afo_intensity :: restart_intensity
  afo_stats :: restart_stats
  afo_sup :: afo_sup_status
  afo_states :: "('k \<times> afo_state) list"
  afo_orphans :: "address list"

definition afo_new :: "restart_intensity \<Rightarrow> 'k afo" where
  "afo_new ri = \<lparr>afo_intensity = ri, afo_stats = new_stats ri, afo_sup = AfoSupStarting,
     afo_states = [], afo_orphans = []\<rparr>"

section \<open>Operations\<close>

definition afo_address :: "'k afo \<Rightarrow> 'k \<Rightarrow> decider_error + address option" where
  "afo_address d key = (case find (\<lambda>(k, s). key = k) (afo_states d) of
     None \<Rightarrow> Inl KeyNotFound
   | Some (_, s) \<Rightarrow> Inr (status_address (afo_status s)))"

definition afo_add :: "'k afo \<Rightarrow> 'k \<Rightarrow> child_type \<Rightarrow> decider_error + 'k afo" where
  "afo_add d key ct =
     (if list_ex (\<lambda>(k, _). k = key) (afo_states d) then Inl DuplicateKey
      else Inr (d\<lparr>afo_states := afo_states d @
        [(key, \<lparr>afo_child_type = ct, afo_target = AfoRunning, afo_status = ChildStopped\<rparr>)]\<rparr>))"

definition afo_rm :: "'k afo \<Rightarrow> 'k \<Rightarrow> decider_error + 'k afo" where
  "afo_rm d key = Inl Unsupported"

definition afo_started :: "'k afo \<Rightarrow> 'k \<Rightarrow> address \<Rightarrow> 'k afo panics" where
  "afo_started d key addr =
     (if list_ex (\<lambda>(_, s). status_address (afo_status s) = Some addr) (afo_states d) then None
      else case find (\<lambda>(k, _). k = key) (afo_states d) of
        None \<Rightarrow> Some d
      | Some (_, s) \<Rightarrow> (case afo_status s of
          ChildStarting \<Rightarrow> Some (d\<lparr>afo_states := update_first (\<lambda>(k, _). k = key)
            (\<lambda>(k, s). (k, s\<lparr>afo_status := ChildRunning addr\<rparr>)) (afo_states d)\<rparr>)
        | _ \<Rightarrow> Some (d\<lparr>afo_orphans := List.insert addr (afo_orphans d)\<rparr>)))"

definition afo_exited :: "'k afo \<Rightarrow> address \<Rightarrow> bool \<Rightarrow> instant \<Rightarrow> 'k afo panics" where
  "afo_exited d addr normal_exit at =
     (let selected = (\<lambda>(_, s). status_address (afo_status s) = Some addr);
          put = (\<lambda>f. update_first selected (\<lambda>(k, s). (k, f s)) (afo_states d))
      in case find selected (afo_states d) of
        None \<Rightarrow> Some (d\<lparr>afo_sup := AfoSupStopping True\<rparr>)
      | Some (_, s) \<Rightarrow>
          (case (afo_status s, acceptable_exit (afo_child_type s) normal_exit) of
             (ChildTerminating address, _) \<Rightarrow>
               if address = addr then Some (d\<lparr>afo_states := put (afo_status_update (\<lambda>_. ChildStopped))\<rparr>)
               else None
           | (ChildRunning address, True) \<Rightarrow>
               if address = addr then Some (d\<lparr>afo_states :=
                 put (\<lambda>s. s\<lparr>afo_status := ChildStopped, afo_target := AfoStopped\<rparr>)\<rparr>)
               else None
           | (ChildRunning address, False) \<Rightarrow>
               if address = addr then
                 let (ok, stats) = report_exit (afo_intensity d) (afo_stats d) at
                 in Some (d\<lparr>afo_stats := stats,
                      afo_sup := (if ok then AfoSupRestarting else AfoSupStopping False),
                      afo_states := put (afo_status_update (\<lambda>_. ChildStopped))\<rparr>)
               else None
           | _ \<Rightarrow> None))"

definition afo_failed :: "'k afo \<Rightarrow> 'k \<Rightarrow> 'k afo" where
  "afo_failed d key = (case find (\<lambda>(k, _). k = key) (afo_states d) of
     None \<Rightarrow> d
   | Some _ \<Rightarrow> d\<lparr>afo_states := update_first (\<lambda>(k, _). k = key)
       (\<lambda>(k, s). (k, case afo_status s of
          ChildStarting \<Rightarrow> s\<lparr>afo_status := ChildStopped\<rparr>
        | _ \<Rightarrow> s\<lparr>afo_target := AfoStopped\<rparr>)) (afo_states d),
       afo_sup := AfoSupStopping False\<rparr>)"

definition afo_quit :: "'k afo \<Rightarrow> bool \<Rightarrow> 'k afo" where
  "afo_quit d normal_exit = d\<lparr>afo_sup := (case afo_sup d of
     AfoSupStopped \<Rightarrow> AfoSupStopped
   | AfoSupStopping existing \<Rightarrow> AfoSupStopping (normal_exit \<and> existing)
   | AfoSupStarting \<Rightarrow> AfoSupStopping normal_exit
   | AfoSupRestarting \<Rightarrow> AfoSupStopping normal_exit
   | AfoSupRunning \<Rightarrow> AfoSupStopping normal_exit)\<rparr>"

fun afo_scan :: "bool \<Rightarrow> bool \<Rightarrow> bool \<Rightarrow> ('k \<times> afo_state) list \<Rightarrow> ('k, afo_state) scan" where
  "afo_scan down stopped started [] = Scanned started stopped"
| "afo_scan down stopped started ((key, state) # rest) =
     (let status = afo_status state;
          target = (if down then AfoStopped else afo_target state);
          stopped' = (stopped \<and> status = ChildStopped);
          started' = (started \<and> is_running status);
          continue = scan_cons (key, state) (afo_scan down stopped' started' rest)
      in case (status, target) of
           (ChildStarting, _) \<Rightarrow> continue
         | (ChildTerminating _, _) \<Rightarrow> continue
         | (ChildRunning _, AfoRunning) \<Rightarrow> continue
         | (ChildStopped, AfoStopped) \<Rightarrow> continue
         | (ChildStopped, AfoRunning) \<Rightarrow>
             Act (Start key) ((key, state\<lparr>afo_status := ChildStarting\<rparr>) # rest)
         | (ChildRunning a, AfoStopped) \<Rightarrow>
             Act (Stop a (Some key)) ((key, state\<lparr>afo_status := ChildTerminating a\<rparr>) # rest))"

fun afo_down :: "afo_sup_status \<Rightarrow> bool" where
  "afo_down (AfoSupStopping _) = True"
| "afo_down AfoSupRestarting = True"
| "afo_down _ = False"

definition afo_next_action :: "nat \<Rightarrow> 'k afo \<Rightarrow> 'k action option \<times> 'k afo" where
  "afo_next_action pick d =
     (if afo_orphans d \<noteq> [] then
        let address = afo_orphans d ! (pick mod length (afo_orphans d))
        in (Some (Stop address None), d\<lparr>afo_orphans := remove1 address (afo_orphans d)\<rparr>)
      else
        let result = (if afo_sup d = AfoSupStopped then Scanned True True
              else if afo_down (afo_sup d) then afo_scan True True True (rev (afo_states d))
              else afo_scan False True True (afo_states d))
        in case result of
           Act a states \<Rightarrow> (Some a, d\<lparr>afo_states := (if afo_down (afo_sup d) then rev states else states)\<rparr>)
         | Scanned all_started all_stopped \<Rightarrow>
             (case afo_sup d of
                AfoSupRunning \<Rightarrow> (None, d)
              | AfoSupStopped \<Rightarrow> (None, d)
              | AfoSupStarting \<Rightarrow>
                  if all_started then (Some InitDone, d\<lparr>afo_sup := AfoSupRunning\<rparr>) else (None, d)
              | AfoSupRestarting \<Rightarrow>
                  if all_stopped then (Some Noop, d\<lparr>afo_sup := AfoSupRunning\<rparr>) else (None, d)
              | AfoSupStopping normal_exit \<Rightarrow>
                  if all_stopped then (Some (Quit normal_exit), d\<lparr>afo_sup := AfoSupStopped\<rparr>)
                  else (None, d)))"

section \<open>The walk over the children\<close>

definition afo_goal :: "bool \<Rightarrow> afo_state \<Rightarrow> bool" where
  "afo_goal down s \<longleftrightarrow> \<not> down \<and> afo_target s = AfoRunning"

abbreviation afo_put :: "child_status \<Rightarrow> afo_state \<Rightarrow> afo_state" where
  "afo_put x s \<equiv> s\<lparr>afo_status := x\<rparr>"

lemma afo_scan_with:
  "afo_scan down stopped started cs = scan_with afo_status afo_put (afo_goal down) started stopped cs"
proof (induction cs arbitrary: started stopped)
  case (Cons c cs)
  then show ?case
    by (cases c; cases "afo_status (snd c)"; cases "afo_target (snd c)") (auto simp: afo_goal_def Let_def)
qed simp

definition afo_settled :: "'k afo \<Rightarrow> 'k \<times> afo_state \<Rightarrow> bool" where
  "afo_settled d = settled afo_status (afo_goal (afo_down (afo_sup d)))"

text \<open>The outcomes of \<^const>\<open>afo_next_action\<close>, one rule for each.\<close>

inductive afo_next :: "'k afo \<Rightarrow> 'k action option \<Rightarrow> 'k afo \<Rightarrow> bool" where
  afo_orphan: "a \<in> set (afo_orphans d) \<Longrightarrow>
    afo_next d (Some (Stop a None)) (d\<lparr>afo_orphans := remove1 a (afo_orphans d)\<rparr>)"
| afo_start: "afo_orphans d = [] \<Longrightarrow> afo_sup d = AfoSupStarting \<or> afo_sup d = AfoSupRunning \<Longrightarrow>
    afo_states d = pre @ (k, s) # post \<Longrightarrow> \<forall>c\<in>set pre. afo_settled d c \<Longrightarrow>
    afo_status s = ChildStopped \<Longrightarrow> afo_target s = AfoRunning \<Longrightarrow>
    afo_next d (Some (Start k)) (d\<lparr>afo_states := pre @ (k, s\<lparr>afo_status := ChildStarting\<rparr>) # post\<rparr>)"
| afo_stop: "afo_orphans d = [] \<Longrightarrow> afo_sup d = AfoSupStarting \<or> afo_sup d = AfoSupRunning \<Longrightarrow>
    afo_states d = pre @ (k, s) # post \<Longrightarrow> \<forall>c\<in>set pre. afo_settled d c \<Longrightarrow>
    afo_status s = ChildRunning a \<Longrightarrow> afo_target s = AfoStopped \<Longrightarrow>
    afo_next d (Some (Stop a (Some k))) (d\<lparr>afo_states := pre @ (k, s\<lparr>afo_status := ChildTerminating a\<rparr>) # post\<rparr>)"
| afo_shutdown: "afo_orphans d = [] \<Longrightarrow> afo_down (afo_sup d) \<Longrightarrow>
    afo_states d = pre @ (k, s) # post \<Longrightarrow> \<forall>c\<in>set post. \<not> is_running (afo_status (snd c)) \<Longrightarrow>
    afo_status s = ChildRunning a \<Longrightarrow>
    afo_next d (Some (Stop a (Some k))) (d\<lparr>afo_states := pre @ (k, s\<lparr>afo_status := ChildTerminating a\<rparr>) # post\<rparr>)"
| afo_init_done: "afo_orphans d = [] \<Longrightarrow> afo_sup d = AfoSupStarting \<Longrightarrow>
    \<forall>c\<in>set (afo_states d). is_running (afo_status (snd c)) \<and> afo_target (snd c) = AfoRunning \<Longrightarrow>
    afo_next d (Some InitDone) (d\<lparr>afo_sup := AfoSupRunning\<rparr>)"
| afo_restarted: "afo_orphans d = [] \<Longrightarrow> afo_sup d = AfoSupRestarting \<Longrightarrow>
    \<forall>c\<in>set (afo_states d). afo_status (snd c) = ChildStopped \<Longrightarrow>
    afo_next d (Some Noop) (d\<lparr>afo_sup := AfoSupRunning\<rparr>)"
| afo_quits: "afo_orphans d = [] \<Longrightarrow> afo_sup d = AfoSupStopping n \<Longrightarrow>
    \<forall>c\<in>set (afo_states d). afo_status (snd c) = ChildStopped \<Longrightarrow>
    afo_next d (Some (Quit n)) (d\<lparr>afo_sup := AfoSupStopped\<rparr>)"
| afo_none: "afo_orphans d = [] \<Longrightarrow> afo_sup d = AfoSupStopped \<or> (\<forall>c\<in>set (afo_states d). afo_settled d c) \<Longrightarrow>
    afo_sup d = AfoSupStarting \<longrightarrow> (\<exists>c\<in>set (afo_states d). \<not> is_running (afo_status (snd c))) \<Longrightarrow>
    afo_down (afo_sup d) \<longrightarrow> (\<exists>c\<in>set (afo_states d). afo_status (snd c) \<noteq> ChildStopped) \<Longrightarrow>
    afo_next d None d"

lemma settled_down_not_running:
  "settled afo_status (afo_goal True) c \<Longrightarrow> \<not> is_running (afo_status (snd c))"
  by (cases c; cases "afo_status (snd c)") (auto simp: settled_def afo_goal_def)

lemma afo_next_up:
  assumes "afo_orphans d = []" "afo_sup d = AfoSupStarting \<or> afo_sup d = AfoSupRunning"
  shows "afo_next d (fst (afo_next_action pick d)) (snd (afo_next_action pick d))"
proof -
  have down: "\<not> afo_down (afo_sup d)" "afo_sup d \<noteq> AfoSupStopped" using assms(2) by auto
  have goal: "afo_goal False = (\<lambda>s. afo_target s = AfoRunning)" by (simp add: afo_goal_def fun_eq_iff)
  have settled: "afo_settled d = settled afo_status (afo_goal False)"
    using down by (simp add: afo_settled_def)
  note simps = afo_next_action_def afo_scan_with Let_def
  show ?thesis
  proof (cases rule: scan_with_cases [of "afo_states d" afo_status "afo_goal False" afo_put True True])
    case scanned
    have run: "afo_target (snd c) = AfoRunning"
      if "c \<in> set (afo_states d)" "is_running (afo_status (snd c))" for c
      using scanned(1) that by (cases c; cases "afo_status (snd c)") (auto simp: settled_def goal)
    have init: "afo_next d (Some InitDone) (d\<lparr>afo_sup := AfoSupRunning\<rparr>)"
      if "afo_sup d = AfoSupStarting" "\<forall>c\<in>set (afo_states d). is_running (afo_status (snd c))"
      using that run by (intro afo_init_done [OF assms(1)]) blast+
    have none: "afo_next d None d"
      if "afo_sup d = AfoSupStarting \<longrightarrow> (\<exists>c\<in>set (afo_states d). \<not> is_running (afo_status (snd c)))"
      using that scanned(1) down by (intro afo_none [OF assms(1)]) (auto simp: settled)
    show ?thesis
    proof (cases "afo_sup d = AfoSupStarting \<and> (\<forall>c\<in>set (afo_states d). is_running (afo_status (snd c)))")
      case True
      then show ?thesis using assms(1) down scanned(2) init by (simp add: simps)
    next
      case False
      then have "afo_next_action pick d = (None, d)" using assms down scanned(2) by (auto simp: simps)
      moreover have "afo_next d None d" by (rule none) (use False in blast)
      ultimately show ?thesis by simp
    qed
  next
    case (start pre k s post)
    then have "afo_next d (Some (Start k)) (d\<lparr>afo_states := pre @ (k, s\<lparr>afo_status := ChildStarting\<rparr>) # post\<rparr>)"
      using assms by (intro afo_start) (auto simp: settled goal)
    then show ?thesis using assms down start(5) by (simp add: simps)
  next
    case (stop pre k s a post)
    have "afo_target s = AfoStopped" using stop(4) by (cases "afo_target s") (auto simp: goal)
    then have "afo_next d (Some (Stop a (Some k)))
      (d\<lparr>afo_states := pre @ (k, s\<lparr>afo_status := ChildTerminating a\<rparr>) # post\<rparr>)"
      using assms stop by (intro afo_stop) (auto simp: settled)
    then show ?thesis using assms down stop(5) by (simp add: simps)
  qed
qed

lemma afo_next_down:
  assumes "afo_orphans d = []" "afo_down (afo_sup d)"
  shows "afo_next d (fst (afo_next_action pick d)) (snd (afo_next_action pick d))"
proof -
  have up: "afo_sup d \<noteq> AfoSupStopped" using assms(2) by auto
  have settled: "afo_settled d = settled afo_status (afo_goal True)" using assms(2) by (simp add: afo_settled_def)
  note simps = afo_next_action_def afo_scan_with Let_def
  show ?thesis
  proof (cases rule: scan_with_cases [of "rev (afo_states d)" afo_status "afo_goal True" afo_put True True])
    case scanned
    show ?thesis
    proof (cases "\<forall>c\<in>set (afo_states d). afo_status (snd c) = ChildStopped")
      case True
      then show ?thesis
        using assms scanned(2) afo_restarted [OF assms(1)] afo_quits [OF assms(1)]
        by (cases "afo_sup d") (auto simp: simps)
    next
      case False
      then have "afo_next d None d"
        using scanned(1) assms by (intro afo_none) (auto simp: settled)
      moreover have "afo_next_action pick d = (None, d)"
        using assms scanned(2) False by (cases "afo_sup d") (auto simp: simps)
      ultimately show ?thesis by simp
    qed
  next
    case (start pre k s post)
    then show ?thesis by (simp add: afo_goal_def)
  next
    case (stop pre k s a post)
    have states: "afo_states d = rev post @ (k, s) # rev pre" using arg_cong [OF stop(1), of rev] by simp
    have "\<forall>c\<in>set (rev pre). \<not> is_running (afo_status (snd c))"
      using stop(2) settled_down_not_running unfolding set_rev by blast
    from afo_shutdown [OF assms states this stop(3)] show ?thesis
      using stop(5) assms up by (simp add: simps)
  qed
qed

lemma afo_next_action_total:
  "afo_next d (fst (afo_next_action pick d)) (snd (afo_next_action pick d))"
proof (cases "afo_orphans d = []")
  case True
  show ?thesis
  proof (cases "afo_sup d")
    case AfoSupStopped
    have "afo_next d None d" using True AfoSupStopped by (intro afo_none) auto
    then show ?thesis using True AfoSupStopped by (simp add: afo_next_action_def)
  qed (simp_all add: afo_next_up [OF True] afo_next_down [OF True])
next
  case False
  then have "afo_orphans d ! (pick mod length (afo_orphans d)) \<in> set (afo_orphans d)" by simp
  from afo_orphan [OF this] show ?thesis using False by (simp add: afo_next_action_def Let_def)
qed

section \<open>Invariant\<close>

definition afo_inv :: "'k afo \<Rightarrow> bool" where
  "afo_inv d \<longleftrightarrow> distinct (map fst (afo_states d)) \<and> distinct (live_addrs afo_status (afo_states d))"

lemma afo_new_inv: "afo_inv (afo_new ri)"
  by (simp add: afo_inv_def afo_new_def)

lemma afo_add_inv:
  assumes "afo_inv d" "afo_add d k ct = Inr d'"
  shows "afo_inv d' \<and> map fst (afo_states d') = map fst (afo_states d) @ [k]"
  using assms by (auto simp: afo_inv_def afo_add_def list_ex_iff split: if_splits) fastforce

lemma afo_update_inv:
  assumes "afo_inv d" "afo_states d = pre @ (k, s) # post" "afo_states d' = pre @ (k, s') # post"
    and "status_address (afo_status s') = status_address (afo_status s)
      \<or> status_address (afo_status s') = None
      \<or> (\<exists>a. status_address (afo_status s') = Some a \<and> a \<notin> set (live_addrs afo_status (afo_states d)))"
  shows "afo_inv d'"
  using assms by (auto simp: afo_inv_def split: option.splits)

lemma afo_next_inv:
  assumes "afo_next d a d'" "afo_inv d"
  shows "afo_inv d' \<and> map fst (afo_states d') = map fst (afo_states d)"
  using assms
proof (cases rule: afo_next.cases)
  case (afo_start pre k s post)
  then show ?thesis using assms(2) afo_update_inv [OF assms(2) afo_start(5), of d'] by simp
next
  case (afo_stop pre k s post a)
  then show ?thesis using assms(2) afo_update_inv [OF assms(2) afo_stop(5), of d'] by simp
next
  case (afo_shutdown pre k s post a)
  then show ?thesis using assms(2) afo_update_inv [OF assms(2) afo_shutdown(5), of d'] by simp
qed (auto simp: afo_inv_def)

lemma afo_started_ok:
  assumes "afo_inv d" "addr \<notin> set (live_addrs afo_status (afo_states d))"
  shows "\<exists>d'. afo_started d k addr = Some d' \<and> afo_inv d' \<and> map fst (afo_states d') = map fst (afo_states d)"
proof -
  have fresh: "\<not> list_ex (\<lambda>(_, s). status_address (afo_status s) = Some addr) (afo_states d)"
    using assms(2) by (auto simp: set_live_addrs list_ex_iff)
  show ?thesis
  proof (cases "find (\<lambda>(k', _). k' = k) (afo_states d)")
    case None
    then show ?thesis using fresh assms(1) by (simp add: afo_started_def)
  next
    case (Some c)
    then obtain s pre post where c: "c = (k, s)" "afo_states d = pre @ (k, s) # post"
      "\<And>f. update_first (\<lambda>(k', _). k' = k) f (afo_states d) = pre @ f (k, s) # post"
      by (auto elim!: update_first_split)
    show ?thesis
    proof (cases "afo_status s")
      case ChildStarting
      let ?d = "d\<lparr>afo_states := pre @ (k, s\<lparr>afo_status := ChildRunning addr\<rparr>) # post\<rparr>"
      have "afo_inv ?d" using afo_update_inv [OF assms(1) c(2), of ?d] assms(2) by simp
      then show ?thesis using fresh Some c ChildStarting by (simp add: afo_started_def)
    qed (use fresh Some c assms(1) in \<open>auto simp: afo_started_def afo_inv_def\<close>)
  qed
qed

lemma afo_exited_unknown:
  assumes "addr \<notin> set (live_addrs afo_status (afo_states d))"
  shows "afo_exited d addr normal at = Some (d\<lparr>afo_sup := AfoSupStopping True\<rparr>)"
proof -
  have "find (\<lambda>(_, s). status_address (afo_status s) = Some addr) (afo_states d) = None"
    using assms by (auto simp: set_live_addrs find_None_iff)
  then show ?thesis by (simp add: afo_exited_def)
qed

lemma afo_exited_known:
  assumes "afo_inv d" "addr \<in> set (live_addrs afo_status (afo_states d))"
  obtains pre k s post d' where "afo_states d = pre @ (k, s) # post" "status_address (afo_status s) = Some addr"
    "afo_exited d addr normal at = Some d'"
    "afo_states d' = pre @ (k, s\<lparr>afo_status := ChildStopped,
      afo_target := (if is_running (afo_status s) \<and> acceptable_exit (afo_child_type s) normal
        then AfoStopped else afo_target s)\<rparr>) # post"
    "(afo_sup d', afo_stats d') =
      (if is_running (afo_status s) \<and> \<not> acceptable_exit (afo_child_type s) normal
       then (if fst (report_exit (afo_intensity d) (afo_stats d) at) then AfoSupRestarting else AfoSupStopping False,
         snd (report_exit (afo_intensity d) (afo_stats d) at))
       else (afo_sup d, afo_stats d))"
    "afo_orphans d' = afo_orphans d" "afo_intensity d' = afo_intensity d"
proof -
  let ?P = "\<lambda>(_, s). status_address (afo_status s) = Some addr"
  obtain k s where found: "find ?P (afo_states d) = Some (k, s)"
    using assms(2) by (cases "find ?P (afo_states d)") (auto simp: set_live_addrs find_None_iff)
  obtain pre post where split: "afo_states d = pre @ (k, s) # post" "?P (k, s)"
    "\<And>f. update_first ?P f (afo_states d) = pre @ f (k, s) # post"
    by (rule update_first_split [OF found]) (rule that; assumption)
  then have addr: "status_address (afo_status s) = Some addr" by simp
  note simps = afo_exited_def found split(3) Let_def split_beta
  have ex: "\<exists>d'. afo_exited d addr normal at = Some d' \<and> afo_states d' = pre @ (k, s\<lparr>afo_status := ChildStopped,
      afo_target := (if is_running (afo_status s) \<and> acceptable_exit (afo_child_type s) normal
        then AfoStopped else afo_target s)\<rparr>) # post
    \<and> (afo_sup d', afo_stats d') =
      (if is_running (afo_status s) \<and> \<not> acceptable_exit (afo_child_type s) normal
       then (if fst (report_exit (afo_intensity d) (afo_stats d) at) then AfoSupRestarting else AfoSupStopping False,
         snd (report_exit (afo_intensity d) (afo_stats d) at))
       else (afo_sup d, afo_stats d))
    \<and> afo_orphans d' = afo_orphans d \<and> afo_intensity d' = afo_intensity d"
  proof (cases "afo_status s")
    case (ChildRunning a)
    then show ?thesis using addr by (cases "acceptable_exit (afo_child_type s) normal") (auto simp: simps)
  next
    case (ChildTerminating a)
    then show ?thesis using addr by (auto simp: simps)
  qed (use addr in auto)
  then show thesis using that [OF split(1) addr] by blast
qed

lemma afo_exited_ok:
  assumes "afo_inv d"
  shows "\<exists>d'. afo_exited d addr normal at = Some d' \<and> afo_inv d'
    \<and> map fst (afo_states d') = map fst (afo_states d) \<and> addr \<notin> set (live_addrs afo_status (afo_states d'))"
proof (cases "addr \<in> set (live_addrs afo_status (afo_states d))")
  case True
  then show ?thesis using assms
    by (cases rule: afo_exited_known [OF assms True, of normal at]) (auto simp: afo_inv_def)
next
  case False
  then show ?thesis using assms afo_exited_unknown [OF False] by (simp add: afo_inv_def)
qed

lemma afo_failed_ok:
  assumes "afo_inv d"
  shows "afo_inv (afo_failed d k) \<and> map fst (afo_states (afo_failed d k)) = map fst (afo_states d)
    \<and> live_addrs afo_status (afo_states (afo_failed d k)) = live_addrs afo_status (afo_states d)"
proof (cases "find (\<lambda>(k', _). k' = k) (afo_states d)")
  case None
  then show ?thesis using assms by (simp add: afo_failed_def)
next
  case (Some c)
  then obtain s pre post where c: "c = (k, s)" "afo_states d = pre @ (k, s) # post"
    "\<And>f. update_first (\<lambda>(k', _). k' = k) f (afo_states d) = pre @ f (k, s) # post"
    by (auto elim!: update_first_split)
  then show ?thesis using assms Some
    by (cases "afo_status s") (auto simp: afo_failed_def afo_inv_def)
qed

lemma afo_quit_ok: "afo_inv (afo_quit d n) = afo_inv d" "afo_states (afo_quit d n) = afo_states d"
  by (simp_all add: afo_inv_def afo_quit_def)

section \<open>Properties\<close>

text \<open>C33. The all-for-one decider first stops the orphans; while starting or running it acts on the
  first child, in the order they were added, that is stopped and should run or runs and should not;
  while restarting or stopping it never starts a child and stops the last running one; it ends a
  restart or quits only when every child is stopped, and reports the end of the initialisation only
  when every child runs; otherwise it changes nothing.\<close>

theorem afo_next_action_refines:
  "afo_next d (fst (afo_next_action pick d)) (snd (afo_next_action pick d))"
  by (rule afo_next_action_total)

text \<open>A child that exits in a way its type does not accept while the all-for-one supervisor is
  shutting down turns the shutdown into a restart, as long as the restart intensity is not
  exceeded: the request to stop is forgotten and the group is started again.\<close>

theorem afo_crash_cancels_shutdown:
  assumes "afo_inv d" "afo_sup d = AfoSupStopping n"
    "(k, s) \<in> set (afo_states d)" "afo_status s = ChildRunning addr"
    "\<not> acceptable_exit (afo_child_type s) normal" "fst (report_exit (afo_intensity d) (afo_stats d) at)"
  shows "\<exists>d'. afo_exited d addr normal at = Some d' \<and> afo_sup d' = AfoSupRestarting"
proof -
  have live: "addr \<in> set (live_addrs afo_status (afo_states d))"
    using assms(3,4) by (intro live_addrI) auto
  show ?thesis
  proof (cases rule: afo_exited_known [OF assms(1) live, of normal at])
    case (1 pre k' s' post d')
    have "(k', s') = (k, s)"
    proof (rule ccontr)
      assume "(k', s') \<noteq> (k, s)"
      then have "(k, s) \<in> set pre \<or> (k, s) \<in> set post" using assms(3) 1(1) by auto
      then have "addr \<in> set (live_addrs afo_status pre) \<or> addr \<in> set (live_addrs afo_status post)"
        using assms(4) live_addrI [of k s _ afo_status addr] by auto
      then show False using assms(1) 1(1,2) by (auto simp: afo_inv_def)
    qed
    then show ?thesis using 1(3,5) assms(4-6) by simp
  qed
qed

definition afo_demo_child :: "address \<Rightarrow> afo_state" where
  "afo_demo_child a = \<lparr>afo_child_type = Permanent, afo_target = AfoRunning, afo_status = ChildRunning a\<rparr>"

definition afo_demo :: "nat afo" where
  "afo_demo = \<lparr>afo_intensity = \<lparr>max_restarts = 1, within = 10\<rparr>, afo_stats = [], afo_sup = AfoSupRunning,
     afo_states = [(0, afo_demo_child 10), (1, afo_demo_child 11)], afo_orphans = []\<rparr>"

theorem afo_crash_cancels_shutdown_witness:
  "\<exists>d'. afo_exited (afo_quit afo_demo True) 10 False 20 = Some d' \<and> afo_sup d' = AfoSupRestarting"
  by (rule afo_crash_cancels_shutdown [of _ True 0 "afo_demo_child 10"])
    (simp_all add: afo_demo_def afo_demo_child_def afo_quit_def afo_inv_def acceptable_exit_def
      report_exit_def instant_checked_sub_def)

end
