(* ===== verification/Proto.thy ===== *)
theory Proto
  imports Address
begin

text \<open>
  Message headers of the request-response protocol, \<^verbatim>\<open>protocols/mm1-proto-ask/src/lib.rs\<close>.
\<close>

record request_header =
  req_id :: u64
  req_reply_to :: address

record response_header =
  resp_id :: u64

end
