(* ===== verification/Mixed_Sup.thy ===== *)
theory Mixed_Sup
  imports One_For_One All_For_One Proto
begin

text \<open>
  The supervisor actor over either strategy, \<^verbatim>\<open>components/mm1-sup/src/mixed/sup_actor.rs\<close> with
  \<^verbatim>\<open>spec_builder.rs\<close> and \<^verbatim>\<open>sup_child.rs\<close>. The \<^verbatim>\<open>Decider\<close> trait is the record of its
  operations. What the actor does to its context is a list of effects; what the context answers,
  whether a fork succeeds, the message received and the clock, is an argument of a turn.
\<close>

section \<open>Child specifications\<close>

datatype init_type = NoAck | WithAck duration

record ('f, 't) child_spec =
  spec_launcher :: 'f
  spec_child_type :: 't
  spec_init_type :: init_type
  spec_stop_timeout :: duration
  spec_announce_parent :: bool

definition spec_new :: "duration \<Rightarrow> 'f \<Rightarrow> ('f, unit) child_spec" where
  "spec_new one_second f = \<lparr>spec_launcher = f, spec_child_type = (), spec_init_type = NoAck,
     spec_stop_timeout = one_second, spec_announce_parent = False\<rparr>"

definition with_child_type :: "('f, 't) child_spec \<Rightarrow> 't1 \<Rightarrow> ('f, 't1) child_spec" where
  "with_child_type s t = \<lparr>spec_launcher = spec_launcher s, spec_child_type = t,
     spec_init_type = spec_init_type s, spec_stop_timeout = spec_stop_timeout s,
     spec_announce_parent = spec_announce_parent s\<rparr>"

definition with_init_type :: "('f, 't) child_spec \<Rightarrow> init_type \<Rightarrow> ('f, 't) child_spec" where
  "with_init_type s i = s\<lparr>spec_init_type := i\<rparr>"

definition with_stop_timeout :: "('f, 't) child_spec \<Rightarrow> duration \<Rightarrow> ('f, 't) child_spec" where
  "with_stop_timeout s t = s\<lparr>spec_stop_timeout := t\<rparr>"

definition with_announce_parent :: "('f, 't) child_spec \<Rightarrow> bool \<Rightarrow> ('f, 't) child_spec" where
  "with_announce_parent s b = s\<lparr>spec_announce_parent := b\<rparr>"

definition map_launcher :: "('f \<Rightarrow> 'g) \<Rightarrow> ('f, 't) child_spec \<Rightarrow> ('g, 't) child_spec" where
  "map_launcher f s = \<lparr>spec_launcher = f (spec_launcher s), spec_child_type = spec_child_type s,
     spec_init_type = spec_init_type s, spec_stop_timeout = spec_stop_timeout s,
     spec_announce_parent = spec_announce_parent s\<rparr>"

text \<open>The children of a supervisor are nested pairs, appended on the right.\<close>

datatype ('k, 'f) spec_tree =
    SpecUnit
  | SpecKV 'k "('f, child_type) child_spec"
  | SpecPair "('k, 'f) spec_tree" "('k, 'f) spec_tree"


fun collect_into :: "('k, 'f) spec_tree \<Rightarrow> ('k \<times> ('f, child_type) child_spec) list
    \<Rightarrow> ('k \<times> ('f, child_type) child_spec) list" where
  "collect_into SpecUnit into = into"
| "collect_into (SpecKV k s) into = into @ [(k, s)]"
| "collect_into (SpecPair le ri) into = collect_into ri (collect_into le into)"

section \<open>The decider interface\<close>

record ('d, 'k) decider_ops =
  dec_add :: "'d \<Rightarrow> 'k \<Rightarrow> child_type \<Rightarrow> decider_error + 'd"
  dec_started :: "'d \<Rightarrow> 'k \<Rightarrow> address \<Rightarrow> 'd panics"
  dec_exited :: "'d \<Rightarrow> address \<Rightarrow> bool \<Rightarrow> instant \<Rightarrow> 'd panics"
  dec_failed :: "'d \<Rightarrow> 'k \<Rightarrow> 'd"
  dec_quit :: "'d \<Rightarrow> bool \<Rightarrow> 'd"
  dec_address :: "'d \<Rightarrow> 'k \<Rightarrow> decider_error + address option"
  dec_next :: "nat \<Rightarrow> 'd \<Rightarrow> ('k action option \<times> 'd) panics"

definition one_for_one :: "('k ofo, 'k) decider_ops" where
  "one_for_one = \<lparr>dec_add = ofo_add, dec_started = ofo_started, dec_exited = ofo_exited,
     dec_failed = ofo_failed, dec_quit = ofo_quit, dec_address = ofo_address, dec_next = ofo_next_action\<rparr>"

definition all_for_one :: "('k afo, 'k) decider_ops" where
  "all_for_one = \<lparr>dec_add = afo_add, dec_started = afo_started, dec_exited = afo_exited,
     dec_failed = afo_failed, dec_quit = afo_quit, dec_address = afo_address,
     dec_next = (\<lambda>pick d. Some (afo_next_action pick d))\<rparr>"

section \<open>The actor\<close>

datatype mixed_sup_error = Escalated | DeciderFailed decider_error | RecvFailed | ForkFailed

datatype 'k sup_msg =
    SupStarted 'k address
  | SupStartFailed 'k
  | SupStopFailed address
  | SupGetChild request_header 'k
  | SupExited address bool
  | SupUnexpected

datatype ('k, 'f) sup_effect =
    EffSetTrapExit bool
  | EffInitDone address
  | EffQuitOk
  | EffQuitErr mixed_sup_error
  | EffRunChild 'k "('f, child_type) child_spec"
  | EffShutdown address duration
  | EffLink address
  | EffReply request_header "unit + address option"

datatype 'd flow = Continue 'd | Quits | Returns mixed_sup_error

record 'k sup_env =
  env_pick :: nat
  env_fork_ok :: bool
  env_recv :: "'k sup_msg option"
  env_now :: instant

fun init_children :: "('d, 'k) decider_ops \<Rightarrow> 'd \<Rightarrow> ('k \<times> ('f, child_type) child_spec) list
    \<Rightarrow> decider_error + 'd" where
  "init_children ops d [] = Inr d"
| "init_children ops d ((k, spec) # rest) = (case dec_add ops d k (spec_child_type spec) of
     Inl e \<Rightarrow> Inl e
   | Inr d' \<Rightarrow> init_children ops d' rest)"

definition do_init_children :: "('d, 'k) decider_ops \<Rightarrow> 'd \<Rightarrow> ('k, 'f) spec_tree
    \<Rightarrow> mixed_sup_error + ('d \<times> ('k \<rightharpoonup> ('f, child_type) child_spec))" where
  "do_init_children ops d children = (let flat = collect_into children [] in
     case init_children ops d flat of
       Inl e \<Rightarrow> Inl (DeciderFailed e)
     | Inr d' \<Rightarrow> Inr (d', map_of (rev flat)))"

fun sup_action :: "address \<Rightarrow> ('k \<rightharpoonup> ('f, child_type) child_spec) \<Rightarrow> bool \<Rightarrow> 'd \<Rightarrow> 'k action option
    \<Rightarrow> ('d flow \<times> ('k, 'f) sup_effect list) panics" where
  "sup_action self children fork_ok d None = Some (Continue d, [])"
| "sup_action self children fork_ok d (Some Noop) = Some (Continue d, [])"
| "sup_action self children fork_ok d (Some InitDone) = Some (Continue d, [EffInitDone self])"
| "sup_action self children fork_ok d (Some (Quit normal_exit)) =
     Some (Quits, [if normal_exit then EffQuitOk else EffQuitErr Escalated])"
| "sup_action self children fork_ok d (Some (Start child_id)) = do {
     spec \<leftarrow> children child_id;
     if fork_ok then Some (Continue d, [EffRunChild child_id spec]) else Some (Returns ForkFailed, [])
   }"
| "sup_action self children fork_ok d (Some (Stop addr child_id)) = do {
     stop_timeout \<leftarrow> (case child_id of None \<Rightarrow> Some 0 | Some i \<Rightarrow> map_option spec_stop_timeout (children i));
     if fork_ok then Some (Continue d, [EffShutdown addr stop_timeout]) else Some (Returns ForkFailed, [])
   }"

fun sup_handle :: "('d, 'k) decider_ops \<Rightarrow> 'd \<Rightarrow> instant \<Rightarrow> 'k sup_msg
    \<Rightarrow> ('d \<times> ('k, 'f) sup_effect list) panics" where
  "sup_handle ops d now (SupStarted child_id addr) =
     map_option (\<lambda>d'. (d', [EffLink addr])) (dec_started ops d child_id addr)"
| "sup_handle ops d now (SupStartFailed child_id) = Some (dec_failed ops d child_id, [])"
| "sup_handle ops d now (SupStopFailed addr) = Some (dec_quit ops d False, [])"
| "sup_handle ops d now (SupGetChild header child_id) = Some (d, [EffReply header
     (case dec_address ops d child_id of Inl _ \<Rightarrow> Inl () | Inr a \<Rightarrow> Inr a)])"
| "sup_handle ops d now (SupExited peer normal_exit) =
     map_option (\<lambda>d'. (d', [])) (dec_exited ops d peer normal_exit now)"
| "sup_handle ops d now SupUnexpected = Some (d, [])"

text \<open>One turn of the loop: at most one action of the decider, then one message.\<close>

definition sup_turn :: "('d, 'k) decider_ops \<Rightarrow> address \<Rightarrow> ('k \<rightharpoonup> ('f, child_type) child_spec)
    \<Rightarrow> 'k sup_env \<Rightarrow> 'd \<Rightarrow> ('d flow \<times> ('k, 'f) sup_effect list) panics" where
  "sup_turn ops self children env d = do {
     (action, d1) \<leftarrow> dec_next ops (env_pick env) d;
     (flow, effs) \<leftarrow> sup_action self children (env_fork_ok env) d1 action;
     (case flow of
        Continue d2 \<Rightarrow> (case env_recv env of
            None \<Rightarrow> Some (Returns RecvFailed, effs)
          | Some msg \<Rightarrow> do {
              (d3, effs') \<leftarrow> sup_handle ops d2 (env_now env) msg;
              Some (Continue d3, effs @ effs')
            })
      | Quits \<Rightarrow> Some (Quits, effs)
      | Returns e \<Rightarrow> Some (Returns e, effs))
   }"



section \<open>The helper actors of a child\<close>

datatype 'k child_report = Started 'k address | StartFailed 'k | StopFailed address

datatype 'k child_effect = TellSetParent address address | SendPriority address "'k child_report"

datatype 'f start_call = SpawnLinked 'f | StartLinked 'f duration

fun do_start :: "'f \<Rightarrow> init_type \<Rightarrow> 'f start_call" where
  "do_start runnable NoAck = SpawnLinked runnable"
| "do_start runnable (WithAck start_timeout) = StartLinked runnable start_timeout"

definition child_run :: "('f start_call \<Rightarrow> address option) \<Rightarrow> address \<Rightarrow> 'k \<Rightarrow> ('f, child_type) child_spec
    \<Rightarrow> 'k child_effect list" where
  "child_run start sup_addr child_id spec = (case start (do_start (spec_launcher spec) (spec_init_type spec)) of
     Some addr \<Rightarrow> (if spec_announce_parent spec then [TellSetParent addr sup_addr] else [])
       @ [SendPriority sup_addr (Started child_id addr)]
   | None \<Rightarrow> [SendPriority sup_addr (StartFailed child_id)])"

definition child_shutdown :: "address \<Rightarrow> address \<Rightarrow> bool \<Rightarrow> 'k child_effect list" where
  "child_shutdown sup_addr addr shutdown_ok =
     (if shutdown_ok then [] else [SendPriority sup_addr (StopFailed addr)])"

section \<open>Reachable states of the actor\<close>

text \<open>
  The addresses that children report as started are new: not those of a child the decider still
  knows. The runtime leases every actor an address no live actor has.
\<close>

definition started_fresh :: "('d \<Rightarrow> address set) \<Rightarrow> 'd \<Rightarrow> 'k sup_env \<Rightarrow> bool" where
  "started_fresh live d env \<longleftrightarrow> (\<forall>k a. env_recv env = Some (SupStarted k a) \<longrightarrow> a \<notin> live d)"

inductive sup_reachable :: "('d, 'k) decider_ops \<Rightarrow> ('d \<Rightarrow> address set) \<Rightarrow> 'd \<Rightarrow> ('k, 'f) spec_tree
    \<Rightarrow> ('k \<rightharpoonup> ('f, child_type) child_spec) \<Rightarrow> address \<Rightarrow> 'd \<Rightarrow> bool"
  for ops :: "('d, 'k) decider_ops" and live :: "'d \<Rightarrow> address set" and d0 :: 'd
    and tree :: "('k, 'f) spec_tree" and children :: "'k \<rightharpoonup> ('f, child_type) child_spec" and self :: address
  where
    sup_initial: "do_init_children ops d0 tree = Inr (d, children) \<Longrightarrow>
      sup_reachable ops live d0 tree children self d"
  | sup_turned: "sup_reachable ops live d0 tree children self d \<Longrightarrow> started_fresh live d env \<Longrightarrow>
      sup_turn ops self children env d = Some (Continue d', effs) \<Longrightarrow>
      sup_reachable ops live d0 tree children self d'"

section \<open>What the actor relies on\<close>

locale decider =
  fixes ops :: "('d, 'k) decider_ops" and inv :: "'d \<Rightarrow> bool" and keys :: "'d \<Rightarrow> 'k set"
    and live :: "'d \<Rightarrow> address set"
  assumes add_law: "inv d \<Longrightarrow> dec_add ops d k ct = Inr d' \<Longrightarrow> inv d' \<and> keys d' = insert k (keys d)"
    and started_law: "inv d \<Longrightarrow> a \<notin> live d \<Longrightarrow>
      \<exists>d'. dec_started ops d k a = Some d' \<and> inv d' \<and> keys d' = keys d"
    and exited_law: "inv d \<Longrightarrow> \<exists>d'. dec_exited ops d a normal at = Some d' \<and> inv d' \<and> keys d' = keys d"
    and failed_law: "inv d \<Longrightarrow> inv (dec_failed ops d k) \<and> keys (dec_failed ops d k) = keys d"
    and quit_law: "inv d \<Longrightarrow> inv (dec_quit ops d n) \<and> keys (dec_quit ops d n) = keys d"
    and next_law: "inv d \<Longrightarrow> \<exists>act d'. dec_next ops pick d = Some (act, d') \<and> inv d' \<and> keys d' \<subseteq> keys d
      \<and> live d' = live d \<and> (\<forall>k. act = Some (Start k) \<longrightarrow> k \<in> keys d)
      \<and> (\<forall>a k. act = Some (Stop a (Some k)) \<longrightarrow> k \<in> keys d)"
begin

lemma sup_action_known:
  assumes "\<forall>k. act = Some (Start k) \<longrightarrow> k \<in> dom children"
    "\<forall>a k. act = Some (Stop a (Some k)) \<longrightarrow> k \<in> dom children"
  shows "\<exists>flow effs. sup_action self children ok d act = Some (flow, effs) \<and> (\<forall>d'. flow = Continue d' \<longrightarrow> d' = d)"
  using assms by (cases "(self, children, ok, d, act)" rule: sup_action.cases)
    (auto split: option.splits if_splits)

lemma sup_handle_ok:
  assumes "inv d" "\<forall>k a. msg = SupStarted k a \<longrightarrow> a \<notin> live d"
  shows "\<exists>d' effs. sup_handle ops d now msg = Some (d', effs) \<and> inv d' \<and> keys d' = keys d"
proof (cases msg)
  case (SupStarted k a)
  then show ?thesis using started_law [OF assms(1), of a k] assms(2) by auto
next
  case (SupExited a n)
  then show ?thesis using exited_law [OF assms(1), of a n now] by auto
qed (use assms failed_law quit_law in auto)

lemma sup_turn_ok:
  fixes children :: "'k \<rightharpoonup> ('f, child_type) child_spec"
  assumes "inv d" "keys d \<subseteq> dom children" "started_fresh live d env"
  shows "\<exists>flow effs. sup_turn ops self children env d = Some (flow, effs)
    \<and> (\<forall>d'. flow = Continue d' \<longrightarrow> inv d' \<and> keys d' \<subseteq> dom children)"
proof -
  obtain act d1 where next_act: "dec_next ops (env_pick env) d = Some (act, d1)" "inv d1" "keys d1 \<subseteq> keys d"
    "live d1 = live d" "\<forall>k. act = Some (Start k) \<longrightarrow> k \<in> keys d" "\<forall>a k. act = Some (Stop a (Some k)) \<longrightarrow> k \<in> keys d"
    using next_law [OF assms(1), of "env_pick env"] by metis
  have known: "\<forall>k. act = Some (Start k) \<longrightarrow> k \<in> dom children"
    "\<forall>a k. act = Some (Stop a (Some k)) \<longrightarrow> k \<in> dom children" using next_act(5,6) assms(2) by blast+
  obtain flow effs where act: "sup_action self children (env_fork_ok env) d1 act = Some (flow, effs)"
    "\<forall>d'. flow = Continue d' \<longrightarrow> d' = d1"
    using sup_action_known [OF known, of self "env_fork_ok env" d1] by blast
  show ?thesis
  proof (cases flow)
    case (Continue d2)
    then have "d2 = d1" using act(2) by simp
    show ?thesis
    proof (cases "env_recv env")
      case None
      then show ?thesis using next_act(1) act(1) Continue by (simp add: sup_turn_def)
    next
      case (Some msg)
      have "\<forall>k a. msg = SupStarted k a \<longrightarrow> a \<notin> live d1"
        using assms(3) Some next_act(4) by (simp add: started_fresh_def)
      from sup_handle_ok [OF next_act(2) this] obtain d3 and effs' :: "('k, 'f) sup_effect list" where
        "sup_handle ops d1 (env_now env) msg = Some (d3, effs')" "inv d3" "keys d3 = keys d1" by blast
      then show ?thesis using next_act(1,3) act(1) Continue \<open>d2 = d1\<close> Some assms(2)
        by (auto simp: sup_turn_def)
    qed
  qed (use next_act(1) act(1) in \<open>simp_all add: sup_turn_def\<close>)
qed

lemma init_children_ok:
  "inv d \<Longrightarrow> init_children ops d specs = Inr d' \<Longrightarrow> inv d' \<and> keys d' = keys d \<union> fst ` set specs"
proof (induction specs arbitrary: d)
  case (Cons x specs)
  obtain k spec where x: "x = (k, spec)" by (cases x)
  with Cons.prems obtain d1 where "dec_add ops d k (spec_child_type spec) = Inr d1"
    "init_children ops d1 specs = Inr d'" by (auto split: sum.splits)
  then show ?case using Cons.IH [of d1] add_law [OF Cons.prems(1), of k] x by auto
qed simp

lemma reachable_inv:
  assumes "sup_reachable ops live d0 tree children self d" "inv d0" "keys d0 = {}"
  shows "inv d \<and> keys d \<subseteq> dom children"
  using assms(1)
proof (induction rule: sup_reachable.induct)
  case (sup_initial d)
  let ?flat = "collect_into tree []"
  have init: "init_children ops d0 ?flat = Inr d" and "children = map_of (rev ?flat)"
    using sup_initial by (auto simp: do_init_children_def Let_def split: sum.splits)
  then show ?case using init_children_ok [OF assms(2) init] assms(3)
    by (simp add: dom_map_of_conv_image_fst)
next
  case (sup_turned d env d' effs)
  then show ?case using sup_turn_ok [of d children env self] by auto
qed

lemma reachable_turn:
  assumes "sup_reachable ops live d0 tree children self d" "inv d0" "keys d0 = {}" "started_fresh live d env"
  shows "sup_turn ops self children env d \<noteq> None"
proof -
  have "inv d" "keys d \<subseteq> dom children" using reachable_inv [OF assms(1-3)] by simp_all
  from sup_turn_ok [OF this assms(4), of self] show ?thesis by auto
qed

end

lemma ofo_next_live: "ofo_next d a d' \<Longrightarrow> set (live_addrs ofo_status (ofo_states d')) = set (live_addrs ofo_status (ofo_states d))"
  by (cases rule: ofo_next.cases) (auto split: option.splits)

lemma afo_next_live: "afo_next d a d' \<Longrightarrow> set (live_addrs afo_status (afo_states d')) = set (live_addrs afo_status (afo_states d))"
  by (cases rule: afo_next.cases) (auto split: option.splits)

definition ofo_keys :: "'k ofo \<Rightarrow> 'k set" where
  "ofo_keys d = set (map fst (ofo_states d))"

definition afo_keys :: "'k afo \<Rightarrow> 'k set" where
  "afo_keys d = set (map fst (afo_states d))"

definition ofo_live :: "'k ofo \<Rightarrow> address set" where
  "ofo_live d = set (live_addrs ofo_status (ofo_states d))"

definition afo_live :: "'k afo \<Rightarrow> address set" where
  "afo_live d = set (live_addrs afo_status (afo_states d))"

lemma ofo_keys_map: "map fst (ofo_states d') = map fst (ofo_states d) \<Longrightarrow> ofo_keys d' = ofo_keys d"
  by (simp only: ofo_keys_def)

lemma afo_keys_map: "map fst (afo_states d') = map fst (afo_states d) \<Longrightarrow> afo_keys d' = afo_keys d"
  by (simp only: afo_keys_def)

lemma ofo_next_law:
  assumes "ofo_inv d"
  shows "\<exists>act d'. ofo_next_action pick d = Some (act, d') \<and> ofo_inv d' \<and> ofo_keys d' \<subseteq> ofo_keys d
    \<and> ofo_live d' = ofo_live d \<and> (\<forall>k. act = Some (Start k) \<longrightarrow> k \<in> ofo_keys d)
    \<and> (\<forall>a k. act = Some (Stop a (Some k)) \<longrightarrow> k \<in> ofo_keys d)"
proof -
  let ?d = "ofo_retain d"
  obtain act d' where step: "ofo_next_action pick d = Some (act, d')" "ofo_next ?d act d'"
    using ofo_next_action_total by blast
  have sub: "ofo_keys ?d \<subseteq> ofo_keys d" by (auto simp: ofo_keys_def ofo_retain_def)
  have "live_addrs ofo_status (filter ofo_present (ofo_states d)) = live_addrs ofo_status (ofo_states d)"
    by (rule live_addrs_filter) (auto simp: ofo_present_def)
  then have live: "ofo_live ?d = ofo_live d" by (simp add: ofo_live_def ofo_retain_def)
  have "ofo_inv d'" "ofo_keys d' = ofo_keys ?d"
    using ofo_next_inv [OF step(2) ofo_retain_inv [OF assms]] ofo_keys_map by auto
  moreover have "ofo_live d' = ofo_live d" using ofo_next_live [OF step(2)] live by (simp add: ofo_live_def)
  moreover have "(\<forall>k. act = Some (Start k) \<longrightarrow> k \<in> ofo_keys ?d)
    \<and> (\<forall>a k. act = Some (Stop a (Some k)) \<longrightarrow> k \<in> ofo_keys ?d)"
    using step(2) by (cases rule: ofo_next.cases) (auto simp: ofo_keys_def)
  ultimately show ?thesis using step(1) sub by blast
qed

lemma afo_next_law:
  assumes "afo_inv d"
  shows "\<exists>act d'. Some (afo_next_action pick d) = Some (act, d') \<and> afo_inv d' \<and> afo_keys d' \<subseteq> afo_keys d
    \<and> afo_live d' = afo_live d \<and> (\<forall>k. act = Some (Start k) \<longrightarrow> k \<in> afo_keys d)
    \<and> (\<forall>a k. act = Some (Stop a (Some k)) \<longrightarrow> k \<in> afo_keys d)"
proof -
  obtain act d' where step: "afo_next_action pick d = (act, d')" "afo_next d act d'"
    using afo_next_action_total [of d pick] by (cases "afo_next_action pick d") simp
  have "afo_inv d'" "afo_keys d' = afo_keys d"
    using afo_next_inv [OF step(2) assms] afo_keys_map by auto
  moreover have "afo_live d' = afo_live d" using afo_next_live [OF step(2)] by (simp add: afo_live_def)
  moreover have "(\<forall>k. act = Some (Start k) \<longrightarrow> k \<in> afo_keys d)
    \<and> (\<forall>a k. act = Some (Stop a (Some k)) \<longrightarrow> k \<in> afo_keys d)"
    using step(2) by (cases rule: afo_next.cases) (auto simp: afo_keys_def)
  ultimately show ?thesis using step(1) by blast
qed

lemma ofo_add_law:
  "ofo_inv d \<Longrightarrow> ofo_add d k ct = Inr d' \<Longrightarrow> ofo_inv d' \<and> ofo_keys d' = insert k (ofo_keys d)"
proof -
  assume "ofo_inv d" "ofo_add d k ct = Inr d'"
  from ofo_add_inv [OF this] have "ofo_inv d'" "map fst (ofo_states d') = map fst (ofo_states d) @ [k]" by simp_all
  then show ?thesis unfolding ofo_keys_def by (simp only: set_append) simp
qed

lemma afo_add_law:
  "afo_inv d \<Longrightarrow> afo_add d k ct = Inr d' \<Longrightarrow> afo_inv d' \<and> afo_keys d' = insert k (afo_keys d)"
proof -
  assume "afo_inv d" "afo_add d k ct = Inr d'"
  from afo_add_inv [OF this] have "afo_inv d'" "map fst (afo_states d') = map fst (afo_states d) @ [k]" by simp_all
  then show ?thesis unfolding afo_keys_def by (simp only: set_append) simp
qed

interpretation ofo: decider one_for_one ofo_inv ofo_keys ofo_live
proof
  fix d :: "'k ofo" and k :: 'k and a normal at n pick ct d'
  assume inv: "ofo_inv d"
  show "dec_add one_for_one d k ct = Inr d' \<Longrightarrow> ofo_inv d' \<and> ofo_keys d' = insert k (ofo_keys d)"
    using ofo_add_law [OF inv] by (simp add: one_for_one_def)
  show "\<exists>d'. dec_started one_for_one d k a = Some d' \<and> ofo_inv d' \<and> ofo_keys d' = ofo_keys d" if "a \<notin> ofo_live d"
    using ofo_started_ok [OF inv, of a k] that ofo_keys_map by (auto simp: one_for_one_def ofo_live_def)
  show "\<exists>d'. dec_exited one_for_one d a normal at = Some d' \<and> ofo_inv d' \<and> ofo_keys d' = ofo_keys d"
    using ofo_exited_ok [OF inv, of a normal at] ofo_keys_map by (auto simp: one_for_one_def)
  show "ofo_inv (dec_failed one_for_one d k) \<and> ofo_keys (dec_failed one_for_one d k) = ofo_keys d"
    using ofo_failed_ok [OF inv] ofo_keys_map by (auto simp: one_for_one_def)
  show "ofo_inv (dec_quit one_for_one d n) \<and> ofo_keys (dec_quit one_for_one d n) = ofo_keys d"
    using inv by (simp add: one_for_one_def ofo_quit_ok ofo_keys_def)
  show "\<exists>act d'. dec_next one_for_one pick d = Some (act, d') \<and> ofo_inv d' \<and> ofo_keys d' \<subseteq> ofo_keys d
      \<and> ofo_live d' = ofo_live d \<and> (\<forall>k. act = Some (Start k) \<longrightarrow> k \<in> ofo_keys d)
      \<and> (\<forall>a k. act = Some (Stop a (Some k)) \<longrightarrow> k \<in> ofo_keys d)"
    using ofo_next_law [OF inv, of pick] by (simp add: one_for_one_def)
qed

interpretation afo: decider all_for_one afo_inv afo_keys afo_live
proof
  fix d :: "'k afo" and k :: 'k and a normal at n pick ct d'
  assume inv: "afo_inv d"
  show "dec_add all_for_one d k ct = Inr d' \<Longrightarrow> afo_inv d' \<and> afo_keys d' = insert k (afo_keys d)"
    using afo_add_law [OF inv] by (simp add: all_for_one_def)
  show "\<exists>d'. dec_started all_for_one d k a = Some d' \<and> afo_inv d' \<and> afo_keys d' = afo_keys d" if "a \<notin> afo_live d"
    using afo_started_ok [OF inv, of a k] that afo_keys_map by (auto simp: all_for_one_def afo_live_def)
  show "\<exists>d'. dec_exited all_for_one d a normal at = Some d' \<and> afo_inv d' \<and> afo_keys d' = afo_keys d"
    using afo_exited_ok [OF inv, of a normal at] afo_keys_map by (auto simp: all_for_one_def)
  show "afo_inv (dec_failed all_for_one d k) \<and> afo_keys (dec_failed all_for_one d k) = afo_keys d"
    using afo_failed_ok [OF inv] afo_keys_map by (auto simp: all_for_one_def)
  show "afo_inv (dec_quit all_for_one d n) \<and> afo_keys (dec_quit all_for_one d n) = afo_keys d"
    using inv by (simp add: all_for_one_def afo_quit_ok afo_keys_def)
  show "\<exists>act d'. dec_next all_for_one pick d = Some (act, d') \<and> afo_inv d' \<and> afo_keys d' \<subseteq> afo_keys d
      \<and> afo_live d' = afo_live d \<and> (\<forall>k. act = Some (Start k) \<longrightarrow> k \<in> afo_keys d)
      \<and> (\<forall>a k. act = Some (Stop a (Some k)) \<longrightarrow> k \<in> afo_keys d)"
    using afo_next_law [OF inv, of pick] by (simp add: all_for_one_def)
qed

section \<open>Properties\<close>








end
