(* ===== verification/Trie_Pool.thy ===== *)
theory Trie_Pool
  imports Blocks
begin

text \<open>
  The trie of free address blocks, \<^verbatim>\<open>libs/mm1-address/src/pool/trie.rs\<close>: a path-compressed
  binary trie whose leaves are the free blocks. The debug assertions of the source are guards of
  the model, so a theorem that an operation returns \<^term>\<open>Some x\<close> says none of them fires.
\<close>

unbundle bit_operations_syntax

section \<open>Nodes\<close>

datatype trie_node = Node (seg_path: u64) (seg_mask: u64) (node_next: trie_next)
and trie_next = Leaf | Fork (fork_zero: "trie_node option") (fork_one: "trie_node option")

definition assert_valid_mask :: "u64 \<Rightarrow> unit panics" where
  "assert_valid_mask msk = assert_that (leading_ones msk + trailing_zeros msk = 64)"

fun node_check_invariants :: "trie_node option \<Rightarrow> unit panics" where
  "node_check_invariants None = Some ()"
| "node_check_invariants (Some (Node p m nx)) = do {
     assert_valid_mask m;
     assert_that (p = p AND m);
     (case nx of
        Leaf \<Rightarrow> Some ()
      | Fork zero one \<Rightarrow>
          if trailing_zeros m = 0 then None
          else do {
            assert_that (zero \<noteq> None);
            assert_that (one \<noteq> None);
            assert_that (case zero of None \<Rightarrow> True
              | Some z \<Rightarrow> 64 - trailing_zeros m \<le> leading_ones (seg_mask z));
            node_check_invariants zero;
            assert_that (case one of None \<Rightarrow> True
              | Some z \<Rightarrow> 64 - trailing_zeros m \<le> leading_ones (seg_mask z));
            node_check_invariants one
          })
   }"

definition node_leaf :: "u64 \<Rightarrow> u64 \<Rightarrow> trie_node panics" where
  "node_leaf path msk = do {
     let node = Node path msk Leaf;
     node_check_invariants (Some node);
     Some node
   }"

fun maybe_compact :: "trie_node \<Rightarrow> trie_node panics" where
  "maybe_compact (Node p m Leaf) = Some (Node p m Leaf)"
| "maybe_compact (Node p m (Fork (Some zero) (Some one))) =
     (if push_bit 1 (seg_mask zero) = m \<and> push_bit 1 (seg_mask one) = m
         \<and> node_next zero = Leaf \<and> node_next one = Leaf
      then Some (Node p m Leaf)
      else Some (Node p m (Fork (Some zero) (Some one))))"
| "maybe_compact (Node p m (Fork zero one)) = None"

definition common_ancestor :: "u64 \<times> u64 \<Rightarrow> u64 \<times> u64 \<Rightarrow> (u64 \<times> u64) panics" where
  "common_ancestor = (\<lambda>(la, lm) (ra, rm). do {
     assert_valid_mask lm;
     assert_valid_mask rm;
     assert_that (la AND NOT lm = 0);
     assert_that (ra AND NOT rm = 0);
     let m = lm AND rm;
     let c = leading_zeros ((la AND m) XOR (ra AND m));
     hi \<leftarrow> (if c = 0 then Some 0 else shl (-1) (64 - c));
     let cm = hi AND m;
     let ca = la AND cm;
     assert_that (ca = ra AND cm);
     assert_valid_mask cm;
     assert_that (ca AND NOT cm = 0);
     Some (ca, cm)
   })"

section \<open>Release\<close>

fun release_dfs :: "trie_node option \<Rightarrow> u64 \<Rightarrow> u64 \<Rightarrow> (bool \<times> trie_node option) panics" where
  "release_dfs None addr msk = do {
     node \<leftarrow> node_leaf addr msk;
     Some (True, Some node)
   }"
| "release_dfs (Some (Node p m nx)) addr msk = do {
     (ca_addr, ca_mask) \<leftarrow> common_ancestor (p, m) (addr, msk);
     assert_that (trailing_zeros ca_mask \<noteq> 0);
     b \<leftarrow> shl 1 (trailing_zeros ca_mask - 1);
     let split_bit = addr AND b;
     if ca_mask = msk then Some (False, Some (Node p m nx))
     else if ca_mask = m then
       (case nx of
          Leaf \<Rightarrow> Some (False, Some (Node p m nx))
        | Fork zero one \<Rightarrow>
            if split_bit = 0 then do {
              (inserted, zero') \<leftarrow> release_dfs zero addr msk;
              node \<leftarrow> maybe_compact (Node p m (Fork zero' one));
              Some (inserted, Some node)
            } else do {
              (inserted, one') \<leftarrow> release_dfs one addr msk;
              node \<leftarrow> maybe_compact (Node p m (Fork zero one'));
              Some (inserted, Some node)
            })
     else do {
       cur \<leftarrow> node_leaf ca_addr ca_mask;
       let sibling = Node p m nx;
       this \<leftarrow> node_leaf addr msk;
       node \<leftarrow> maybe_compact (Node (seg_path cur) (seg_mask cur)
         (if split_bit = 0 then Fork (Some this) (Some sibling)
          else Fork (Some sibling) (Some this)));
       Some (True, Some node)
     }
   }"

record trie_pool = trie_root :: "trie_node option"

definition trie_check :: "trie_pool \<Rightarrow> unit panics" where
  "trie_check pool = node_check_invariants (trie_root pool)"

definition trie_release :: "trie_pool \<Rightarrow> u64 \<Rightarrow> u64 \<Rightarrow> (bool \<times> trie_pool) panics" where
  "trie_release pool addr msk = do {
     assert_valid_mask msk;
     assert_that (addr AND NOT msk = 0);
     (inserted, t) \<leftarrow> release_dfs (trie_root pool) addr msk;
     trie_check (pool\<lparr>trie_root := t\<rparr>);
     Some (inserted, pool\<lparr>trie_root := t\<rparr>)
   }"

definition trie_empty :: trie_pool where
  "trie_empty = \<lparr>trie_root = None\<rparr>"

definition trie_new :: "u64 \<Rightarrow> u64 \<Rightarrow> trie_pool panics" where
  "trie_new addr msk = do {
     (_, pool) \<leftarrow> trie_release trie_empty addr msk;
     Some pool
   }"

section \<open>Acquire\<close>

fun left_over_loop :: "u64 \<Rightarrow> nat list \<Rightarrow> trie_node option \<Rightarrow> trie_node option panics" where
  "left_over_loop cur [] left_over = Some left_over"
| "left_over_loop cur (i # is) left_over = do {
     split_bit \<leftarrow> shl 1 i;
     split_mask \<leftarrow> shl (-1) i;
     one \<leftarrow> node_leaf (cur OR split_bit) split_mask;
     parent \<leftarrow> node_leaf cur (push_bit 1 split_mask);
     left_over_loop cur is
       (Some (Node (seg_path parent) (seg_mask parent) (Fork left_over (Some one))))
   }"

fun acquire_dfs :: "trie_node option \<Rightarrow> u64 \<Rightarrow> (u64 option \<times> trie_node option) panics" where
  "acquire_dfs None sought = Some (None, None)"
| "acquire_dfs (Some (Node p m nx)) sought =
    (if leading_ones sought < leading_ones m then Some (None, Some (Node p m nx))
     else if leading_ones m = leading_ones sought then
       (case nx of
          Fork _ _ \<Rightarrow> Some (None, Some (Node p m nx))
        | Leaf \<Rightarrow> Some (Some p, None))
     else
       (case nx of
          Fork zero one \<Rightarrow> do {
            (first, zero') \<leftarrow> acquire_dfs zero sought;
            (out, one') \<leftarrow>
              (case first of Some a \<Rightarrow> Some (Some a, one) | None \<Rightarrow> acquire_dfs one sought);
            (case (zero', one') of
               (Some _, Some _) \<Rightarrow> Some (out, Some (Node p m (Fork zero' one')))
             | (Some _, None) \<Rightarrow> Some (out, zero')
             | (None, Some _) \<Rightarrow> Some (out, one')
             | (None, None) \<Rightarrow> None)
          }
        | Leaf \<Rightarrow> do {
            b \<leftarrow> shl 1 (trailing_zeros sought);
            rest \<leftarrow> node_leaf (p OR b) sought;
            left_over \<leftarrow>
              left_over_loop p [trailing_zeros sought + 1..<trailing_zeros m] (Some rest);
            Some (Some p, left_over)
          }))"

definition trie_acquire :: "trie_pool \<Rightarrow> u64 \<Rightarrow> (u64 option \<times> trie_pool) panics" where
  "trie_acquire pool msk = do {
     assert_valid_mask msk;
     (out, t) \<leftarrow> acquire_dfs (trie_root pool) msk;
     trie_check (pool\<lparr>trie_root := t\<rparr>);
     Some (out, pool\<lparr>trie_root := t\<rparr>)
   }"

section \<open>Drain\<close>

fun drain_dfs :: "trie_node option \<Rightarrow> trie_pool \<Rightarrow> trie_pool panics" where
  "drain_dfs None other = Some other"
| "drain_dfs (Some (Node p m Leaf)) other = do {
     (_, other') \<leftarrow> trie_release other p m;
     Some other'
   }"
| "drain_dfs (Some (Node p m (Fork zero one))) other = do {
     other' \<leftarrow> drain_dfs zero other;
     drain_dfs one other'
   }"

definition drain_into :: "trie_pool \<Rightarrow> trie_pool \<Rightarrow> (trie_pool \<times> trie_pool) panics" where
  "drain_into self other = do {
     other' \<leftarrow> drain_dfs (trie_root self) other;
     let self' = self\<lparr>trie_root := None\<rparr>;
     trie_check self';
     Some (self', other')
   }"

section \<open>What a trie denotes and its invariant\<close>

fun free_in :: "trie_node option \<Rightarrow> u64 set" where
  "free_in None = {}"
| "free_in (Some (Node p m Leaf)) = blk p (trailing_zeros m)"
| "free_in (Some (Node p m (Fork zero one))) = free_in zero \<union> free_in one"

definition child_ok :: "u64 \<Rightarrow> u64 \<Rightarrow> bool \<Rightarrow> trie_node option \<Rightarrow> bool" where
  "child_ok p m b child = (case child of
     None \<Rightarrow> False
   | Some n \<Rightarrow> trailing_zeros (seg_mask n) < trailing_zeros m
       \<and> seg_path n AND m = p \<and> bit (seg_path n) (trailing_zeros m - 1) = b)"

definition half_leaf :: "u64 \<Rightarrow> trie_node option \<Rightarrow> bool" where
  "half_leaf m child = (case child of
     None \<Rightarrow> False
   | Some n \<Rightarrow> push_bit 1 (seg_mask n) = m \<and> node_next n = Leaf)"

fun trie_inv :: "trie_node option \<Rightarrow> bool" where
  "trie_inv None = True"
| "trie_inv (Some (Node p m Leaf)) = valid_prefix p m"
| "trie_inv (Some (Node p m (Fork zero one))) \<longleftrightarrow>
     valid_prefix p m \<and> child_ok p m False zero \<and> child_ok p m True one
     \<and> trie_inv zero \<and> trie_inv one \<and> \<not> (half_leaf m zero \<and> half_leaf m one)"

lemma trie_inv_prefix: "trie_inv (Some n) \<Longrightarrow> valid_prefix (seg_path n) (seg_mask n)"
  by (cases n; cases "node_next n") auto

lemma child_ok_subset:
  assumes "child_ok p (pmask k) b (Some n)" "trie_inv (Some n)" "k \<le> 64"
  shows "0 < k" "blk (seg_path n) (trailing_zeros (seg_mask n)) \<subseteq> half b p (k - 1)"
proof -
  obtain j where j: "aligned (seg_path n) j" "trailing_zeros (seg_mask n) = j"
    using trie_inv_prefix [OF assms(2)] by (rule valid_prefixE)
  with assms show "0 < k" by (auto simp: child_ok_def trailing_zeros_pmask)
  have "seg_path n \<in> half b p (k - 1)" and "j \<le> k - 1"
    using assms j \<open>0 < k\<close>
    by (auto simp: child_ok_def trailing_zeros_pmask half_def blk_eq_mask)
  then show "blk (seg_path n) (trailing_zeros (seg_mask n)) \<subseteq> half b p (k - 1)"
    using j by (metis blk_mono blk_self half_of_member)
qed

lemma trie_inv_ForkE:
  assumes "trie_inv (Some (Node p m (Fork zero one)))"
  obtains k z y where "0 < k" "k \<le> 64" "m = pmask k" "trailing_zeros m = k" "aligned p k"
    "zero = Some z" "one = Some y" "trie_inv (Some z)" "trie_inv (Some y)"
    "child_ok p m False (Some z)" "child_ok p m True (Some y)"
    "\<not> (half_leaf m (Some z) \<and> half_leaf m (Some y))"
proof -
  have inv: "valid_prefix p m" "child_ok p m False zero" "child_ok p m True one"
    "trie_inv zero" "trie_inv one" "\<not> (half_leaf m zero \<and> half_leaf m one)"
    using assms by simp_all
  obtain k where k: "k \<le> 64" "m = pmask k" "aligned p k" "trailing_zeros m = k"
    using inv(1) by (rule valid_prefixE)
  obtain z y where zy: "zero = Some z" "one = Some y"
    using inv(2,3) by (auto simp: child_ok_def split: option.splits)
  have "0 < k" using inv(2) k(4) zy by (auto simp: child_ok_def)
  then show thesis using that k inv zy by simp
qed

lemma free_nonempty: "trie_inv t \<Longrightarrow> t \<noteq> None \<Longrightarrow> free_in t \<noteq> {}"
  by (induction t rule: trie_inv.induct) (auto simp: child_ok_def split: option.splits)

lemma free_subset_node:
  "trie_inv t \<Longrightarrow> t = Some n \<Longrightarrow> free_in t \<subseteq> blk (seg_path n) (trailing_zeros (seg_mask n))"
proof (induction t arbitrary: n rule: trie_inv.induct)
  case (3 p m zero one)
  from 3(3) obtain k z y where *: "0 < k" "k \<le> 64" "m = pmask k" "trailing_zeros m = k"
    "zero = Some z" "one = Some y" "trie_inv (Some z)" "trie_inv (Some y)"
    "child_ok p m False (Some z)" "child_ok p m True (Some y)" by (rule trie_inv_ForkE)
  have "free_in zero \<subseteq> half False p (k - 1)"
    using 3(1) [of z] child_ok_subset [of p k False z] * by auto
  moreover have "free_in one \<subseteq> half True p (k - 1)"
    using 3(2) [of y] child_ok_subset [of p k True y] * by auto
  ultimately have "free_in zero \<union> free_in one \<subseteq> blk p k"
    using half_pred_subset [OF \<open>0 < k\<close>] by blast
  then show ?case using 3(4) * by auto
qed auto

lemma child_free_subset:
  assumes "child_ok p (pmask k) b (Some n)" "trie_inv (Some n)" "k \<le> 64"
  shows "free_in (Some n) \<subseteq> half b p (k - 1)"
  using child_ok_subset(2) [OF assms] free_subset_node [OF assms(2)] by blast

lemma node_block_least:
  assumes "trie_inv t" "t = Some n" "free_in t \<subseteq> blk a j"
  shows "blk (seg_path n) (trailing_zeros (seg_mask n)) \<subseteq> blk a j"
proof (cases t rule: trie_inv.cases)
  case (3 p m zero one)
  from assms(1) [unfolded 3] obtain k z y where *: "0 < k" "k \<le> 64" "m = pmask k"
    "trailing_zeros m = k" "zero = Some z" "one = Some y" "trie_inv (Some z)" "trie_inv (Some y)"
    "child_ok p m False (Some z)" "child_ok p m True (Some y)" by (rule trie_inv_ForkE)
  obtain x w where xw: "x \<in> free_in zero" "w \<in> free_in one"
    using free_nonempty [of zero] free_nonempty [of one] * by auto
  then have bits: "\<not> bit x (k - 1)" "bit w (k - 1)" "x \<in> blk p k"
    using child_free_subset [of p k] * by (auto simp: half_def)
  have ab: "x \<in> blk a j" "w \<in> blk a j" using xw assms(3) 3 by auto
  with bits have "k \<le> j" using \<open>0 < k\<close>
    by (metis blkD diff_Suc_1 gr0_conv_Suc not_less_eq_eq)
  then have "blk p k \<subseteq> blk a j"
    using bits ab(1) blk_nested by blast
  then show ?thesis using 3 assms(2) * by simp
qed (use assms in auto)

lemma child_okI:
  assumes "trie_inv (Some n)" "free_in (Some n) \<subseteq> half b p (k - 1)" "0 < k" "k \<le> 64" "aligned p k"
  shows "child_ok p (pmask k) b (Some n)"
proof -
  obtain j where j: "j \<le> 64" "trailing_zeros (seg_mask n) = j"
    using trie_inv_prefix [OF assms(1)] by (rule valid_prefixE)
  obtain x where "x \<in> free_in (Some n)" using free_nonempty [OF assms(1)] by auto
  then have half: "half b p (k - 1) = blk x (k - 1)" using assms(2) by (intro half_of_member) blast
  then have sub: "blk (seg_path n) j \<subseteq> half b p (k - 1)"
    using node_block_least [OF assms(1) refl, of x "k - 1"] assms(2) j by simp
  then have "j \<le> k - 1" using half blk_subset_length j(1) by metis
  moreover have "seg_path n \<in> half b p (k - 1)" using sub blk_self by blast
  ultimately show ?thesis using assms(3,4,5) j
    by (auto simp: child_ok_def trailing_zeros_pmask half_def blk_eq_mask aligned_def)
qed

text \<open>A leaf of half the size fills its half of the block.\<close>

lemma half_leaf_width:
  assumes "half_leaf (pmask k) (Some n)" "trie_inv (Some n)" "child_ok p (pmask k) b (Some n)"
    "0 < k" "k \<le> 64"
  shows "trailing_zeros (seg_mask n) = k - 1"
proof -
  obtain j where j: "j \<le> 64" "seg_mask n = pmask j" "trailing_zeros (seg_mask n) = j"
    using trie_inv_prefix [OF assms(2)] by (rule valid_prefixE)
  have "j < k" using assms(3,5) j by (simp add: child_ok_def trailing_zeros_pmask)
  moreover have "pmask (Suc j) = pmask k" using assms(1) j by (simp add: half_leaf_def pmask_times_2)
  ultimately show ?thesis using j assms(5) by (simp add: pmask_inj)
qed

lemma half_leaf_free:
  assumes "half_leaf (pmask k) (Some n)" "trie_inv (Some n)" "child_ok p (pmask k) b (Some n)"
    "0 < k" "k \<le> 64"
  shows "free_in (Some n) = half b p (k - 1)"
proof -
  have w: "trailing_zeros (seg_mask n) = k - 1" using half_leaf_width [OF assms] .
  have "free_in (Some n) = blk (seg_path n) (k - 1)"
    using assms(1) w by (cases n) (simp add: half_leaf_def)
  moreover have "seg_path n \<in> half b p (k - 1)"
    using child_ok_subset(2) [OF assms(3,2,5)] blk_self by blast
  ultimately show ?thesis using half_of_member by metis
qed

lemma half_leafI:
  assumes "trie_inv (Some n)" "node_next n = Leaf" "blk (seg_path n) (trailing_zeros (seg_mask n)) = blk x (k - 1)"
    "0 < k" "k \<le> 64"
  shows "half_leaf (pmask k) (Some n)"
proof -
  obtain j where j: "j \<le> 64" "seg_mask n = pmask j" "trailing_zeros (seg_mask n) = j"
    using trie_inv_prefix [OF assms(1)] by (rule valid_prefixE)
  have "j = k - 1"
    using assms(3-5) j blk_subset_length [of _ j _ "k - 1"] blk_subset_length [of _ "k - 1" _ j]
    by (metis diff_le_self le_antisym order_refl order_trans)
  then show ?thesis using assms(2,4) j by (simp add: half_leaf_def pmask_times_2)
qed

text \<open>The trie is canonical: a node whose block is entirely free is a leaf.\<close>

lemma full_is_leaf:
  assumes "trie_inv t" "t = Some n" "blk (seg_path n) (trailing_zeros (seg_mask n)) \<subseteq> free_in t"
  shows "node_next n = Leaf"
  using assms
proof (induction t arbitrary: n rule: trie_inv.induct)
  case (3 p m zero one)
  from 3(3) obtain k z y where *: "0 < k" "k \<le> 64" "m = pmask k" "trailing_zeros m = k"
    "zero = Some z" "one = Some y" "trie_inv (Some z)" "trie_inv (Some y)"
    "child_ok p m False (Some z)" "child_ok p m True (Some y)"
    "\<not> (half_leaf m (Some z) \<and> half_leaf m (Some y))" by (rule trie_inv_ForkE)
  have sub: "free_in zero \<subseteq> half False p (k - 1)" "free_in one \<subseteq> half True p (k - 1)"
    using child_free_subset [of p k] * by auto
  have full: "free_in zero \<union> free_in one = half False p (k - 1) \<union> half True p (k - 1)"
    using sub 3(4,5) * blk_pred_halves [of k p] by auto
  then have eq: "free_in zero = half False p (k - 1)" "free_in one = half True p (k - 1)"
    using sub halves_disjoint [of p "k - 1"] by blast+
  have hl: "half_leaf m c" if c: "c = Some v" "trie_inv (Some v)" "child_ok p m b (Some v)"
    and fc: "free_in c = half b p (k - 1)"
    and IH: "blk (seg_path v) (trailing_zeros (seg_mask v)) \<subseteq> free_in c \<Longrightarrow> node_next v = Leaf"
    for c v b
  proof -
    obtain x where x: "x \<in> free_in c" using free_nonempty [of c] c by auto
    then have fx: "free_in c = blk x (k - 1)" using fc by (simp add: half_of_member)
    then have "blk (seg_path v) (trailing_zeros (seg_mask v)) = blk x (k - 1)"
      using node_block_least [of c v x "k - 1"] free_subset_node [of c v] c by simp
    then show ?thesis using IH c fx half_leafI [of v x k] * by simp
  qed
  have "half_leaf m zero" using hl [of zero z False] 3(1) [of z] eq * by simp
  moreover have "half_leaf m one" using hl [of one y True] 3(2) [of y] eq * by simp
  ultimately show ?case using * by simp
qed auto

section \<open>The operations keep the invariant\<close>

lemma assert_valid_mask_pmask [simp]: "k \<le> 64 \<Longrightarrow> assert_valid_mask (pmask k) = Some ()"
  by (simp add: assert_valid_mask_def leading_ones_pmask trailing_zeros_pmask)

lemma leaf_pmask [simp]:
  "k \<le> 64 \<Longrightarrow> aligned a k \<Longrightarrow> node_leaf a (pmask k) = Some (Node a (pmask k) Leaf)"
  by (simp add: node_leaf_def aligned_def)

lemma node_check_ok: "trie_inv t \<Longrightarrow> node_check_invariants t = Some ()"
proof (induction t rule: trie_inv.induct)
  case (2 p m)
  then show ?case by (auto simp: valid_prefix_def assert_valid_mask_def)
next
  case (3 p m zero one)
  from 3(3) obtain k z y where *: "0 < k" "k \<le> 64" "m = pmask k" "trailing_zeros m = k"
    "aligned p k" "zero = Some z" "one = Some y" "trie_inv (Some z)" "trie_inv (Some y)"
    "child_ok p m False (Some z)" "child_ok p m True (Some y)" by (rule trie_inv_ForkE)
  have "64 - k \<le> leading_ones (seg_mask c)"
    if ok: "child_ok p m b (Some c)" and inv: "trie_inv (Some c)" for b c
  proof -
    obtain j where "j \<le> 64" "seg_mask c = pmask j"
      using trie_inv_prefix [OF inv] by (rule valid_prefixE)
    then show ?thesis using ok *(2-4)
      by (auto simp: child_ok_def leading_ones_pmask trailing_zeros_pmask)
  qed
  then show ?case using 3(1,2) * by (simp add: aligned_def)
qed simp

lemma trie_inv_ForkI:
  assumes "trie_inv (Some z)" "trie_inv (Some y)" "0 < k" "k \<le> 64" "aligned p k"
    "free_in (Some z) \<subseteq> half False p (k - 1)" "free_in (Some y) \<subseteq> half True p (k - 1)"
    "free_in (Some z) \<union> free_in (Some y) \<noteq> blk p k"
  shows "trie_inv (Some (Node p (pmask k) (Fork (Some z) (Some y))))"
proof -
  have ok: "child_ok p (pmask k) False (Some z)" "child_ok p (pmask k) True (Some y)"
    using assms child_okI by blast+
  have "\<not> (half_leaf (pmask k) (Some z) \<and> half_leaf (pmask k) (Some y))"
  proof
    assume "half_leaf (pmask k) (Some z) \<and> half_leaf (pmask k) (Some y)"
    then have "free_in (Some z) = half False p (k - 1)" "free_in (Some y) = half True p (k - 1)"
      using half_leaf_free assms ok by blast+
    then show False using assms(3,8) blk_pred_halves [of k p] by simp
  qed
  then show ?thesis using assms ok by simp
qed

lemma maybe_compact_ok:
  assumes "trie_inv (Some z)" "trie_inv (Some y)" "0 < k" "k \<le> 64" "aligned p k"
    "free_in (Some z) \<subseteq> half False p (k - 1)" "free_in (Some y) \<subseteq> half True p (k - 1)"
  shows "\<exists>n. maybe_compact (Node p (pmask k) (Fork (Some z) (Some y))) = Some n
    \<and> trie_inv (Some n) \<and> free_in (Some n) = free_in (Some z) \<union> free_in (Some y)"
proof (cases "half_leaf (pmask k) (Some z) \<and> half_leaf (pmask k) (Some y)")
  case True
  have ok: "child_ok p (pmask k) False (Some z)" "child_ok p (pmask k) True (Some y)"
    using assms child_okI by blast+
  have "free_in (Some z) = half False p (k - 1)" "free_in (Some y) = half True p (k - 1)"
    using half_leaf_free True assms ok by blast+
  then show ?thesis using True assms(3-5) blk_pred_halves [of k p]
    by (auto simp: half_leaf_def trailing_zeros_pmask)
next
  case False
  then show ?thesis using assms child_okI by (auto simp: half_leaf_def)
qed

end
