(* ===== verification/Trie_Ops.thy ===== *)
theory Trie_Ops
  imports Trie_Pool
begin

text \<open>
  Correctness of the operations of the trie of free blocks: release, acquire and drain keep the
  invariant, never hit an assertion, and act on the set of free addresses as set union and
  difference; acquire fails only when no aligned block of the size is free.
\<close>

unbundle bit_operations_syntax

text \<open>The common ancestor is the least block that contains both.\<close>

lemma common_ancestor_ok:
  assumes "k \<le> 64" "j \<le> 64" "aligned p k" "aligned a j"
  obtains c where "common_ancestor (p, pmask k) (a, pmask j) = Some (p AND pmask c, pmask c)"
    "c \<le> 64" "k \<le> c" "j \<le> c" "blk p c = blk a c"
    "c = k \<or> c = j \<or> (0 < c \<and> bit p (c - 1) \<noteq> bit a (c - 1))"
proof -
  let ?m = "pmask (max k j)"
  let ?lz = "leading_zeros ((p AND ?m) XOR (a AND ?m))"
  let ?c = "max (64 - ?lz) (max k j)"
  have hi: "(if ?lz = 0 then Some 0 else shl (-1) (64 - ?lz)) = Some (pmask (64 - ?lz))"
    by (simp add: shl_pmask)
  have same: "blk p ?c = blk a ?c"
  proof -
    have "bit p i = bit a i" if "?c \<le> i" for i
      using that bit_above_leading_zeros [of "(p AND ?m) XOR (a AND ?m)" i]
      by (cases "i < 64") (auto simp: bit_xor_iff bit_and_iff bit_pmask dest: bit_imp_le_length)
    then show ?thesis by (auto simp: blk_def)
  qed
  then have "p AND pmask ?c = a AND pmask ?c" using blk_eq_mask blk_self by blast
  then have ca: "common_ancestor (p, pmask k) (a, pmask j) = Some (p AND pmask ?c, pmask ?c)"
    unfolding common_ancestor_def Let_def prod.case pmask_and hi Option.bind.simps
    using assms by (simp add: pmask_and aligned_not_mask)
  have "bit p (?c - 1) \<noteq> bit a (?c - 1)" if "?c \<noteq> max k j"
  proof -
    have lz: "?lz < 64" "max k j < 64 - ?lz" using that by linarith+
    show ?thesis
      using bit_at_leading_zeros [OF lz(1)] lz by (auto simp: bit_xor_iff bit_and_iff bit_pmask)
  qed
  then show thesis using that [of ?c] ca same assms by (auto simp: max_def split: if_splits)
qed

lemma split_bit_zero [simp]: "i < 64 \<Longrightarrow> a AND 2 ^ i = 0 \<longleftrightarrow> \<not> bit a i" for a :: u64
  by (simp add: and_exp_eq_0_iff_not_bit)

lemma shl_one [simp]: "i < 64 \<Longrightarrow> shl 1 i = Some (2 ^ i)"
  by (simp add: shl_def push_bit_eq_mult)

lemma release_dfs_into:
  assumes "common_ancestor (p, pmask k) (a, msk) = Some (q, pmask k)" "pmask k \<noteq> msk"
    "0 < k" "k \<le> 64"
  shows "release_dfs (Some (Node p (pmask k) (Fork zero one))) a msk =
    (if bit a (k - 1) then do {
       (inserted, one') \<leftarrow> release_dfs one a msk;
       node \<leftarrow> maybe_compact (Node p (pmask k) (Fork zero one'));
       Some (inserted, Some node)
     } else do {
       (inserted, zero') \<leftarrow> release_dfs zero a msk;
       node \<leftarrow> maybe_compact (Node p (pmask k) (Fork zero' one));
       Some (inserted, Some node)
     })"
proof -
  have "k - 1 < 64" using assms(3,4) by simp
  then show ?thesis
    unfolding release_dfs.simps assms(1) Option.bind.simps prod.case trailing_zeros_pmask [OF assms(4)]
    using assms(2,3) by simp
qed

lemma release_dfs_above:
  assumes "common_ancestor (p, pmask k) (a, pmask j) = Some (q, pmask c)" "aligned q c" "aligned a j"
    "j < c" "k < c" "c \<le> 64"
  shows "release_dfs (Some (Node p (pmask k) nx)) a (pmask j) = do {
    node \<leftarrow> maybe_compact (Node q (pmask c)
      (if bit a (c - 1) then Fork (Some (Node p (pmask k) nx)) (Some (Node a (pmask j) Leaf))
       else Fork (Some (Node a (pmask j) Leaf)) (Some (Node p (pmask k) nx))));
    Some (True, Some node) }"
proof -
  have c: "c - 1 < 64" "pmask c \<noteq> pmask j" "pmask c \<noteq> pmask k" "0 < c"
    using assms(4-6) by (simp_all add: pmask_inj)
  then show ?thesis
    unfolding release_dfs.simps assms(1) Option.bind.simps prod.case trailing_zeros_pmask [OF assms(6)]
    using assms(2-6) by (simp add: Let_def del: maybe_compact.simps)
qed

text \<open>
  Releasing into a node: the block goes into the half its bit selects, or a new parent is put
  above the node and the block.
\<close>

lemma release_split:
  assumes "trie_inv (Some n)" "n = Node p (pmask k) nx" "k \<le> 64" "aligned p k" "j \<le> 64" "aligned a j"
    and ca: "common_ancestor (p, pmask k) (a, pmask j) = Some (p AND pmask c, pmask c)"
    and c: "c \<le> 64" "k < c" "j < c" "blk p c = blk a c" "bit p (c - 1) \<noteq> bit a (c - 1)"
  shows "\<exists>n'. release_dfs (Some n) a (pmask j) = Some (True, Some n') \<and> trie_inv (Some n')
    \<and> free_in (Some n') = free_in (Some n) \<union> blk a j"
proof -
  let ?q = "p AND pmask c"
  let ?l = "Node a (pmask j) Leaf"
  have q: "blk ?q c = blk p c" by (simp add: block_simps)
  have fn: "free_in (Some n) \<subseteq> half (bit p (c - 1)) ?q (c - 1)"
  proof -
    have "blk p k \<subseteq> half (bit p (c - 1)) ?q (c - 1)"
      using q c(2) by (intro blk_in_pred_half) auto
    then show ?thesis
      using free_subset_node [OF assms(1) refl] assms(2,3) by (auto simp: trailing_zeros_pmask)
  qed
  have fa: "blk a j \<subseteq> half (bit a (c - 1)) ?q (c - 1)"
    using q c(3,4) by (intro blk_in_pred_half) auto
  have l: "trie_inv (Some ?l)" "free_in (Some ?l) = blk a j"
    using assms(5,6) by (auto simp: trailing_zeros_pmask)
  have step: "release_dfs (Some n) a (pmask j) = do {
      node \<leftarrow> maybe_compact (Node ?q (pmask c)
        (if bit a (c - 1) then Fork (Some n) (Some ?l) else Fork (Some ?l) (Some n)));
      Some (True, Some node) }"
    using release_dfs_above [OF ca _ assms(6)] c assms(2) by simp
  show ?thesis
  proof (cases "bit a (c - 1)")
    case True
    then show ?thesis unfolding step
      using maybe_compact_ok [of n ?l c ?q] assms(1) l fn fa c by auto
  next
    case False
    then show ?thesis unfolding step
      using maybe_compact_ok [of ?l n c ?q] assms(1) l fn fa c by auto
  qed
qed

lemma release_node:
  assumes inv: "trie_inv (Some (Node p m nx))" and j: "j \<le> 64" "aligned a j"
    and disj: "blk a j \<inter> free_in (Some (Node p m nx)) = {}"
    and into: "\<And>k. m = pmask k \<Longrightarrow> k \<le> 64 \<Longrightarrow> aligned p k \<Longrightarrow> j < k \<Longrightarrow> a \<in> blk p k \<Longrightarrow>
      common_ancestor (p, pmask k) (a, pmask j) = Some (p, pmask k) \<Longrightarrow>
      \<exists>n. release_dfs (Some (Node p m nx)) a (pmask j) = Some (True, Some n) \<and> trie_inv (Some n)
        \<and> free_in (Some n) = free_in (Some (Node p m nx)) \<union> blk a j"
  shows "\<exists>n. release_dfs (Some (Node p m nx)) a (pmask j) = Some (True, Some n) \<and> trie_inv (Some n)
    \<and> free_in (Some n) = free_in (Some (Node p m nx)) \<union> blk a j"
proof -
  let ?t = "Some (Node p m nx)"
  obtain k where k: "k \<le> 64" "m = pmask k" "aligned p k"
    using trie_inv_prefix [OF inv] by (auto elim: valid_prefixE)
  obtain c where c: "common_ancestor (p, pmask k) (a, pmask j) = Some (p AND pmask c, pmask c)"
    "c \<le> 64" "k \<le> c" "j \<le> c" "blk p c = blk a c"
    "c = k \<or> c = j \<or> (0 < c \<and> bit p (c - 1) \<noteq> bit a (c - 1))"
    by (rule common_ancestor_ok [OF k(1) j(1) k(3) j(2)])
  have sub: "free_in ?t \<subseteq> blk p k"
    using free_subset_node [OF inv refl] k by (simp add: trailing_zeros_pmask)
  have "blk p k \<subseteq> blk a c" using c(3,5) blk_mono blk_self by blast
  then have "c \<noteq> j" using sub disj free_nonempty [OF inv] by blast
  show ?thesis
  proof (cases "c = k")
    case True
    have "a \<in> blk p k" using c(5) True blk_self by blast
    then show ?thesis using into [OF k(2,1,3)] c True k(3) \<open>c \<noteq> j\<close> by (simp add: aligned_def)
  next
    case False
    then show ?thesis
      using release_split [OF inv _ k(1,3) j c(1,2) _ _ c(5)] c k \<open>c \<noteq> j\<close> by simp
  qed
qed

lemma release_fork:
  assumes inv: "trie_inv (Some z)" "trie_inv (Some y)" and k: "0 < k" "k \<le> 64" "aligned p k"
    and sub: "free_in (Some z) \<subseteq> half False p (k - 1)" "free_in (Some y) \<subseteq> half True p (k - 1)"
    and fa: "blk a j \<subseteq> half (bit a (k - 1)) p (k - 1)"
    and ca: "common_ancestor (p, pmask k) (a, msk) = Some (p, pmask k)" "pmask k \<noteq> msk"
    and n: "release_dfs (Some (if bit a (k - 1) then y else z)) a msk = Some (True, Some n)"
      "trie_inv (Some n)" "free_in (Some n) = free_in (Some (if bit a (k - 1) then y else z)) \<union> blk a j"
  shows "\<exists>v. release_dfs (Some (Node p (pmask k) (Fork (Some z) (Some y)))) a msk = Some (True, Some v)
    \<and> trie_inv (Some v) \<and> free_in (Some v) = free_in (Some z) \<union> free_in (Some y) \<union> blk a j"
proof (cases "bit a (k - 1)")
  case True
  have "free_in (Some n) \<subseteq> half True p (k - 1)" using True n(3) sub(2) fa by simp
  then obtain v where "maybe_compact (Node p (pmask k) (Fork (Some z) (Some n))) = Some v"
    "trie_inv (Some v)" "free_in (Some v) = free_in (Some z) \<union> free_in (Some n)"
    using maybe_compact_ok inv(1) n(2) k sub(1) by blast
  then show ?thesis
    unfolding release_dfs_into [OF ca k(1,2)] using True n(1,3) by (simp add: Un_assoc del: maybe_compact.simps)
next
  case False
  have "free_in (Some n) \<subseteq> half False p (k - 1)" using False n(3) sub(1) fa by simp
  then obtain v where "maybe_compact (Node p (pmask k) (Fork (Some n) (Some y))) = Some v"
    "trie_inv (Some v)" "free_in (Some v) = free_in (Some n) \<union> free_in (Some y)"
    using maybe_compact_ok inv(2) n(2) k sub(2) by blast
  then show ?thesis
    unfolding release_dfs_into [OF ca k(1,2)] using False n(1,3) by (simp add: Un_ac del: maybe_compact.simps)
qed

lemma release_dfs_ok:
  assumes "trie_inv t" "j \<le> 64" "aligned a j" "blk a j \<inter> free_in t = {}"
  shows "\<exists>n. release_dfs t a (pmask j) = Some (True, Some n) \<and> trie_inv (Some n)
    \<and> free_in (Some n) = free_in t \<union> blk a j"
  using assms(1,4)
proof (induction t rule: trie_inv.induct)
  case 1
  then show ?case using assms by (simp add: trailing_zeros_pmask)
next
  case (2 p m)
  have no: False if "m = pmask k" "k \<le> 64" "a \<in> blk p k" for k
    using 2(2) that blk_self [of a j] by (auto simp: trailing_zeros_pmask)
  show ?case by (rule release_node [OF 2(1) assms(2,3) 2(2)]) (use no in blast)
next
  case (3 p m zero one)
  show ?case
  proof (rule release_node [OF 3(3) assms(2,3) 3(4)], goal_cases)
    case (1 k)
    from 3(3) obtain z y where *: "zero = Some z" "one = Some y" "trie_inv (Some z)"
      "trie_inv (Some y)" "child_ok p m False (Some z)" "child_ok p m True (Some y)"
      by (rule trie_inv_ForkE)
    let ?c = "if bit a (k - 1) then y else z"
    have disj: "blk a j \<inter> free_in zero = {}" "blk a j \<inter> free_in one = {}" using 3(4) by auto
    have "\<exists>n. release_dfs (Some ?c) a (pmask j) = Some (True, Some n) \<and> trie_inv (Some n)
      \<and> free_in (Some n) = free_in (Some ?c) \<union> blk a j"
      using 3(1) [OF _ disj(1)] 3(2) [OF _ disj(2)] *(1-4) by (cases "bit a (k - 1)") simp_all
    then obtain n where "release_dfs (Some ?c) a (pmask j) = Some (True, Some n)" "trie_inv (Some n)"
      "free_in (Some n) = free_in (Some ?c) \<union> blk a j" by blast
    moreover have "free_in (Some z) \<subseteq> half False p (k - 1)" "free_in (Some y) \<subseteq> half True p (k - 1)"
      using child_free_subset *(3-6) 1(1,2) by blast+
    moreover have "blk a j \<subseteq> half (bit a (k - 1)) p (k - 1)"
      using 1(4,5) by (intro blk_in_pred_half)
    moreover have "pmask k \<noteq> pmask j" using 1(2,4) assms(2) by (simp add: pmask_inj)
    ultimately show ?case
      using release_fork [OF *(3,4) _ 1(2,3) _ _ _ 1(6)] 1(1,4) *(1,2) by simp
  qed
qed

text \<open>The blocks left over when a leaf of size \<open>k\<close> is cut down to size \<open>j\<close>.\<close>

lemma aligned_halves:
  assumes "aligned p k" "i < k" "k \<le> 64"
  shows "half False p i = blk p i" "half True p i = blk (p OR 2 ^ i) i" "aligned (p OR 2 ^ i) i"
proof -
  have "\<not> bit p i" "i < 64" using assms by (auto simp: aligned_bits)
  then have "p \<in> half False p i" "p OR 2 ^ i \<in> half True p i"
    by (auto simp: half_def blk_def bit_or_iff bit_exp_iff)
  then show "half False p i = blk p i" "half True p i = blk (p OR 2 ^ i) i"
    by (auto simp: half_of_member)
  show "aligned (p OR 2 ^ i) i" using assms by (auto simp: aligned_bits bit_or_iff bit_exp_iff)
qed

lemma left_over_loop_ok:
  assumes "trie_inv (Some n)" "free_in (Some n) = blk p i - blk p j" "j < i" "i \<le> k" "k \<le> 64" "aligned p k"
  shows "\<exists>n'. left_over_loop p [i..<k] (Some n) = Some (Some n') \<and> trie_inv (Some n')
    \<and> free_in (Some n') = blk p k - blk p j"
  using assms
proof (induction "k - i" arbitrary: i n)
  case 0
  then show ?case by simp
next
  case (Suc d)
  let ?one = "Node (p OR 2 ^ i) (pmask i) Leaf"
  let ?up = "Node p (pmask (Suc i)) (Fork (Some n) (Some ?one))"
  have i: "i < k" "i < 64" using Suc by simp_all
  have al: "aligned p (Suc i)" using Suc.prems(6) i by (auto simp: aligned_bits)
  note halves = aligned_halves [OF Suc.prems(6) i(1) Suc.prems(5)]
  have one: "trie_inv (Some ?one)" "free_in (Some ?one) = half True p i"
    using i halves by (auto simp: trailing_zeros_pmask)
  have jsub: "blk p j \<subseteq> half False p i" "j \<le> i"
    using halves(1) Suc.prems(3) blk_mono [of p p i j] by auto
  have free_in: "free_in (Some n) \<union> free_in (Some ?one) = blk p (Suc i) - blk p j"
    using one Suc.prems(2) halves(1) jsub blk_halves [of p i] halves_disjoint [of p i] by auto
  have "trie_inv (Some ?up)"
  proof (rule trie_inv_ForkI)
    show "free_in (Some n) \<union> free_in (Some ?one) \<noteq> blk p (Suc i)"
      using free_in blk_self [of p j] blk_self [of p "Suc i"] by blast
  qed (use Suc.prems one halves al i in auto)
  moreover have "free_in (Some ?up) = blk p (Suc i) - blk p j" using free_in by simp
  ultimately have "\<exists>n'. left_over_loop p [Suc i..<k] (Some ?up) = Some (Some n') \<and> trie_inv (Some n')
    \<and> free_in (Some n') = blk p k - blk p j"
    using Suc.hyps(2) Suc.prems by (intro Suc.hyps(1)) auto
  then show ?case
    using i halves(3) al by (simp add: upt_conv_Cons shl_pmask pmask_times_2)
qed

lemma acquire_leaf:
  assumes "j < k" "k \<le> 64" "aligned p k"
  shows "\<exists>n. acquire_dfs (Some (Node p (pmask k) Leaf)) (pmask j) = Some (Some p, Some n)
    \<and> trie_inv (Some n) \<and> free_in (Some n) = blk p k - blk p j"
proof -
  let ?rest = "Node (p OR 2 ^ j) (pmask j) Leaf"
  note halves = aligned_halves [OF assms(3,1,2)]
  have "blk (p OR 2 ^ j) j = blk p (Suc j) - blk p j"
    using blk_halves [of p j] halves_disjoint [of p j] unfolding halves(1,2) by blast
  then have "trie_inv (Some ?rest)" "free_in (Some ?rest) = blk p (Suc j) - blk p j"
    using assms halves(3) by (simp_all add: trailing_zeros_pmask)
  from left_over_loop_ok [OF this _ _ assms(2,3)]
  obtain n where "left_over_loop p [Suc j..<k] (Some ?rest) = Some (Some n)" "trie_inv (Some n)"
    "free_in (Some n) = blk p k - blk p j" using assms(1) by auto
  moreover have "64 - k < 64 - j" using assms by linarith
  ultimately show ?thesis using assms halves(3) by (simp add: leading_ones_pmask trailing_zeros_pmask)
qed

definition acquired :: "trie_node option \<Rightarrow> nat \<Rightarrow> u64 option \<Rightarrow> trie_node option \<Rightarrow> bool" where
  "acquired t j out t' \<longleftrightarrow> trie_inv t' \<and> (case out of
     None \<Rightarrow> t' = t \<and> (\<forall>a. \<not> blk a j \<subseteq> free_in t)
   | Some a \<Rightarrow> aligned a j \<and> blk a j \<subseteq> free_in t \<and> free_in t' = free_in t - blk a j)"

lemma acquire_fork:
  assumes inv: "trie_inv (Some (Node p m (Fork zero one)))"
    and k: "m = pmask k" "k \<le> 64" "j < k"
    and zero: "acquire_dfs zero (pmask j) = Some (o1, z')" "acquired zero j o1 z'"
    and one: "acquire_dfs one (pmask j) = Some (o2, y')" "acquired one j o2 y'"
  shows "\<exists>out t'. acquire_dfs (Some (Node p m (Fork zero one))) (pmask j) = Some (out, t')
    \<and> acquired (Some (Node p m (Fork zero one))) j out t'"
proof -
  let ?t = "Some (Node p m (Fork zero one))"
  obtain z y where zy: "zero = Some z" "one = Some y" by (rule trie_inv_ForkE [OF inv])
  have *: "trie_inv zero" "trie_inv one" "child_ok p m False zero" "child_ok p m True one"
    "aligned p k" "0 < k" using inv k by simp_all
  have sub: "free_in zero \<subseteq> half False p (k - 1)" "free_in one \<subseteq> half True p (k - 1)"
    using child_free_subset * k zy by blast+
  then have disj: "free_in zero \<inter> free_in one = {}" and all: "free_in zero \<union> free_in one \<subseteq> blk p k"
    using halves_disjoint [of p "k - 1"] blk_pred_halves [of k p] *(6) by auto
  have lo: "leading_ones m < leading_ones (pmask j)"
    using k by (auto simp: leading_ones_pmask)
  have put: "trie_inv (Some (Node p m (Fork (Some z2) (Some y2))))"
    if "trie_inv (Some z2)" "trie_inv (Some y2)" "free_in (Some z2) \<subseteq> free_in zero"
      "free_in (Some y2) \<subseteq> free_in one" "free_in (Some z2) \<union> free_in (Some y2) = free_in zero \<union> free_in one - blk a j"
      "blk a j \<subseteq> free_in zero \<union> free_in one" for z2 y2 a
    unfolding k(1)
  proof (rule trie_inv_ForkI)
    show "free_in (Some z2) \<union> free_in (Some y2) \<noteq> blk p k"
      using that(5,6) all blk_self [of a j] by blast
  qed (use that sub * k in auto)
  show ?thesis
  proof (cases o1)
    case (Some a)
    have "acquired ?t j (Some a) (case z' of None \<Rightarrow> one | Some z2 \<Rightarrow> Some (Node p m (Fork z' one)))"
      using zero(2) put [of _ y a] disj *(2) zy(2) Some
      by (auto simp: acquired_def split: option.splits)
    then show ?thesis using zero(1) lo Some zy(2) by (cases z') auto
  next
    case None
    then have z': "z' = zero" "\<And>a. \<not> blk a j \<subseteq> free_in zero" using zero(2) by (auto simp: acquired_def)
    show ?thesis
    proof (cases o2)
      case (Some a)
      have "acquired ?t j (Some a) (case y' of None \<Rightarrow> zero | Some y2 \<Rightarrow> Some (Node p m (Fork zero y')))"
        using one(2) put [of z _ a] disj *(1) zy(1) Some
        by (auto simp: acquired_def split: option.splits)
      then show ?thesis using zero(1) one(1) lo Some None z'(1) zy(1) by (cases y') auto
    next
      case none: None
      have "\<not> blk a j \<subseteq> free_in zero \<union> free_in one" for a
      proof
        assume "blk a j \<subseteq> free_in zero \<union> free_in one"
        moreover from this have "blk a j \<subseteq> half (bit a (k - 1)) p (k - 1)"
          using all k(3) blk_self [of a j] by (intro blk_in_pred_half) auto
        ultimately have "blk a j \<subseteq> free_in zero \<or> blk a j \<subseteq> free_in one"
          using sub halves_disjoint [of p "k - 1"]
          by (cases "bit a (k - 1)") (simp_all only: simp_thms, blast+)
        then show False using z'(2) one(2) none by (auto simp: acquired_def)
      qed
      then show ?thesis
        using zero(1) one lo None none z'(1) inv zy by (auto simp: acquired_def)
    qed
  qed
qed

lemma acquire_dfs_ok:
  assumes "trie_inv t" "j \<le> 64"
  shows "\<exists>out t'. acquire_dfs t (pmask j) = Some (out, t') \<and> acquired t j out t'"
  using assms(1)
proof (induction t rule: trie_inv.induct)
  case 1
  then show ?case by (simp add: acquired_def)
next
  case (2 p m)
  then obtain k where k: "k \<le> 64" "m = pmask k" "aligned p k" by (auto elim: valid_prefixE)
  consider "k < j" | "k = j" | "j < k" by linarith
  then show ?case
  proof cases
    case 1
    then show ?thesis using 2 k assms(2) blk_subset_length [of _ j p k]
      by (auto simp: acquired_def leading_ones_pmask trailing_zeros_pmask)
  next
    case 2
    then show ?thesis using k by (simp add: acquired_def trailing_zeros_pmask)
  next
    case 3
    then obtain n where "acquire_dfs (Some (Node p m Leaf)) (pmask j) = Some (Some p, Some n)"
      "trie_inv (Some n)" "free_in (Some n) = blk p k - blk p j" using acquire_leaf k by blast
    moreover have "aligned p j" "blk p j \<subseteq> blk p k"
      using k(3) 3 blk_mono [of p p k j] by (auto simp: aligned_bits)
    ultimately show ?thesis using k by (simp add: acquired_def trailing_zeros_pmask)
  qed
next
  case (3 p m zero one)
  let ?t = "Some (Node p m (Fork zero one))"
  from 3(3) obtain k where k: "k \<le> 64" "m = pmask k" "trailing_zeros m = k"
    by (rule trie_inv_ForkE)
  have sub: "free_in ?t \<subseteq> blk p k" using free_subset_node [OF 3(3) refl] k by simp
  consider "k < j" | "k = j" | "j < k" by linarith
  then show ?case
  proof cases
    case 1
    then have "\<not> blk a j \<subseteq> free_in ?t" for a using sub blk_subset_length [of a j p k] assms(2) by auto
    then show ?thesis using 1 3(3) k assms(2) by (auto simp: acquired_def leading_ones_pmask)
  next
    case 2
    have "\<not> blk a j \<subseteq> free_in ?t" for a
    proof
      assume a: "blk a j \<subseteq> free_in ?t"
      then have "blk a j = blk p k" using sub 2 blk_same [of a p k] by auto
      then show False using full_is_leaf [OF 3(3) refl] a k by simp
    qed
    then show ?thesis using 2 3(3) k by (auto simp: acquired_def)
  next
    case jk: 3
    have inv: "trie_inv zero" "trie_inv one" using 3(3) by simp_all
    obtain o1 z' o2 y' where "acquire_dfs zero (pmask j) = Some (o1, z')" "acquired zero j o1 z'"
      "acquire_dfs one (pmask j) = Some (o2, y')" "acquired one j o2 y'"
      using 3(1) [OF inv(1)] 3(2) [OF inv(2)] by blast
    then show ?thesis by (rule acquire_fork [OF 3(3) k(2,1) jk])
  qed
qed

section \<open>The pool operations\<close>

definition pool_inv :: "trie_pool \<Rightarrow> bool" where
  "pool_inv pool = trie_inv (trie_root pool)"

definition pool_free :: "trie_pool \<Rightarrow> u64 set" where
  "pool_free pool = free_in (trie_root pool)"

lemma trie_release_ok:
  assumes "pool_inv pool" "j \<le> 64" "aligned a j" "blk a j \<inter> pool_free pool = {}"
  shows "\<exists>pool'. trie_release pool a (pmask j) = Some (True, pool') \<and> pool_inv pool'
    \<and> pool_free pool' = pool_free pool \<union> blk a j"
proof -
  obtain n where n: "release_dfs (trie_root pool) a (pmask j) = Some (True, Some n)"
    "trie_inv (Some n)" "free_in (Some n) = free_in (trie_root pool) \<union> blk a j"
    using release_dfs_ok assms unfolding pool_inv_def pool_free_def by blast
  then show ?thesis
    using assms(2,3) node_check_ok [OF n(2)]
    by (simp add: trie_release_def trie_check_def aligned_not_mask pool_inv_def pool_free_def)
qed

lemma trie_acquire_ok:
  assumes "pool_inv pool" "j \<le> 64"
  shows "\<exists>out pool'. trie_acquire pool (pmask j) = Some (out, pool') \<and> pool_inv pool' \<and> (case out of
      None \<Rightarrow> pool' = pool \<and> (\<forall>a. \<not> blk a j \<subseteq> pool_free pool)
    | Some a \<Rightarrow> aligned a j \<and> blk a j \<subseteq> pool_free pool \<and> pool_free pool' = pool_free pool - blk a j)"
proof -
  obtain out t' where t: "acquire_dfs (trie_root pool) (pmask j) = Some (out, t')"
    "acquired (trie_root pool) j out t'"
    using acquire_dfs_ok assms unfolding pool_inv_def by blast
  then have "trie_acquire pool (pmask j) = Some (out, pool\<lparr>trie_root := t'\<rparr>)"
    using assms(2) node_check_ok by (simp add: trie_acquire_def trie_check_def acquired_def)
  then show ?thesis
    using t(2) by (auto simp: acquired_def pool_inv_def pool_free_def split: option.splits)
qed

lemma trie_empty_ok [simp]: "pool_inv trie_empty" "pool_free trie_empty = {}"
  by (simp_all add: trie_empty_def pool_inv_def pool_free_def)

lemma trie_new_ok:
  assumes "j \<le> 64" "aligned a j"
  shows "\<exists>pool. trie_new a (pmask j) = Some pool \<and> pool_inv pool \<and> pool_free pool = blk a j"
  using trie_release_ok [of trie_empty j a] assms by (auto simp: trie_new_def)

lemma drain_dfs_ok:
  assumes "trie_inv t" "pool_inv other" "free_in t \<inter> pool_free other = {}"
  shows "\<exists>other'. drain_dfs t other = Some other' \<and> pool_inv other'
    \<and> pool_free other' = pool_free other \<union> free_in t"
  using assms
proof (induction t arbitrary: other rule: trie_inv.induct)
  case (2 p m)
  then obtain k where k: "k \<le> 64" "m = pmask k" "aligned p k" by (auto elim: valid_prefixE)
  then have "blk p k \<inter> pool_free other = {}" using 2(3) by (simp add: trailing_zeros_pmask)
  from trie_release_ok [OF 2(2) k(1,3) this] show ?case
    using k by (auto simp: trailing_zeros_pmask)
next
  case (3 p m zero one)
  have inv: "trie_inv zero" "trie_inv one" using 3(3) by simp_all
  from 3(3) obtain k z y where *: "0 < k" "k \<le> 64" "m = pmask k" "zero = Some z" "one = Some y"
    "trie_inv (Some z)" "trie_inv (Some y)" "child_ok p m False (Some z)" "child_ok p m True (Some y)"
    by (rule trie_inv_ForkE)
  have disj: "free_in zero \<inter> free_in one = {}"
    using child_free_subset [of p k False z] child_free_subset [of p k True y] *
      halves_disjoint [of p "k - 1"] by blast
  obtain o1 where o1: "drain_dfs zero other = Some o1" "pool_inv o1"
    "pool_free o1 = pool_free other \<union> free_in zero"
    using 3(1) [OF inv(1) 3(4)] 3(5) by auto
  then have "free_in one \<inter> pool_free o1 = {}" using disj 3(5) by auto
  then show ?case using 3(2) [OF inv(2) o1(2)] o1 by (auto simp: Un_assoc)
qed simp

lemma drain_into_ok:
  assumes "pool_inv self" "pool_inv other" "pool_free self \<inter> pool_free other = {}"
  shows "\<exists>self' other'. drain_into self other = Some (self', other') \<and> pool_inv self' \<and> pool_inv other'
    \<and> pool_free self' = {} \<and> pool_free other' = pool_free other \<union> pool_free self"
  using drain_dfs_ok [of "trie_root self" other] assms
  by (auto simp: drain_into_def trie_check_def pool_inv_def pool_free_def)

section \<open>Releasing what is already free\<close>

lemma maybe_compact_inv: "trie_inv (Some n) \<Longrightarrow> maybe_compact n = Some n"
  by (cases n rule: maybe_compact.cases) (auto simp: half_leaf_def child_ok_def)

lemma common_ancestor_inside:
  assumes "k \<le> 64" "j \<le> k" "aligned p k" "aligned a j" "a \<in> blk p k"
  shows "common_ancestor (p, pmask k) (a, pmask j) = Some (p, pmask k)"
proof -
  have "j \<le> 64" using assms(1,2) by simp
  from common_ancestor_ok [OF assms(1) this assms(3,4)]
  obtain c where c: "common_ancestor (p, pmask k) (a, pmask j) = Some (p AND pmask c, pmask c)"
    "k \<le> c" "c = k \<or> c = j \<or> (0 < c \<and> bit p (c - 1) \<noteq> bit a (c - 1))" by metis
  moreover have "bit a (c - 1) = bit p (c - 1)" if "k \<noteq> c"
    using that c(2) by (intro blkD [OF assms(5)]) simp
  ultimately have "c = k" using assms(2) by auto
  then show ?thesis using c(1) assms(3) by (simp add: aligned_def)
qed

lemma release_dfs_free:
  assumes "trie_inv t" "0 < j" "j \<le> 64" "aligned a j" "blk a j \<subseteq> free_in t"
  shows "release_dfs t a (pmask j) = Some (False, t)"
  using assms(1,5)
proof (induction t rule: trie_inv.induct)
  case (2 p m)
  then obtain k where k: "k \<le> 64" "m = pmask k" "aligned p k" by (auto elim: valid_prefixE)
  then have "blk a j \<subseteq> blk p k" using 2(2) by (simp add: trailing_zeros_pmask)
  then have "j \<le> k" "a \<in> blk p k" using blk_subset_length assms(3) by auto
  then show ?case
    using k assms(2-4) common_ancestor_inside [of k j p a]
    by (auto simp: trailing_zeros_pmask Let_def)
next
  case (3 p m zero one)
  let ?t = "Some (Node p m (Fork zero one))"
  from 3(3) obtain k z y where *: "0 < k" "k \<le> 64" "m = pmask k" "trailing_zeros m = k" "aligned p k"
    "zero = Some z" "one = Some y" "trie_inv (Some z)" "trie_inv (Some y)"
    "child_ok p m False (Some z)" "child_ok p m True (Some y)" by (rule trie_inv_ForkE)
  have "blk a j \<subseteq> blk p k" using 3(4) free_subset_node [OF 3(3) refl] *(4) by auto
  then have jk: "j \<le> k" "a \<in> blk p k" using blk_subset_length assms(3) by auto
  note ca = common_ancestor_inside [OF *(2) jk(1) *(5) assms(4) jk(2)]
  show ?case
  proof (cases "j = k")
    case True
    then show ?thesis using ca * by (simp add: trailing_zeros_pmask)
  next
    case False
    have half: "blk a j \<subseteq> half (bit a (k - 1)) p (k - 1)"
      using jk False by (intro blk_in_pred_half) auto
    have sub: "free_in zero \<subseteq> half False p (k - 1)" "free_in one \<subseteq> half True p (k - 1)"
      using child_free_subset * by blast+
    have "release_dfs (if bit a (k - 1) then one else zero) a (pmask j) =
      Some (False, if bit a (k - 1) then one else zero)"
    proof (cases "bit a (k - 1)")
      case True
      then have "blk a j \<subseteq> free_in one"
        using half sub(1) 3(4) halves_disjoint [of p "k - 1"] by auto
      then show ?thesis using 3(2) True *(7,9) by simp
    next
      case False
      then have "blk a j \<subseteq> free_in zero"
        using half sub(2) 3(4) halves_disjoint [of p "k - 1"] by auto
      then show ?thesis using 3(1) False *(6,8) by simp
    qed
    moreover have "pmask k \<noteq> pmask j" using False *(2) assms(3) by (simp add: pmask_inj)
    ultimately show ?thesis
      using release_dfs_into [OF ca _ *(1,2)] maybe_compact_inv [OF 3(3)] *(3)
      by (auto split: if_splits)
  qed
qed auto

section \<open>The allocator contract\<close>

text \<open>
  What a client of the trie relies on: the operations as total maps on the set of free addresses.
\<close>

locale block_allocator =
  fixes inv :: "'p \<Rightarrow> bool" and frees :: "'p \<Rightarrow> u64 set"
    and acquire :: "'p \<Rightarrow> u64 \<Rightarrow> (u64 option \<times> 'p) panics"
    and release :: "'p \<Rightarrow> u64 \<Rightarrow> u64 \<Rightarrow> (bool \<times> 'p) panics"
    and drain :: "'p \<Rightarrow> 'p \<Rightarrow> ('p \<times> 'p) panics"
  assumes release_law: "inv pl \<Longrightarrow> valid_prefix a m \<Longrightarrow> net_block a m \<inter> frees pl = {} \<Longrightarrow>
      \<exists>pl'. release pl a m = Some (True, pl') \<and> inv pl' \<and> frees pl' = frees pl \<union> net_block a m"
    and acquire_law: "inv pl \<Longrightarrow> valid_prefix 0 m \<Longrightarrow>
      \<exists>out pl'. acquire pl m = Some (out, pl') \<and> inv pl' \<and> (case out of
          None \<Rightarrow> pl' = pl \<and> (\<forall>a. \<not> net_block a m \<subseteq> frees pl)
        | Some a \<Rightarrow> valid_prefix a m \<and> net_block a m \<subseteq> frees pl \<and> frees pl' = frees pl - net_block a m)"
    and drain_law: "inv pl \<Longrightarrow> inv ql \<Longrightarrow> frees pl \<inter> frees ql = {} \<Longrightarrow>
      \<exists>pl' ql'. drain pl ql = Some (pl', ql') \<and> inv pl' \<and> inv ql' \<and> frees pl' = {}
        \<and> frees ql' = frees ql \<union> frees pl"
begin

lemma acquire_cases:
  assumes "inv pl" "valid_prefix 0 m"
  obtains (none) "acquire pl m = Some (None, pl)" "\<And>a. \<not> net_block a m \<subseteq> frees pl"
  | (some) a pl' where "acquire pl m = Some (Some a, pl')" "inv pl'" "valid_prefix a m"
      "net_block a m \<subseteq> frees pl" "frees pl' = frees pl - net_block a m"
proof -
  obtain out pl' where "acquire pl m = Some (out, pl')" "inv pl'" "case out of
      None \<Rightarrow> pl' = pl \<and> (\<forall>a. \<not> net_block a m \<subseteq> frees pl)
    | Some a \<Rightarrow> valid_prefix a m \<and> net_block a m \<subseteq> frees pl \<and> frees pl' = frees pl - net_block a m"
    using acquire_law [OF assms] by blast
  then show thesis using that by (cases out) simp_all
qed

lemma release_acquired:
  assumes "inv pl" "valid_prefix 0 m" "acquire pl m = Some (Some a, pl')"
  shows "\<exists>pl''. release pl' a m = Some (True, pl'') \<and> inv pl'' \<and> frees pl'' = frees pl"
proof -
  have *: "inv pl'" "valid_prefix a m" "net_block a m \<subseteq> frees pl" "frees pl' = frees pl - net_block a m"
    using assms(3) by (cases rule: acquire_cases [OF assms(1,2)]; simp)+
  then have "net_block a m \<inter> frees pl' = {}" by blast
  from release_law [OF *(1,2) this] show ?thesis using *(3,4) by (simp add: Un_absorb2)
qed

lemma acquire_free_block:
  assumes "inv pl" "valid_prefix 0 m" "net_block b m \<subseteq> frees pl"
  shows "\<exists>a pl'. acquire pl m = Some (Some a, pl')"
  using assms(3) by (cases rule: acquire_cases [OF assms(1,2)]) auto

end

lemma trie_release_mask:
  assumes "pool_inv pool" "valid_prefix a m" "net_block a m \<inter> pool_free pool = {}"
  shows "\<exists>pool'. trie_release pool a m = Some (True, pool') \<and> pool_inv pool'
    \<and> pool_free pool' = pool_free pool \<union> net_block a m"
  using assms trie_release_ok by (auto elim!: valid_prefixE simp: net_block_pmask)

lemma trie_acquire_mask:
  assumes "pool_inv pool" "valid_prefix 0 m"
  shows "\<exists>out pool'. trie_acquire pool m = Some (out, pool') \<and> pool_inv pool' \<and> (case out of
      None \<Rightarrow> pool' = pool \<and> (\<forall>a. \<not> net_block a m \<subseteq> pool_free pool)
    | Some a \<Rightarrow> valid_prefix a m \<and> net_block a m \<subseteq> pool_free pool
        \<and> pool_free pool' = pool_free pool - net_block a m)"
proof -
  obtain j where j: "j \<le> 64" "m = pmask j" using assms(2) by (auto elim: valid_prefixE)
  from trie_acquire_ok [OF assms(1) j(1)] show ?thesis
    using j(1) unfolding j(2) net_block_pmask by (simp cong: option.case_cong)
qed

interpretation trie: block_allocator pool_inv pool_free trie_acquire trie_release drain_into
  by unfold_locales (rule trie_release_mask trie_acquire_mask drain_into_ok; assumption)+

section \<open>Properties\<close>

text \<open>C26. Releasing a well-formed block none of whose addresses is free, into a trie in its
  invariant, hits no assertion, reports that the block was inserted, keeps the invariant, and adds
  exactly the addresses of the block to the free addresses.\<close>

theorem trie_release_correct:
  assumes "pool_inv pool" "valid_prefix addr m" "net_block addr m \<inter> pool_free pool = {}"
  shows "\<exists>pool'. trie_release pool addr m = Some (True, pool') \<and> pool_inv pool'
    \<and> pool_free pool' = pool_free pool \<union> net_block addr m"
  by (rule trie.release_law [OF assms])

theorem trie_release_correct_witness:
  "\<exists>pool'. trie_release trie_empty 16 (pmask 4) = Some (True, pool') \<and> pool_inv pool'
    \<and> pool_free pool' = pool_free trie_empty \<union> net_block 16 (pmask 4)"
  by (rule trie_release_correct) (simp, code_simp, simp)

text \<open>C25. Acquiring a block of a given size from a trie in its invariant hits no assertion and
  keeps the invariant. Either it returns an aligned block that was free and removes exactly its
  addresses, or it returns nothing, leaves the trie as it is, and no block of that size is free.\<close>

theorem trie_acquire_correct:
  assumes "pool_inv pool" "valid_prefix 0 m"
  shows "\<exists>out pool'. trie_acquire pool m = Some (out, pool') \<and> pool_inv pool' \<and> (case out of
      None \<Rightarrow> pool' = pool \<and> (\<forall>a. \<not> net_block a m \<subseteq> pool_free pool)
    | Some a \<Rightarrow> valid_prefix a m \<and> net_block a m \<subseteq> pool_free pool
        \<and> pool_free pool' = pool_free pool - net_block a m)"
  by (rule trie.acquire_law [OF assms])

definition two_blocks :: trie_pool where
  "two_blocks = \<lparr>trie_root = Some (Node 0 (pmask 6) (Fork (Some (Node 0 (pmask 2) Leaf))
     (Some (Node 32 (pmask 5) Leaf))))\<rparr>"

lemma two_blocks_inv: "pool_inv two_blocks"
  by code_simp

theorem trie_acquire_correct_witness:
  "\<exists>out pool'. trie_acquire two_blocks (pmask 3) = Some (out, pool') \<and> pool_inv pool' \<and> (case out of
      None \<Rightarrow> pool' = two_blocks \<and> (\<forall>a. \<not> net_block a (pmask 3) \<subseteq> pool_free two_blocks)
    | Some a \<Rightarrow> valid_prefix a (pmask 3) \<and> net_block a (pmask 3) \<subseteq> pool_free two_blocks
        \<and> pool_free pool' = pool_free two_blocks - net_block a (pmask 3))"
  by (rule trie_acquire_correct [OF two_blocks_inv]) (simp add: aligned_def)

text \<open>Releasing again a block of at least two addresses that is already free is refused
  without an assertion: the trie does not change.\<close>

theorem trie_release_refused:
  assumes "pool_inv pool" "valid_prefix addr m" "m \<noteq> -1" "net_block addr m \<subseteq> pool_free pool"
  shows "trie_release pool addr m = Some (False, pool)"
proof -
  obtain j where j: "j \<le> 64" "m = pmask j" "aligned addr j" using assms(2) by (rule valid_prefixE)
  then have "0 < j" using assms(3) by (cases j) auto
  then show ?thesis
    using release_dfs_free [of "trie_root pool" j addr] assms(1,4) j node_check_ok
    by (simp add: trie_release_def trie_check_def pool_inv_def pool_free_def net_block_pmask aligned_not_mask)
qed

lemma two_blocks_member: "40 AND pmask 5 = 32 AND pmask 5"
  by code_simp

theorem trie_release_refused_witness:
  "trie_release two_blocks 40 (pmask 3) = Some (False, two_blocks)"
proof (rule trie_release_refused [OF two_blocks_inv])
  show "net_block 40 (pmask 3) \<subseteq> pool_free two_blocks"
    using blk_mono [of 40 32 5 3] blk_eq_mask [of 40 32 5, THEN iffD2, OF two_blocks_member]
    by (auto simp: net_block_pmask pool_free_def two_blocks_def trailing_zeros_pmask)
qed code_simp+

text \<open>Releasing a single address twice does not reach the branch that refuses a block already
  in the pool: the assertion on the length of the common prefix panics first.\<close>

theorem trie_release_host_twice_panics:
  "\<exists>pool. trie_new addr (-1) = Some pool \<and> pool_free pool = {addr} \<and> trie_release pool addr (-1) = None"
proof -
  have al: "aligned addr 0" by (simp add: aligned_def)
  have new: "trie_new addr (pmask 0) = Some \<lparr>trie_root = Some (Node addr (pmask 0) Leaf)\<rparr>"
    using al node_check_ok [of "Some (Node addr (pmask 0) Leaf)"]
    by (simp add: trie_new_def trie_release_def trie_empty_def trie_check_def aligned_not_mask
        del: pmask_0 node_check_invariants.simps)
  have "common_ancestor (addr, pmask 0) (addr, pmask 0) = Some (addr, pmask 0)"
    by (rule common_ancestor_inside [OF _ _ al al]) auto
  then have "trie_release \<lparr>trie_root = Some (Node addr (pmask 0) Leaf)\<rparr> addr (pmask 0) = None"
    using trailing_zeros_pmask [of 0] by (simp add: trie_release_def)
  then show ?thesis using new by (simp add: pool_free_def block_simps trailing_zeros_pmask [of 0, simplified])
qed

end
