(* ===== verification/Subnet.thy ===== *)
theory Subnet
  imports Address
begin

text \<open>
  Network masks and network addresses, \<^verbatim>\<open>libs/mm1-address/src/subnet.rs\<close>, with the parser of
  \<^verbatim>\<open>u8\<close> and \<^verbatim>\<open>str::split_once\<close> of the standard library.
\<close>

unbundle bit_operations_syntax

datatype net_mask = NetMask (bits_fixed: u8)

record net_address =
  na_address :: address
  na_mask :: net_mask

datatype int_error_kind = Empty | InvalidDigit | PosOverflow

datatype mask_parse_error = InvalidMask u8 | ParseIntError int_error_kind

datatype net_address_parse_error = NoSlash | ParseAddrError | ParseMaskError mask_parse_error

definition ADDRESS_BITS :: u8 where "ADDRESS_BITS = 64"

definition bits_available :: "net_mask \<Rightarrow> u8 panics" where
  "bits_available m = (if bits_fixed m \<le> ADDRESS_BITS then Some (ADDRESS_BITS - bits_fixed m) else None)"

definition mask_into_u64 :: "net_mask \<Rightarrow> u64 panics" where
  "mask_into_u64 m = (let n = unat (bits_fixed m) in
     if n = 0 then Some 0
     else if 64 < n then None
     else shl (-1) (64 - n))"

definition mask_try_from :: "u8 \<Rightarrow> u8 + net_mask" where
  "mask_try_from v = (if v \<le> ADDRESS_BITS then Inr (NetMask v) else Inl v)"

definition mask_valid :: "net_mask \<Rightarrow> bool" where
  "mask_valid m \<longleftrightarrow> bits_fixed m \<le> ADDRESS_BITS"

definition mask_width :: "net_mask \<Rightarrow> nat" where
  "mask_width m = 64 - unat (bits_fixed m)"

section \<open>Parsing and printing a byte\<close>

definition to_digit10 :: "char \<Rightarrow> nat option" where
  "to_digit10 c = (let n = of_char c in if 48 \<le> n \<and> n \<le> 57 then Some (n - 48) else None)"

fun parse_u8_loop :: "nat \<Rightarrow> string \<Rightarrow> int_error_kind + u8" where
  "parse_u8_loop result [] = Inr (of_nat result)"
| "parse_u8_loop result (c # cs) =
     (case to_digit10 c of
        None \<Rightarrow> Inl InvalidDigit
      | Some d \<Rightarrow>
          if 255 < result * 10 then Inl PosOverflow
          else if 255 < result * 10 + d then Inl PosOverflow
          else parse_u8_loop (result * 10 + d) cs)"

definition parse_u8 :: "string \<Rightarrow> int_error_kind + u8" where
  "parse_u8 s =
     (if s = [] then Inl Empty
      else if s = ''+'' \<or> s = ''-'' then Inl InvalidDigit
      else if hd s = CHR ''+'' then parse_u8_loop 0 (tl s)
      else parse_u8_loop 0 s)"

definition digit_char :: "nat \<Rightarrow> char" where
  "digit_char d = char_of (48 + d)"

definition display_u8 :: "u8 \<Rightarrow> string" where
  "display_u8 v = (let n = unat v in
     if n < 10 then [digit_char n]
     else if n < 100 then [digit_char (n div 10), digit_char (n mod 10)]
     else [digit_char (n div 100), digit_char (n div 10 mod 10), digit_char (n mod 10)])"

section \<open>Parsing and printing masks and network addresses\<close>

definition mask_from_str :: "string \<Rightarrow> mask_parse_error + net_mask" where
  "mask_from_str s = (case parse_u8 s of
     Inl e \<Rightarrow> Inl (ParseIntError e)
   | Inr v \<Rightarrow> (case mask_try_from v of Inl i \<Rightarrow> Inl (InvalidMask i) | Inr m \<Rightarrow> Inr m))"

definition display_mask :: "net_mask \<Rightarrow> string" where
  "display_mask m = display_u8 (bits_fixed m)"

fun split_once :: "char \<Rightarrow> string \<Rightarrow> (string \<times> string) option" where
  "split_once c [] = None"
| "split_once c (x # xs) = (if x = c then Some ([], xs)
     else map_option (\<lambda>(l, r). (x # l, r)) (split_once c xs))"

definition net_from_str :: "string \<Rightarrow> net_address_parse_error + net_address" where
  "net_from_str s = (case split_once (CHR ''/'') s of
     None \<Rightarrow> Inl NoSlash
   | Some (addr, msk) \<Rightarrow> (case address_from_str addr of
       None \<Rightarrow> Inl ParseAddrError
     | Some address \<Rightarrow> (case mask_from_str msk of
         Inl e \<Rightarrow> Inl (ParseMaskError e)
       | Inr m \<Rightarrow> Inr \<lparr>na_address = address, na_mask = m\<rparr>)))"

definition display_net :: "net_address \<Rightarrow> string panics" where
  "display_net net = do {
     a \<leftarrow> to_chars (na_address net);
     Some (a @ ''/'' @ display_mask (na_mask net))
   }"

definition net_of_address :: "address \<Rightarrow> net_address" where
  "net_of_address a = \<lparr>na_address = a, na_mask = NetMask 64\<rparr>"

definition net_valid :: "net_address \<Rightarrow> bool" where
  "net_valid net \<longleftrightarrow> mask_valid (na_mask net)"

section \<open>Masks are prefix masks\<close>

lemma mask_valid_unat: "mask_valid m \<longleftrightarrow> unat (bits_fixed m) \<le> 64"
  by (simp add: mask_valid_def ADDRESS_BITS_def word_le_nat_alt)

lemma mask_into_u64_valid:
  assumes "mask_valid m"
  shows "mask_into_u64 m = Some (pmask (mask_width m))"
  using assms by (auto simp: mask_into_u64_def mask_valid_unat mask_width_def shl_pmask Let_def)

lemma mask_width_le [simp]: "mask_width m \<le> 64"
  by (simp add: mask_width_def)

lemma mask_try_from_valid: "mask_try_from v = Inr m \<Longrightarrow> mask_valid m"
  by (auto simp: mask_try_from_def mask_valid_def split: if_splits)

section \<open>Round trips\<close>

lemma digit_char_all: "\<forall>d\<in>set [0..<10]. to_digit10 (digit_char d) = Some d
    \<and> digit_char d \<noteq> CHR ''+'' \<and> digit_char d \<noteq> CHR ''-''"
  by code_simp

lemma digit_char [simp]:
  "d < 10 \<Longrightarrow> to_digit10 (digit_char d) = Some d"
  "d < 10 \<Longrightarrow> digit_char d \<noteq> CHR ''+''"
  "d < 10 \<Longrightarrow> digit_char d \<noteq> CHR ''-''"
  using digit_char_all by simp_all

lemma parse_u8_digit:
  "d < 10 \<Longrightarrow> result * 10 + d \<le> 255 \<Longrightarrow>
    parse_u8_loop result (digit_char d # cs) = parse_u8_loop (result * 10 + d) cs"
  by simp

lemma parse_u8_skip:
  "d < 10 \<Longrightarrow> parse_u8 (digit_char d # cs) = parse_u8_loop 0 (digit_char d # cs)"
  by (simp add: parse_u8_def del: parse_u8_loop.simps)

lemma parse_display_u8: "parse_u8 (display_u8 v) = Inr v"
proof -
  define n where "n = unat v"
  define h t u where "h = n div 10 div 10" "t = n div 10 mod 10" "u = n mod 10"
  have n: "n < 256" using unsigned_less [of v, where 'a = nat] by (simp add: n_def)
  have tens: "n div 10 = h * 10 + t" and ones: "n = (h * 10 + t) * 10 + u"
    by (simp_all add: h_t_u_def)
  have small: "t < 10" "u < 10" "h < 10" "n div 100 = h" using n
    by (auto simp: h_t_u_def div_mult2_eq)
  consider "n < 10" | "10 \<le> n" "n < 100" | "100 \<le> n" by linarith
  then have "parse_u8 (display_u8 v) = Inr (of_nat n)"
  proof cases
    case 1
    then show ?thesis by (simp add: display_u8_def n_def [symmetric] parse_u8_skip)
  next
    case 2
    then have "h = 0" "n div 10 = t" using tens ones by simp_all
    then show ?thesis using 2 small n ones
      by (simp add: display_u8_def n_def [symmetric] h_t_u_def(3) [symmetric] parse_u8_skip)
  next
    case 3
    then have "display_u8 v = [digit_char h, digit_char t, digit_char u]"
      unfolding display_u8_def n_def [symmetric] Let_def small(4) h_t_u_def(2,3) by simp
    then show ?thesis using small n ones by (simp add: parse_u8_skip)
  qed
  then show ?thesis by (simp add: n_def)
qed

lemma split_once_append: "c \<notin> set xs \<Longrightarrow> split_once c (xs @ c # ys) = Some (xs, ys)"
  by (induction xs) auto

lemma hex_digit_no_slash: "\<forall>d\<in>set [0..<16]. from_digit16 d \<noteq> Some (CHR ''/'')"
  by code_simp

lemma hex_chars_no_slash: "hex_chars ds = Some cs \<Longrightarrow> CHR ''/'' \<notin> set cs"
proof (induction ds arbitrary: cs)
  case (Cons d ds)
  then obtain c where "from_digit16 d = Some c" by (cases "from_digit16 d") auto
  moreover from this have "d \<in> set [0..<16]" by (auto simp: from_digit16_def split: if_splits)
  ultimately show ?case using Cons hex_digit_no_slash by (auto split: bind_splits)
qed simp

lemma to_chars_no_slash: "to_chars u = Some s \<Longrightarrow> CHR ''/'' \<notin> set s"
  by (auto simp: to_chars_def CH_OPEN_def CH_CLOSE_def CH_GAP_def Let_def
      split: bind_splits if_splits dest: hex_chars_no_slash)

section \<open>Properties\<close>

text \<open>C37. The textual form of every address parses back to that address: printing never panics,
  whichever run of zeros is compressed, and the parser inverts it.\<close>

theorem address_print_parse:
  "\<exists>s. to_chars u = Some s \<and> address_from_str s = Some u"
  by (rule to_chars_parse)

text \<open>The textual form of every network address with a valid mask parses back to it.\<close>

theorem net_address_print_parse:
  assumes "net_valid net"
  shows "\<exists>s. display_net net = Some s \<and> net_from_str s = Inr net"
proof -
  obtain s where s: "to_chars (na_address net) = Some s" "address_from_str s = Some (na_address net)"
    using to_chars_parse by blast
  have "mask_from_str (display_mask (na_mask net)) = Inr (na_mask net)"
    using assms by (simp add: mask_from_str_def display_mask_def parse_display_u8 mask_try_from_def
        net_valid_def mask_valid_def)
  then show ?thesis
    using s split_once_append [OF to_chars_no_slash [OF s(1)]]
    by (simp add: display_net_def net_from_str_def)
qed

theorem net_address_print_parse_witness:
  "\<exists>s. display_net \<lparr>na_address = 0xFF0000FF00FF00, na_mask = NetMask 60\<rparr> = Some s
    \<and> net_from_str s = Inr \<lparr>na_address = 0xFF0000FF00FF00, na_mask = NetMask 60\<rparr>"
  by (rule net_address_print_parse) (simp add: net_valid_def mask_valid_def ADDRESS_BITS_def)

text \<open>A mask that passed validation, whether built from a byte or parsed from text, converts
  to a prefix mask of its length: the conversion neither panics nor yields a mask with holes.\<close>

theorem parsed_mask_is_prefix:
  assumes "mask_from_str s = Inr m \<or> mask_try_from v = Inr m"
  shows "\<exists>k\<le>64. unat (bits_fixed m) = 64 - k \<and> mask_into_u64 m = Some (pmask k)"
proof -
  have "mask_valid m"
    using assms by (auto simp: mask_from_str_def split: sum.splits intro: mask_try_from_valid)
  then show ?thesis
    using mask_into_u64_valid [of m]
    by (intro exI [of _ "mask_width m"]) (auto simp: mask_width_def mask_valid_unat)
qed

theorem parsed_mask_is_prefix_witness:
  "\<exists>k\<le>64. unat (bits_fixed (NetMask 56)) = 64 - k \<and> mask_into_u64 (NetMask 56) = Some (pmask k)"
  by (rule parsed_mask_is_prefix [of "''56''" _ 56]) code_simp

end
