(* ===== verification/Address_Range.thy ===== *)
theory Address_Range
  imports Subnet
begin

text \<open>
  Address ranges, \<^verbatim>\<open>libs/mm1-address/src/address_range.rs\<close>: intervals made from network
  addresses, compared so that overlapping ranges are equal.
\<close>

unbundle bit_operations_syntax

datatype ordering = Less | Equal | Greater

fun ordering_reverse :: "ordering \<Rightarrow> ordering" where
  "ordering_reverse Less = Greater"
| "ordering_reverse Equal = Equal"
| "ordering_reverse Greater = Less"

definition cmp :: "'a::linorder \<Rightarrow> 'a \<Rightarrow> ordering" where
  "cmp a b = (if a < b then Less else if a = b then Equal else Greater)"

record address_range =
  range_lo :: address
  range_hi :: address

definition range_new :: "address \<Rightarrow> address \<Rightarrow> address_range panics" where
  "range_new lo hi = do {
     assert_that (lo \<le> hi);
     Some \<lparr>range_lo = lo, range_hi = hi\<rparr>
   }"

definition range_of_address :: "address \<Rightarrow> address_range panics" where
  "range_of_address a = range_new a a"

definition range_of_net :: "net_address \<Rightarrow> address_range panics" where
  "range_of_net net = do {
     m \<leftarrow> mask_into_u64 (na_mask net);
     let lo = na_address net;
     let hi = na_address net OR NOT m;
     range_new lo hi
   }"

definition net_of_range :: "address_range \<Rightarrow> net_address panics" where
  "net_of_range r = do {
     let mask_bits = NOT (range_lo r XOR range_hi r);
     m \<leftarrow> (case mask_try_from (of_nat (leading_ones mask_bits)) of Inl _ \<Rightarrow> None | Inr m \<Rightarrow> Some m);
     Some \<lparr>na_address = range_lo r, na_mask = m\<rparr>
   }"

definition range_cmp :: "address_range \<Rightarrow> address_range \<Rightarrow> ordering" where
  "range_cmp self other =
     (case (cmp (range_hi self) (range_lo other), cmp (range_lo self) (range_hi other)) of
        (Less, Less) \<Rightarrow> Less
      | (Greater, Greater) \<Rightarrow> Greater
      | _ \<Rightarrow> Equal)"

definition range_eq :: "address_range \<Rightarrow> address_range \<Rightarrow> bool" where
  "range_eq self other \<longleftrightarrow> range_cmp self other = Equal"

section \<open>Ranges as intervals\<close>

definition range_ok :: "address_range \<Rightarrow> bool" where
  "range_ok r \<longleftrightarrow> range_lo r \<le> range_hi r"

definition range_set :: "address_range \<Rightarrow> address set" where
  "range_set r = {range_lo r..range_hi r}"

lemma range_cmp_Equal:
  "range_ok r \<Longrightarrow> range_ok s \<Longrightarrow> range_cmp r s = Equal \<longleftrightarrow> range_set r \<inter> range_set s \<noteq> {}"
  by (auto simp: range_cmp_def range_ok_def range_set_def cmp_def split: ordering.splits if_splits)

lemma range_cmp_Less:
  "range_ok r \<Longrightarrow> range_ok s \<Longrightarrow> range_cmp r s = Less \<longleftrightarrow> range_hi r < range_lo s"
  by (auto simp: range_cmp_def range_ok_def cmp_def split: ordering.splits if_splits)

lemma range_cmp_Greater:
  "range_ok r \<Longrightarrow> range_ok s \<Longrightarrow> range_cmp r s = Greater \<longleftrightarrow> range_hi s < range_lo r"
  by (auto simp: range_cmp_def range_ok_def cmp_def split: ordering.splits if_splits)

lemma range_cmp_reverse:
  "range_ok r \<Longrightarrow> range_ok s \<Longrightarrow> range_cmp s r = ordering_reverse (range_cmp r s)"
  by (auto simp: range_cmp_def range_ok_def cmp_def split: ordering.splits if_splits)

lemma range_cmp_Less_trans:
  "\<lbrakk>range_ok r; range_ok s; range_ok t; range_cmp r s = Less; range_cmp s t = Less\<rbrakk>
    \<Longrightarrow> range_cmp r t = Less"
  using range_cmp_Less [of r s] range_cmp_Less [of s t] range_cmp_Less [of r t]
  by (auto simp: range_ok_def)

lemma range_of_address_simp [simp]:
  "range_of_address a = Some \<lparr>range_lo = a, range_hi = a\<rparr>"
  by (simp add: range_of_address_def range_new_def)

lemma point_range_cmp:
  "range_ok r \<Longrightarrow> range_cmp \<lparr>range_lo = a, range_hi = a\<rparr> r = Equal \<longleftrightarrow> a \<in> range_set r"
  by (subst range_cmp_Equal) (auto simp: range_ok_def range_set_def)

section \<open>The range of a network\<close>

lemma word_le_or: "a \<le> a OR b" for a b :: u64
  by (simp add: word_le_def unsigned_or_eq or_greater_eq)

lemma range_of_net_valid:
  assumes "net_valid net"
  shows "range_of_net net = Some \<lparr>range_lo = na_address net,
    range_hi = na_address net OR NOT (pmask (mask_width (na_mask net)))\<rparr>"
  using assms by (simp add: range_of_net_def net_valid_def mask_into_u64_valid range_new_def word_le_or Let_def)

lemma blk_div: "x \<in> blk a k \<longleftrightarrow> unat x div 2 ^ k = unat a div 2 ^ k"
proof -
  have "x \<in> blk a k" if eq: "drop_bit k x = drop_bit k a"
  proof -
    have "bit x (k + c) = bit a (k + c)" for c
      using arg_cong [OF eq, of "\<lambda>w. bit w c"] by (simp add: bit_drop_bit_eq)
    then show ?thesis by (auto simp: blk_def le_iff_add)
  qed
  moreover have "x \<in> blk a k \<Longrightarrow> drop_bit k x = drop_bit k a"
    by (rule bit_word_eqI) (auto simp: bit_drop_bit_eq blk_def)
  ultimately have "x \<in> blk a k \<longleftrightarrow> unat (drop_bit k x) = unat (drop_bit k a)"
    by (auto intro: unsigned_word_eqI)
  moreover have "unat (drop_bit k w) = unat w div 2 ^ k" for w :: u64
    by (subst unat_drop_bit_eq) (rule drop_bit_eq_div)
  ultimately show ?thesis by (simp only:)
qed

lemma range_in_blk:
  assumes "a \<le> x" "x \<le> a OR NOT (pmask k)"
  shows "x \<in> blk a k"
proof -
  have "a OR NOT (pmask k) \<in> blk a k"
    by (auto simp: blk_eq_mask bit_eq_iff bit_and_iff bit_or_iff bit_not_iff)
  then have "unat (a OR NOT (pmask k)) div 2 ^ k = unat a div 2 ^ k" by (simp add: blk_div)
  moreover have "unat a div 2 ^ k \<le> unat x div 2 ^ k" "unat x div 2 ^ k \<le> unat (a OR NOT (pmask k)) div 2 ^ k"
    using assms by (auto simp: word_le_nat_alt intro: div_le_mono)
  ultimately show ?thesis by (simp add: blk_div)
qed

lemma blk_in_range:
  assumes "x \<in> blk a k" "aligned a k"
  shows "a \<le> x" "x \<le> a OR NOT (pmask k)"
proof -
  have bits: "bit a i = (bit x i \<and> k \<le> i)" if "i < 64" for i
    using assms by (cases "k \<le> i") (auto simp: blk_def aligned_bits)
  have "a OR x = x" "x OR NOT (pmask k) = a OR NOT (pmask k)"
    by (rule bit_word_eqI; use bits in \<open>auto simp: bit_or_iff bit_not_iff bit_pmask\<close>)+
  then show "a \<le> x" "x \<le> a OR NOT (pmask k)"
    by (metis word_le_or)+
qed

definition net_canonical :: "net_address \<Rightarrow> bool" where
  "net_canonical net \<longleftrightarrow> net_valid net \<and> aligned (na_address net) (mask_width (na_mask net))"

definition net_set :: "net_address \<Rightarrow> address set" where
  "net_set net = blk (na_address net) (mask_width (na_mask net))"

lemma range_of_net_ok: "net_valid net \<Longrightarrow> range_of_net net = Some r \<Longrightarrow> range_ok r"
  by (auto simp: range_of_net_valid range_ok_def word_le_or)

lemma range_of_net_set:
  assumes "net_canonical net" "range_of_net net = Some r"
  shows "range_set r = net_set net"
proof -
  let ?a = "na_address net" and ?k = "mask_width (na_mask net)"
  have valid: "net_valid net" "aligned ?a ?k" using assms(1) by (simp_all add: net_canonical_def)
  have r: "r = \<lparr>range_lo = ?a, range_hi = ?a OR NOT (pmask ?k)\<rparr>"
    using assms(2) range_of_net_valid [OF valid(1)] by simp
  have "x \<in> {?a..?a OR NOT (pmask ?k)} \<longleftrightarrow> x \<in> blk ?a ?k" for x
    using range_in_blk blk_in_range [OF _ valid(2)] by (meson atLeastAtMost_iff)
  then show ?thesis unfolding r range_set_def net_set_def by (intro set_eqI) simp
qed

lemma range_of_net_subset:
  assumes "net_valid net" "range_of_net net = Some r"
  shows "range_set r \<subseteq> net_set net"
proof -
  have r: "range_lo r = na_address net" "range_hi r = na_address net OR NOT (pmask (mask_width (na_mask net)))"
    using assms range_of_net_valid [OF assms(1)] by auto
  show ?thesis unfolding range_set_def net_set_def r using range_in_blk by (meson atLeastAtMost_iff subsetI)
qed

section \<open>From a range back to a network\<close>

lemma leading_ones_not: "leading_ones (NOT w) = leading_zeros w"
  unfolding leading_ones_def leading_zeros_def
  by (intro arg_cong [where f = length] takeWhile_cong) (auto simp: bit_not_iff)

lemma net_of_range_simp:
  "net_of_range r = Some \<lparr>na_address = range_lo r,
    na_mask = NetMask (of_nat (leading_zeros (range_lo r XOR range_hi r)))\<rparr>"
proof -
  have "leading_zeros (range_lo r XOR range_hi r) \<le> 64" by (rule leading_zeros_le)
  then show ?thesis
    by (simp add: net_of_range_def mask_try_from_def leading_ones_not ADDRESS_BITS_def
        word_le_nat_alt unat_of_nat Let_def)
qed

lemma net_of_range_width:
  assumes "net_of_range r = Some net"
  shows "net_valid net" "mask_width (na_mask net) = 64 - leading_zeros (range_lo r XOR range_hi r)"
  using assms leading_zeros_le [of "range_lo r XOR range_hi r"]
  by (auto simp: net_of_range_simp net_valid_def mask_valid_unat mask_width_def unat_of_nat)

lemma range_net_range:
  assumes "net_valid net" "range_of_net net = Some r"
  shows "\<exists>net'. net_of_range r = Some net' \<and> range_of_net net' = Some r"
proof -
  obtain net' where net': "net_of_range r = Some net'" "na_address net' = range_lo r"
    by (simp add: net_of_range_simp)
  let ?k = "mask_width (na_mask net)" and ?a = "na_address net"
  let ?d = "range_lo r XOR range_hi r"
  let ?j = "64 - leading_zeros ?d"
  have r: "range_lo r = ?a" "range_hi r = ?a OR NOT (pmask ?k)"
    using assms by (auto simp: range_of_net_valid)
  have "bit (?a OR NOT (pmask ?j)) i = bit (?a OR NOT (pmask ?k)) i" if "i < 64" for i
  proof (cases "?j \<le> i")
    case True
    then have "\<not> bit ?d i" by (rule bit_above_leading_zeros)
    then show ?thesis using that True by (auto simp: r bit_xor_iff bit_or_iff bit_not_iff bit_pmask)
  next
    case False
    then have "leading_zeros ?d < 64" by simp
    then have "bit ?d (63 - leading_zeros ?d)" by (rule bit_at_leading_zeros)
    then have "63 - leading_zeros ?d < ?k" using that
      by (auto simp: r bit_xor_iff bit_or_iff bit_not_iff bit_pmask)
    then show ?thesis using False that by (auto simp: bit_or_iff bit_not_iff bit_pmask)
  qed
  then have "?a OR NOT (pmask ?j) = ?a OR NOT (pmask ?k)" by (intro bit_word_eqI) simp
  then show ?thesis
    using net' net_of_range_width [OF net'(1)] r by (auto simp: range_of_net_valid)
qed

lemma net_range_net:
  assumes "net_canonical net" "range_of_net net = Some r"
  shows "net_of_range r = Some net"
proof -
  let ?k = "mask_width (na_mask net)"
  have r: "range_lo r = na_address net" "range_hi r = na_address net OR NOT (pmask ?k)"
    using assms by (auto simp: net_canonical_def range_of_net_valid)
  have "range_lo r XOR range_hi r = NOT (pmask ?k)"
    using assms(1) unfolding r net_canonical_def aligned_bits
    by (intro bit_word_eqI) (auto simp: bit_xor_iff bit_or_iff bit_not_iff bit_pmask)
  then have "leading_zeros (range_lo r XOR range_hi r) = 64 - ?k"
    by (metis bit.double_compl leading_ones_not leading_ones_pmask mask_width_le)
  then show ?thesis
    using assms(1) by (simp add: net_of_range_simp r mask_width_def net_canonical_def net_valid_def mask_valid_unat)
qed

section \<open>Properties\<close>

text \<open>On ranges made from valid networks the comparison is equality exactly on overlap, it is
  antisymmetric, and it is transitive where it says less: on pairwise disjoint ranges it is a total
  order, and a single address compares equal to exactly the ranges that contain it.\<close>

theorem range_cmp_order:
  assumes "net_valid m" "net_valid n" "net_valid q"
    "range_of_net m = Some r" "range_of_net n = Some s" "range_of_net q = Some t"
  shows "(range_cmp r s = Equal \<longleftrightarrow> range_set r \<inter> range_set s \<noteq> {})
    \<and> range_cmp s r = ordering_reverse (range_cmp r s)
    \<and> (range_cmp r s = Less \<and> range_cmp s t = Less \<longrightarrow> range_cmp r t = Less)
    \<and> (\<exists>p. range_of_address a = Some p \<and> (range_cmp p r = Equal \<longleftrightarrow> a \<in> range_set r))"
proof -
  have ok: "range_ok r" "range_ok s" "range_ok t"
    using range_of_net_ok assms by blast+
  show ?thesis
    using range_cmp_Equal [OF ok(1,2)] range_cmp_reverse [OF ok(1,2)] range_cmp_Less_trans [OF ok]
      point_range_cmp [OF ok(1)] by simp
qed

theorem range_cmp_order_witness:
  "\<exists>r s t. range_of_net \<lparr>na_address = 0, na_mask = NetMask 60\<rparr> = Some r
    \<and> range_of_net \<lparr>na_address = 16, na_mask = NetMask 62\<rparr> = Some s
    \<and> range_of_net \<lparr>na_address = 32, na_mask = NetMask 63\<rparr> = Some t
    \<and> (range_cmp r s = Equal \<longleftrightarrow> range_set r \<inter> range_set s \<noteq> {})
    \<and> range_cmp s r = ordering_reverse (range_cmp r s)
    \<and> (range_cmp r s = Less \<and> range_cmp s t = Less \<longrightarrow> range_cmp r t = Less)
    \<and> (\<exists>p. range_of_address 5 = Some p \<and> (range_cmp p r = Equal \<longleftrightarrow> 5 \<in> range_set r))"
proof -
  let ?m = "\<lparr>na_address = 0, na_mask = NetMask 60\<rparr>" and ?n = "\<lparr>na_address = 16, na_mask = NetMask 62\<rparr>"
    and ?q = "\<lparr>na_address = 32, na_mask = NetMask 63\<rparr>"
  have valid: "net_valid ?m" "net_valid ?n" "net_valid ?q"
    by (simp_all add: net_valid_def mask_valid_def ADDRESS_BITS_def)
  note r = range_of_net_valid [OF valid(1)] range_of_net_valid [OF valid(2)]
    range_of_net_valid [OF valid(3)]
  show ?thesis
    by (intro exI, rule conjI [OF r(1)], rule conjI [OF r(2)], rule conjI [OF r(3)])
      (rule range_cmp_order [OF valid r])
qed

text \<open>The range of a network with its host bits zero holds exactly the addresses of the
  network, and converting the range back gives the network.\<close>

theorem canonical_net_range:
  assumes "net_canonical net"
  shows "\<exists>r. range_of_net net = Some r \<and> range_set r = net_set net \<and> net_of_range r = Some net"
proof -
  obtain r where "range_of_net net = Some r"
    using assms range_of_net_valid by (auto simp: net_canonical_def)
  then show ?thesis using range_of_net_set net_range_net assms by blast
qed

theorem canonical_net_range_witness:
  "\<exists>r. range_of_net \<lparr>na_address = 32, na_mask = NetMask 59\<rparr> = Some r
    \<and> range_set r = net_set \<lparr>na_address = 32, na_mask = NetMask 59\<rparr>
    \<and> net_of_range r = Some \<lparr>na_address = 32, na_mask = NetMask 59\<rparr>"
  by (rule canonical_net_range) code_simp

text \<open>A network whose address has host bits set gets a range that starts at that address, not
  at the first address of the network: it leaves out addresses of the network, and converting back
  gives another network. The ranges themselves still survive the conversion to a network and
  back.\<close>

theorem noncanonical_net_range:
  "\<exists>net r net'. net_valid net \<and> range_of_net net = Some r \<and> net_of_range r = Some net'
    \<and> net' \<noteq> net \<and> range_set r \<subset> net_set net \<and> range_of_net net' = Some r"
proof -
  let ?net = "\<lparr>na_address = 1, na_mask = NetMask 63\<rparr>" and ?net' = "\<lparr>na_address = 1, na_mask = NetMask 64\<rparr>"
    and ?r = "\<lparr>range_lo = 1, range_hi = 1\<rparr>"
  have r: "range_of_net ?net = Some ?r" and valid: "net_valid ?net"
    and conv: "net_of_range ?r = Some ?net'" "range_of_net ?net' = Some ?r" by code_simp+
  have "(0 :: u64) AND pmask 1 = 1 AND pmask 1" by code_simp
  then have "0 \<in> net_set ?net - range_set ?r"
    by (simp add: net_set_def range_set_def mask_width_def blk_eq_mask)
  then have sub: "range_set ?r \<subset> net_set ?net"
    using range_of_net_subset [OF valid r] by blast
  have "?net' \<noteq> ?net" by simp
  with r valid conv sub show ?thesis by blast
qed

end
