(* ===== verification/Lease_Pool.thy ===== *)
theory Lease_Pool
  imports Trie_Ops Address_Range
begin

text \<open>
  The pool of network leases, \<^verbatim>\<open>libs/mm1-address/src/pool.rs\<close>: two tries of free blocks, one to
  lease from and one that takes the returned leases, swapped or merged when the first runs out. The
  state machine at the end takes and drops leases in any order.
\<close>

unbundle bit_operations_syntax

datatype lease_error = Unavailable

record pool_shared =
  pool_main :: trie_pool
  pool_used :: trie_pool

record lease =
  lease_net :: net_address
  lease_tracked :: bool

definition pool_new :: "net_address \<Rightarrow> pool_shared panics" where
  "pool_new net = do {
     m \<leftarrow> mask_into_u64 (na_mask net);
     let address = na_address net AND m;
     main \<leftarrow> trie_new address m;
     Some \<lparr>pool_main = main, pool_used = trie_empty\<rparr>
   }"

definition pool_lease :: "pool_shared \<Rightarrow> net_mask \<Rightarrow> ((lease_error + lease) \<times> pool_shared) panics" where
  "pool_lease shared msk = do {
     m \<leftarrow> mask_into_u64 msk;
     let granted = (\<lambda>a. Inr \<lparr>lease_net = \<lparr>na_address = a, na_mask = msk\<rparr>, lease_tracked = True\<rparr>);
     (first, main) \<leftarrow> trie_acquire (pool_main shared) m;
     (case first of
        Some a \<Rightarrow> Some (granted a, shared\<lparr>pool_main := main\<rparr>)
      | None \<Rightarrow> do {
          (second, used) \<leftarrow> trie_acquire (pool_used shared) m;
          (case second of
             Some a \<Rightarrow> Some (granted a, \<lparr>pool_main = used, pool_used = main\<rparr>)
           | None \<Rightarrow> do {
               (used', main') \<leftarrow> drain_into used main;
               (third, main'') \<leftarrow> trie_acquire main' m;
               let shared' = \<lparr>pool_main = main'', pool_used = used'\<rparr>;
               (case third of
                  Some a \<Rightarrow> Some (granted a, shared')
                | None \<Rightarrow> Some (Inl Unavailable, shared'))
             })
        })
   }"

definition lease_trusted :: "net_address \<Rightarrow> lease" where
  "lease_trusted net = \<lparr>lease_net = net, lease_tracked = False\<rparr>"

definition lease_drop :: "lease \<Rightarrow> pool_shared \<Rightarrow> pool_shared panics" where
  "lease_drop l shared =
     (if lease_tracked l then do {
        let addr = na_address (lease_net l);
        m \<leftarrow> mask_into_u64 (na_mask (lease_net l));
        (_, used) \<leftarrow> trie_release (pool_used shared) addr m;
        Some (shared\<lparr>pool_used := used\<rparr>)
      } else Some shared)"

section \<open>The free space of a pool\<close>

definition shared_inv :: "pool_shared \<Rightarrow> bool" where
  "shared_inv s \<longleftrightarrow> pool_inv (pool_main s) \<and> pool_inv (pool_used s)
     \<and> pool_free (pool_main s) \<inter> pool_free (pool_used s) = {}"

definition shared_free :: "pool_shared \<Rightarrow> address set" where
  "shared_free s = pool_free (pool_main s) \<union> pool_free (pool_used s)"

lemma mask_prefix_zero: "mask_valid m \<Longrightarrow> valid_prefix 0 (pmask (mask_width m))"
  by (simp add: aligned_def)

lemma net_block_set: "net_block a (pmask (mask_width m)) = net_set \<lparr>na_address = a, na_mask = m\<rparr>"
  by (simp add: net_block_pmask net_set_def)

lemma valid_prefix_canonical:
  "mask_valid m \<Longrightarrow>
    valid_prefix a (pmask (mask_width m)) \<longleftrightarrow> net_canonical \<lparr>na_address = a, na_mask = m\<rparr>"
  by (simp add: net_canonical_def net_valid_def)

lemma pool_new_ok:
  assumes "net_valid net"
  shows "\<exists>s. pool_new net = Some s \<and> shared_inv s \<and> shared_free s = net_set net"
proof -
  let ?k = "mask_width (na_mask net)" and ?a = "na_address net"
  obtain main where "trie_new (?a AND pmask ?k) (pmask ?k) = Some main" "pool_inv main"
    "pool_free main = blk (?a AND pmask ?k) ?k"
    using trie_new_ok [of ?k "?a AND pmask ?k"] by auto
  then show ?thesis
    using assms by (simp add: pool_new_def net_valid_def mask_into_u64_valid shared_inv_def
        shared_free_def net_set_def block_simps)
qed

definition lease_granted :: "pool_shared \<Rightarrow> net_mask \<Rightarrow> lease \<Rightarrow> pool_shared \<Rightarrow> bool" where
  "lease_granted s m l s' \<longleftrightarrow> lease_tracked l \<and> na_mask (lease_net l) = m \<and> net_canonical (lease_net l)
     \<and> net_set (lease_net l) \<subseteq> shared_free s \<and> shared_free s' = shared_free s - net_set (lease_net l)"

lemma pool_lease_ok:
  assumes inv: "shared_inv s" and valid: "mask_valid m"
  shows "\<exists>out s'. pool_lease s m = Some (out, s') \<and> shared_inv s' \<and> (case out of
      Inl e \<Rightarrow> shared_free s' = shared_free s \<and> (\<forall>a. \<not> net_set \<lparr>na_address = a, na_mask = m\<rparr> \<subseteq> shared_free s)
    | Inr l \<Rightarrow> lease_granted s m l s')"
proof -
  let ?m = "pmask (mask_width m)"
  let ?granted = "\<lambda>a. \<lparr>lease_net = \<lparr>na_address = a, na_mask = m\<rparr>, lease_tracked = True\<rparr>"
  have main: "pool_inv (pool_main s)" and used: "pool_inv (pool_used s)"
    and disj: "pool_free (pool_main s) \<inter> pool_free (pool_used s) = {}"
    using inv by (simp_all add: shared_inv_def)
  note simps = pool_lease_def mask_into_u64_valid [OF valid] Let_def lease_granted_def shared_inv_def
    shared_free_def valid_prefix_canonical [OF valid] net_block_set
  show ?thesis
  proof (cases rule: trie.acquire_cases [OF main mask_prefix_zero [OF valid]])
    case (2 a main')
    then show ?thesis using used disj by (auto simp: simps)
  next
    case none1: 1
    show ?thesis
    proof (cases rule: trie.acquire_cases [OF used mask_prefix_zero [OF valid]])
      case (2 a used')
      then show ?thesis using none1(1) main disj by (auto simp: simps)
    next
      case none2: 1
      from trie.drain_law [OF used main] disj obtain used' main' where
        d: "drain_into (pool_used s) (pool_main s) = Some (used', main')" "pool_inv used'"
          "pool_inv main'" "pool_free used' = {}"
          "pool_free main' = pool_free (pool_main s) \<union> pool_free (pool_used s)"
        by (auto simp: Int_commute)
      show ?thesis
      proof (cases rule: trie.acquire_cases [OF d(3) mask_prefix_zero [OF valid]])
        case 1
        then show ?thesis using none1(1) none2(1) d by (simp add: simps)
      next
        case (2 a main'')
        then show ?thesis using none1(1) none2(1) d by (simp add: simps)
      qed
    qed
  qed
qed

lemma pool_lease_cases:
  assumes "shared_inv s" "mask_valid m"
  obtains (refused) e s' where "pool_lease s m = Some (Inl e, s')" "shared_inv s'"
      "shared_free s' = shared_free s"
      "\<And>a. \<not> net_set \<lparr>na_address = a, na_mask = m\<rparr> \<subseteq> shared_free s"
  | (granted) l s' where "pool_lease s m = Some (Inr l, s')" "shared_inv s'" "lease_granted s m l s'"
proof -
  obtain out s' where "pool_lease s m = Some (out, s')" "shared_inv s'" "case out of
      Inl e \<Rightarrow> shared_free s' = shared_free s \<and> (\<forall>a. \<not> net_set \<lparr>na_address = a, na_mask = m\<rparr> \<subseteq> shared_free s)
    | Inr l \<Rightarrow> lease_granted s m l s'"
    using pool_lease_ok [OF assms] by blast
  then show thesis using that by (cases out) simp_all
qed

lemma lease_drop_ok:
  assumes inv: "shared_inv s" and l: "lease_tracked l" "net_canonical (lease_net l)"
    and disj: "net_set (lease_net l) \<inter> shared_free s = {}"
  shows "\<exists>s'. lease_drop l s = Some s' \<and> shared_inv s' \<and> shared_free s' = shared_free s \<union> net_set (lease_net l)"
proof -
  let ?n = "lease_net l"
  let ?m = "pmask (mask_width (na_mask ?n))"
  have valid: "mask_valid (na_mask ?n)" using l(2) by (simp add: net_canonical_def net_valid_def)
  have "valid_prefix (na_address ?n) ?m" using l(2) valid_prefix_canonical [OF valid, of "na_address ?n"]
    by (simp add: net_canonical_def net_valid_def)
  moreover have block: "net_block (na_address ?n) ?m = net_set ?n"
    by (simp add: net_block_pmask net_set_def)
  moreover have "net_set ?n \<inter> pool_free (pool_used s) = {}" using disj by (auto simp: shared_free_def)
  ultimately obtain used where "trie_release (pool_used s) (na_address ?n) ?m = Some (True, used)"
    "pool_inv used" "pool_free used = pool_free (pool_used s) \<union> net_set ?n"
    using trie.release_law [of "pool_used s" "na_address ?n" ?m] inv by (auto simp: shared_inv_def)
  then show ?thesis
    using inv l(1) disj mask_into_u64_valid [OF valid]
    by (auto simp: lease_drop_def shared_inv_def shared_free_def Let_def)
qed

section \<open>Leases taken and dropped in any order\<close>

record pool_world =
  world_shared :: pool_shared
  world_live :: "lease list"

inductive pool_step :: "pool_world \<Rightarrow> pool_world \<Rightarrow> bool" where
  step_lease: "mask_valid m \<Longrightarrow> pool_lease (world_shared w) m = Some (Inr l, s') \<Longrightarrow>
    pool_step w \<lparr>world_shared = s', world_live = l # world_live w\<rparr>"
| step_refuse: "mask_valid m \<Longrightarrow> pool_lease (world_shared w) m = Some (Inl e, s') \<Longrightarrow>
    pool_step w (w\<lparr>world_shared := s'\<rparr>)"
| step_drop: "l \<in> set (world_live w) \<Longrightarrow> lease_drop l (world_shared w) = Some s' \<Longrightarrow>
    pool_step w \<lparr>world_shared = s', world_live = remove1 l (world_live w)\<rparr>"

inductive pool_reachable :: "net_address \<Rightarrow> pool_world \<Rightarrow> bool" for net where
  reach_new: "net_valid net \<Longrightarrow> pool_new net = Some s \<Longrightarrow>
    pool_reachable net \<lparr>world_shared = s, world_live = []\<rparr>"
| reach_step: "pool_reachable net w \<Longrightarrow> pool_step w w' \<Longrightarrow> pool_reachable net w'"

definition leased :: "lease list \<Rightarrow> address set" where
  "leased ls = (\<Union>l\<in>set ls. net_set (lease_net l))"

definition leases_disjoint :: "lease list \<Rightarrow> bool" where
  "leases_disjoint = sorted_wrt (\<lambda>a b. net_set (lease_net a) \<inter> net_set (lease_net b) = {})"

definition world_inv :: "net_address \<Rightarrow> pool_world \<Rightarrow> bool" where
  "world_inv net w \<longleftrightarrow> shared_inv (world_shared w)
     \<and> (\<forall>l\<in>set (world_live w). lease_tracked l \<and> net_canonical (lease_net l))
     \<and> leases_disjoint (world_live w)
     \<and> leased (world_live w) \<inter> shared_free (world_shared w) = {}
     \<and> leased (world_live w) \<union> shared_free (world_shared w) = net_set net"

lemma net_set_nonempty [simp]: "net_set n \<noteq> {}"
  by (simp add: net_set_def)

lemma leases_disjoint_remove:
  assumes "leases_disjoint ls" "l \<in> set ls"
  shows "leases_disjoint (remove1 l ls)
    \<and> leased (remove1 l ls) \<inter> net_set (lease_net l) = {}
    \<and> leased ls = leased (remove1 l ls) \<union> net_set (lease_net l)"
proof -
  obtain xs ys where ls: "ls = xs @ l # ys" "l \<notin> set xs"
    using assms(2) by (auto dest: split_list_first)
  then have "remove1 l ls = xs @ ys" by (simp add: remove1_append)
  then show ?thesis
    using assms(1) ls(1) by (auto simp: leases_disjoint_def leased_def sorted_wrt_append)
qed

lemma pool_step_inv:
  assumes "pool_step w w'" "world_inv net w"
  shows "world_inv net w'"
  using assms
proof (cases rule: pool_step.cases)
  case (step_lease m l s')
  then have "shared_inv s'" "lease_granted (world_shared w) m l s'"
    using pool_lease_ok [of "world_shared w" m] assms(2) by (auto simp: world_inv_def)
  then show ?thesis
    using step_lease(1) assms(2)
    by (auto simp: world_inv_def lease_granted_def leases_disjoint_def leased_def)
next
  case (step_refuse m e s')
  then show ?thesis
    using pool_lease_ok [of "world_shared w" m] assms(2) by (auto simp: world_inv_def)
next
  case (step_drop l s')
  let ?ls = "world_live w"
  have l: "lease_tracked l" "net_canonical (lease_net l)"
    using step_drop(2) assms(2) by (auto simp: world_inv_def)
  have "net_set (lease_net l) \<subseteq> leased ?ls" using step_drop(2) by (auto simp: leased_def)
  then have "net_set (lease_net l) \<inter> shared_free (world_shared w) = {}"
    using assms(2) by (auto simp: world_inv_def)
  then have s': "shared_inv s'" "shared_free s' = shared_free (world_shared w) \<union> net_set (lease_net l)"
    using lease_drop_ok [OF _ l, of "world_shared w"] step_drop(3) assms(2) by (auto simp: world_inv_def)
  have "leases_disjoint (remove1 l ?ls)" "leased (remove1 l ?ls) \<inter> net_set (lease_net l) = {}"
    "leased ?ls = leased (remove1 l ?ls) \<union> net_set (lease_net l)"
    using leases_disjoint_remove [of ?ls l] step_drop(2) assms(2) by (auto simp: world_inv_def)
  then show ?thesis
    using s' assms(2) unfolding step_drop(1) world_inv_def
    by (auto dest: notin_set_remove1)
qed

lemma pool_reachable_inv: "pool_reachable net w \<Longrightarrow> world_inv net w"
proof (induction rule: pool_reachable.induct)
  case (reach_new s)
  then show ?case
    using pool_new_ok [of net] by (auto simp: world_inv_def leases_disjoint_def leased_def)
qed (rule pool_step_inv)

section \<open>A pool with one lease\<close>

definition demo_net :: net_address where
  "demo_net = \<lparr>na_address = 16, na_mask = NetMask 60\<rparr>"

lemma demo_net_valid: "net_valid demo_net" "mask_valid (NetMask 60)"
  by code_simp+

lemma demo_new: "\<exists>w. pool_reachable demo_net w \<and> world_live w = [] \<and> world_inv demo_net w"
proof -
  obtain s where "pool_new demo_net = Some s" using pool_new_ok [OF demo_net_valid(1)] by blast
  then show ?thesis using pool_reachable_inv reach_new [OF demo_net_valid(1)]
    by (intro exI [of _ "\<lparr>world_shared = s, world_live = []\<rparr>"]) simp
qed

lemma demo_leased: "\<exists>w l. pool_reachable demo_net w \<and> l \<in> set (world_live w)"
proof -
  obtain w where w: "pool_reachable demo_net w" "world_live w = []" "world_inv demo_net w"
    using demo_new by blast
  then have s: "shared_inv (world_shared w)" "shared_free (world_shared w) = net_set demo_net"
    by (auto simp: world_inv_def leased_def)
  show ?thesis
  proof (cases rule: pool_lease_cases [OF s(1) demo_net_valid(2)])
    case (1 e s')
    then show ?thesis using 1(4) [of 16] s(2) by (simp add: net_set_def demo_net_def)
  next
    case (2 l s')
    from reach_step [OF w(1) step_lease [OF demo_net_valid(2) 2(1)]]
    show ?thesis by (intro exI [of _ "\<lparr>world_shared = s', world_live = [l]\<rparr>"] exI [of _ l]) (simp add: w(2))
  qed
qed

section \<open>Properties\<close>

text \<open>C27. Whatever leases were taken from a pool and dropped, in any order: no two live leases
  share an address, every live lease is an aligned network inside the network of the pool, and the
  free addresses of the pool are exactly the addresses of its network that are not leased, so no
  address is lost and none is handed out twice.\<close>

theorem pool_leases_partition:
  assumes "pool_reachable net w"
  shows "leases_disjoint (world_live w)
    \<and> (\<forall>l\<in>set (world_live w). net_canonical (lease_net l) \<and> net_set (lease_net l) \<subseteq> net_set net)
    \<and> shared_free (world_shared w) = net_set net - leased (world_live w)"
  using pool_reachable_inv [OF assms] by (auto simp: world_inv_def leased_def)

theorem pool_leases_partition_witness:
  "\<exists>w l. pool_reachable demo_net w \<and> l \<in> set (world_live w)
    \<and> leases_disjoint (world_live w)
    \<and> (\<forall>l\<in>set (world_live w). net_canonical (lease_net l) \<and> net_set (lease_net l) \<subseteq> net_set demo_net)
    \<and> shared_free (world_shared w) = net_set demo_net - leased (world_live w)"
  using demo_leased pool_leases_partition [of demo_net] by metis



text \<open>Once every lease has been dropped, a request for the whole network of the pool succeeds
  again, however the network was split up before: the blocks returned to either trie are
  coalesced.\<close>

theorem pool_reuses_coalesced_blocks:
  assumes "pool_reachable net w" "world_live w = []"
  shows "\<exists>l s'. pool_lease (world_shared w) (na_mask net) = Some (Inr l, s')
    \<and> net_set (lease_net l) = net_set net \<and> shared_free s' = {}"
proof -
  have inv: "world_inv net w" using assms(1) by (rule pool_reachable_inv)
  then have s: "shared_inv (world_shared w)" "shared_free (world_shared w) = net_set net"
    using assms(2) by (auto simp: world_inv_def leased_def)
  have valid: "mask_valid (na_mask net)"
    using assms(1) by (induction rule: pool_reachable.induct) (auto simp: net_valid_def)
  show ?thesis
  proof (cases rule: pool_lease_cases [OF s(1) valid])
    case (1 e s')
    then show ?thesis using s(2) 1(4) [of "na_address net"] by (simp add: net_set_def)
  next
    case (2 l s')
    then have l: "na_mask (lease_net l) = na_mask net" "net_set (lease_net l) \<subseteq> net_set net"
      "shared_free s' = net_set net - net_set (lease_net l)"
      using s(2) by (auto simp: lease_granted_def)
    then have "na_address (lease_net l) \<in> net_set net" by (auto simp: net_set_def)
    then have "net_set (lease_net l) = net_set net" using l(1) blk_same by (auto simp: net_set_def)
    then show ?thesis using 2(1) l(3) by auto
  qed
qed

theorem pool_reuses_coalesced_blocks_witness:
  "\<exists>w l s'. pool_reachable demo_net w \<and> pool_lease (world_shared w) (na_mask demo_net) = Some (Inr l, s')
    \<and> net_set (lease_net l) = net_set demo_net \<and> shared_free s' = {}"
proof -
  obtain w where "pool_reachable demo_net w" "world_live w = []" using demo_new by blast
  then show ?thesis using pool_reuses_coalesced_blocks by blast
qed

end
