(* ===== verification/Sys_Msg.thy ===== *)
theory Sys_Msg
  imports Lease_Pool
begin

text \<open>
  The messages between actor containers and the calls an actor makes to its own container:
  \<^verbatim>\<open>core/mm1-node/src/runtime/sys_msg.rs\<close> and \<^verbatim>\<open>sys_call.rs\<close>, with the messages of
  \<^verbatim>\<open>protocols/mm1-proto-system\<close> that a container delivers to the actor. A future handed to
  \<open>Spawn\<close> is a value of the type parameter \<open>'j\<close>.
\<close>

type_synonym watch_ref = u64

datatype exit_reason = Normal | Terminate | LinkDown

datatype sys_link =
    LinkConnect (link_sender: address) (link_receiver: address)
  | LinkDisconnect (link_sender: address) (link_receiver: address)
  | LinkExit (link_sender: address) (link_receiver: address) exit_reason

datatype sys_watch =
    WatchWatch (watch_sender: address) (watch_receiver: address) watch_ref
  | WatchUnwatch (watch_sender: address) (watch_receiver: address) watch_ref
  | WatchDown (watch_sender: address) (watch_receiver: address) exit_reason

datatype sys_msg =
    Kill
  | Link sys_link
  | Watch sys_watch
  | ForkDone lease

datatype any_error =
    Killed
  | Collateral address
  | Terminated address
  | Panic string
  | ActorError string

type_synonym exit_result = "any_error + unit"

definition exit_is_ok :: "exit_result \<Rightarrow> bool" where
  "exit_is_ok r = (case r of Inl _ \<Rightarrow> False | Inr _ \<Rightarrow> True)"

datatype 'j sys_call =
    CallExit exit_result
  | CallTrapExit bool
  | CallLink address address
  | CallUnlink address address
  | CallForkAdded address
  | CallSpawn 'j
  | CallWatch address address
  | CallUnwatch address watch_ref

text \<open>What the container itself puts into the actor's priority inbox.\<close>

datatype system_msg =
    Exited address bool
  | Down address watch_ref bool

end
