(* ===== verification/Container.thy ===== *)
theory Container
  imports Sys_Msg "HOL-Library.Product_Lexorder"
begin

text \<open>
  The container that runs one actor, \<^verbatim>\<open>core/mm1-node/src/runtime/container.rs\<close>: links, watches
  and forks of the actor, the choice of the next event, the reaction to every call and system
  message, and the epilogue after the actor has ended. Panics (\<open>assert!\<close>, \<open>expect\<close>) are
  \<^const>\<open>None\<close>. A \<open>BTreeSet\<close> is a sorted distinct list; a \<open>HashSet\<close> is a distinct list, whose
  order is one of those the iteration may take. What the container does to other parts is a list of
  effects; whether a system message finds its receiver, and whether the actor's own mailbox still
  has a sender, is read from the environment.
\<close>

section \<open>State\<close>

record job_entry =
  linked_to :: "address list"
  watches :: "(address \<times> watch_ref) list"
  watched_by :: "(address \<times> watch_ref) list"

definition job_entry_default :: job_entry where
  "job_entry_default = \<lparr>linked_to = [], watches = [], watched_by = []\<rparr>"

record taken_watch =
  taken_owner :: address
  taken_target :: address

record 'j container =
  co_entries :: "address \<rightharpoonup> job_entry"
  co_taken :: "watch_ref \<rightharpoonup> taken_watch"
  co_next_ref :: u64
  co_trap_exit :: bool
  co_jobs :: "'j list"

datatype container_effect =
    SysSend address sys_msg
  | SelfSend sys_msg
  | Deliver address system_msg
  | WatchReply watch_ref
  | LeaseDropped lease

record container_env =
  env_reach :: "address \<Rightarrow> bool"
  env_alive :: bool

datatype control = Go | Break exit_result

type_synonym 'j reaction = "(control \<times> 'j container \<times> container_effect list) panics"

section \<open>The choice of the next event\<close>

record 'j ready =
  rd_shutdown :: bool
  rd_call :: "'j sys_call option option"
  rd_msg :: "sys_msg option option"
  rd_panic :: "string option"
  rd_job :: "string option option"

datatype container_error = EndOfCallRx | EndOfSysMsgRx

datatype 'j selected =
    SelShutdown
  | SelCall "'j sys_call"
  | SelMsg sys_msg
  | SelJobDone
  | SelError container_error
  | SelPending

definition container_select :: "'j ready \<Rightarrow> 'j selected" where
  "container_select r = (
     if rd_shutdown r then SelShutdown
     else case rd_call r of
       Some None \<Rightarrow> SelError EndOfCallRx
     | Some (Some call) \<Rightarrow> SelCall call
     | None \<Rightarrow> (case rd_msg r of
         Some None \<Rightarrow> SelError EndOfSysMsgRx
       | Some (Some msg) \<Rightarrow> SelMsg msg
       | None \<Rightarrow> (case rd_panic r of
           Some panic \<Rightarrow> SelCall (CallExit (Inl (Panic panic)))
         | None \<Rightarrow> (case rd_job r of
             Some (Some panic) \<Rightarrow> SelCall (CallExit (Inl (Panic panic)))
           | Some None \<Rightarrow> SelJobDone
           | None \<Rightarrow> SelPending))))"

section \<open>Messages sent when a fork or the actor ends\<close>

definition sys_link_exit_message :: "bool \<Rightarrow> address \<Rightarrow> address \<Rightarrow> sys_msg" where
  "sys_link_exit_message normal_exit sender receiver =
     Link (LinkExit sender receiver (if normal_exit then Normal else LinkDown))"

definition sys_watch_down_message :: "bool \<Rightarrow> address \<Rightarrow> address \<Rightarrow> sys_msg" where
  "sys_watch_down_message normal_exit sender receiver =
     Watch (WatchDown sender receiver (if normal_exit then Normal else LinkDown))"

fun unwatch_targets :: "(watch_ref \<rightharpoonup> taken_watch) \<Rightarrow> address \<Rightarrow> (address \<times> watch_ref) list
    \<Rightarrow> (watch_ref \<rightharpoonup> taken_watch) \<times> container_effect list" where
  "unwatch_targets taken watcher [] = (taken, [])"
| "unwatch_targets taken watcher ((target, r) # ws) = (
     let (taken', effs) = unwatch_targets (taken(r := None)) watcher ws
     in (taken', SysSend target (Watch (WatchUnwatch watcher target r)) # effs))"

text \<open>The watchers are sorted by address; an equal neighbour is skipped.\<close>

fun skip_repeated :: "'a option \<Rightarrow> 'a list \<Rightarrow> 'a list" where
  "skip_repeated prev [] = []"
| "skip_repeated prev (this # rest) =
     (if prev = Some this then skip_repeated (Some this) rest else this # skip_repeated (Some this) rest)"

text \<open>What peers are told when the fork at an address is done: three times in the source, for a
  fork ending in the loop, for one ending during the epilogue, and for the actor itself.\<close>

definition entry_down :: "bool \<Rightarrow> address \<Rightarrow> job_entry \<Rightarrow> 'j container \<Rightarrow> 'j container \<times> container_effect list" where
  "entry_down normal_exit a e c = (
     let (taken, effs) = unwatch_targets (co_taken c) a (watches e)
     in (c\<lparr>co_taken := taken\<rparr>, effs
         @ map (\<lambda>peer. SysSend peer (sys_link_exit_message normal_exit a peer)) (linked_to e)
         @ map (\<lambda>peer. SysSend peer (sys_watch_down_message normal_exit a peer))
             (skip_repeated None (map fst (watched_by e)))))"

section \<open>Calls of the actor\<close>

definition own_system_send :: "container_env \<Rightarrow> sys_msg \<Rightarrow> container_effect list panics" where
  "own_system_send env msg = (if env_alive env then Some [SelfSend msg] else None)"

text \<open>A send, and the failure of the peer that the container reports to itself when the receiver
  cannot be found.\<close>

definition send_or_self :: "container_env \<Rightarrow> address \<Rightarrow> sys_msg \<Rightarrow> sys_msg \<Rightarrow> container_effect list panics" where
  "send_or_self env to_addr msg failure = (
     if env_reach env to_addr then Some [SysSend to_addr msg]
     else map_option ((#) (SysSend to_addr msg)) (own_system_send env failure))"

partial_function (option) fresh_watch_ref :: "(watch_ref \<rightharpoonup> taken_watch) \<Rightarrow> u64 \<Rightarrow> (watch_ref \<times> u64) option" where
  "fresh_watch_ref taken next_ref = (
     let candidate = next_ref; next_ref = next_ref + 1
     in if taken candidate = None then Some (candidate, next_ref) else fresh_watch_ref taken next_ref)"

definition call_link :: "container_env \<Rightarrow> 'j container \<Rightarrow> address \<Rightarrow> address \<Rightarrow> 'j reaction" where
  "call_link env c sender receiver = do {
     e \<leftarrow> co_entries c sender;
     if receiver \<in> set (linked_to e) then Some (Go, c, [])
     else do {
       effs \<leftarrow> send_or_self env receiver (Link (LinkConnect sender receiver))
         (Link (LinkExit receiver sender LinkDown));
       Some (Go, c\<lparr>co_entries := (co_entries c)(sender \<mapsto> e\<lparr>linked_to := hset_insert receiver (linked_to e)\<rparr>)\<rparr>, effs)
     }
   }"

definition call_unlink :: "container_env \<Rightarrow> 'j container \<Rightarrow> address \<Rightarrow> address \<Rightarrow> 'j reaction" where
  "call_unlink env c sender receiver = do {
     e \<leftarrow> co_entries c sender;
     (let (removed, linked) = hset_remove receiver (linked_to e)
      in Some (Go, c\<lparr>co_entries := (co_entries c)(sender \<mapsto> e\<lparr>linked_to := linked\<rparr>)\<rparr>,
           if removed then [SysSend receiver (Link (LinkDisconnect sender receiver))] else []))
   }"

definition call_watch :: "container_env \<Rightarrow> 'j container \<Rightarrow> address \<Rightarrow> address \<Rightarrow> 'j reaction" where
  "call_watch env c sender receiver = do {
     e \<leftarrow> co_entries c sender;
     (r, next_ref) \<leftarrow> fresh_watch_ref (co_taken c) (co_next_ref c);
     effs \<leftarrow> send_or_self env receiver (Watch (WatchWatch sender receiver r))
       (Watch (WatchDown receiver sender LinkDown));
     Some (Go, c\<lparr>co_next_ref := next_ref,
         co_taken := (co_taken c)(r \<mapsto> \<lparr>taken_owner = sender, taken_target = receiver\<rparr>),
         co_entries := (co_entries c)(sender \<mapsto> e\<lparr>watches := btree_insert (receiver, r) (watches e)\<rparr>)\<rparr>,
       effs @ [WatchReply r])
   }"

definition call_unwatch :: "container_env \<Rightarrow> 'j container \<Rightarrow> address \<Rightarrow> watch_ref \<Rightarrow> 'j reaction" where
  "call_unwatch env c sender r = (case co_taken c r of
     None \<Rightarrow> Some (Go, c, [])
   | Some w \<Rightarrow> do {
       e \<leftarrow> co_entries c (taken_owner w);
       Some (Go, c\<lparr>co_taken := (co_taken c)(r := None),
           co_entries := (co_entries c)(taken_owner w \<mapsto> e\<lparr>watches := removeAll (taken_target w, r) (watches e)\<rparr>)\<rparr>,
         [SysSend (taken_target w) (Watch (WatchUnwatch (taken_owner w) (taken_target w) r))])
     })"

text \<open>The four call handlers are unfolded with the dispatch.\<close>

declare call_link_def [simp] call_unlink_def [simp] call_watch_def [simp] call_unwatch_def [simp]

fun handle_call :: "container_env \<Rightarrow> 'j container \<Rightarrow> 'j sys_call \<Rightarrow> 'j reaction" where
  "handle_call env c (CallExit exit_reason) = Some (Break exit_reason, c, [])"
| "handle_call env c (CallTrapExit set_into) = Some (Go, c\<lparr>co_trap_exit := set_into\<rparr>, [])"
| "handle_call env c (CallSpawn job) = Some (Go, c\<lparr>co_jobs := co_jobs c @ [job]\<rparr>, [])"
| "handle_call env c (CallForkAdded a) = (
     if co_entries c a = None then Some (Go, c\<lparr>co_entries := (co_entries c)(a \<mapsto> job_entry_default)\<rparr>, [])
     else None)"
| "handle_call env c (CallLink sender receiver) = call_link env c sender receiver"
| "handle_call env c (CallUnlink sender receiver) = call_unlink env c sender receiver"
| "handle_call env c (CallWatch sender receiver) = call_watch env c sender receiver"
| "handle_call env c (CallUnwatch sender r) = call_unwatch env c sender r"

section \<open>System messages\<close>

definition lease_address :: "lease \<Rightarrow> address" where
  "lease_address l = na_address (lease_net l)"

text \<open>\<open>BTreeSet::range\<close> over all references of one peer, first element.\<close>

definition range_first :: "address \<Rightarrow> (address \<times> watch_ref) list \<Rightarrow> (address \<times> watch_ref) option" where
  "range_first sender ws = find (\<lambda>w. (sender, 0) \<le> w \<and> w \<le> (sender, - 1)) ws"

function remove_range :: "address \<Rightarrow> (address \<times> watch_ref) list \<Rightarrow> (address \<times> watch_ref) list" where
  "remove_range sender ws = (case range_first sender ws of
     None \<Rightarrow> ws
   | Some w \<Rightarrow> remove_range sender (removeAll w ws))"
  by pat_completeness auto

lemma range_first_in: "range_first sender ws = Some w \<Longrightarrow> w \<in> set ws"
  by (auto simp: range_first_def find_Some_iff)

lemma removeAll_shorter: "x \<in> set xs \<Longrightarrow> length (removeAll x xs) < length xs"
  by (induction xs) (auto simp: le_imp_less_Suc)

termination remove_range
  by (relation "measure (\<lambda>(sender, ws). length ws)") (auto dest!: range_first_in intro!: removeAll_shorter)

function report_down :: "container_env \<Rightarrow> address \<Rightarrow> address \<Rightarrow> exit_reason \<Rightarrow> (address \<times> watch_ref) list
    \<Rightarrow> (watch_ref \<rightharpoonup> taken_watch)
    \<Rightarrow> (address \<times> watch_ref) list \<times> (watch_ref \<rightharpoonup> taken_watch) \<times> container_effect list" where
  "report_down env sender receiver reason ws taken = (case range_first sender ws of
     None \<Rightarrow> (ws, taken, [])
   | Some (peer, r) \<Rightarrow> (
       let (ws', taken', effs) =
         report_down env sender receiver reason (removeAll (peer, r) ws) (taken(r := None))
       in (ws', taken', (if env_alive env then [Deliver receiver (Down peer r (reason = Normal))] else []) @ effs)))"
  by pat_completeness auto

termination report_down
  by (relation "measure (\<lambda>(env, sender, receiver, reason, ws, taken). length ws)")
    (auto dest!: range_first_in intro!: removeAll_shorter)

fun handle_link :: "container_env \<Rightarrow> 'j container \<Rightarrow> sys_link \<Rightarrow> 'j reaction" where
  "handle_link env c (LinkConnect sender receiver) = Some (case co_entries c receiver of
     Some e \<Rightarrow> (Go, c\<lparr>co_entries := (co_entries c)(receiver \<mapsto> e\<lparr>linked_to := hset_insert sender (linked_to e)\<rparr>)\<rparr>, [])
   | None \<Rightarrow> (Go, c, [SysSend sender (Link (LinkExit receiver sender LinkDown))]))"
| "handle_link env c (LinkDisconnect sender receiver) = Some (case co_entries c receiver of
     Some e \<Rightarrow> (Go, c\<lparr>co_entries := (co_entries c)(receiver \<mapsto> e\<lparr>linked_to := removeAll sender (linked_to e)\<rparr>)\<rparr>, [])
   | None \<Rightarrow> (Go, c, []))"
| "handle_link env c (LinkExit sender receiver reason) = Some (case co_entries c receiver of
     None \<Rightarrow> (Go, c, [])
   | Some e \<Rightarrow> (
       let (was_linked, linked) = hset_remove sender (linked_to e);
           unlinked = c\<lparr>co_entries := (co_entries c)(receiver \<mapsto> e\<lparr>linked_to := linked\<rparr>)\<rparr>
       in if co_trap_exit c then (
         let (should_handle, c') = (case reason of Terminate \<Rightarrow> (True, c) | _ \<Rightarrow> (was_linked, unlinked))
         in (Go, c', if should_handle \<and> env_alive env
               then [Deliver receiver (Exited sender (reason = Normal))] else []))
       else (case reason of
           Normal \<Rightarrow> (Go, unlinked, [])
         | LinkDown \<Rightarrow> (if was_linked then Break (Inl (Collateral sender)) else Go, unlinked, [])
         | Terminate \<Rightarrow> (Break (Inl (Terminated sender)), c, []))))"

fun handle_watch :: "container_env \<Rightarrow> 'j container \<Rightarrow> sys_watch \<Rightarrow> 'j reaction" where
  "handle_watch env c (WatchWatch sender receiver r) = Some (case co_entries c receiver of
     Some e \<Rightarrow> (Go, c\<lparr>co_entries := (co_entries c)(receiver \<mapsto>
         e\<lparr>watched_by := btree_insert (sender, r) (watched_by e)\<rparr>)\<rparr>, [])
   | None \<Rightarrow> (Go, c, [SysSend sender (Watch (WatchDown receiver sender LinkDown))]))"
| "handle_watch env c (WatchUnwatch sender receiver r) = Some (case co_entries c receiver of
     Some e \<Rightarrow> (Go, c\<lparr>co_entries := (co_entries c)(receiver \<mapsto>
         e\<lparr>watched_by := removeAll (sender, r) (watched_by e)\<rparr>)\<rparr>, [])
   | None \<Rightarrow> (Go, c, []))"
| "handle_watch env c (WatchDown sender receiver reason) = Some (case co_entries c receiver of
     None \<Rightarrow> (Go, c, [])
   | Some e \<Rightarrow> (
       let (ws, taken, effs) = report_down env sender receiver reason (watches e) (co_taken c)
       in (Go, c\<lparr>co_taken := taken, co_entries := (co_entries c)(receiver \<mapsto>
             e\<lparr>watched_by := remove_range sender (watched_by e), watches := ws\<rparr>)\<rparr>, effs)))"

fun handle_msg :: "container_env \<Rightarrow> 'j container \<Rightarrow> sys_msg \<Rightarrow> 'j reaction" where
  "handle_msg env c Kill = Some (Break (Inl Killed), c, [])"
| "handle_msg env c (Link l) = handle_link env c l"
| "handle_msg env c (Watch w) = handle_watch env c w"
| "handle_msg env c (ForkDone l) = do {
     e \<leftarrow> co_entries c (lease_address l);
     (let (c', effs) = entry_down True (lease_address l) e
            (c\<lparr>co_entries := (co_entries c)(lease_address l := None)\<rparr>)
      in Some (Go, c', effs @ [LeaseDropped l]))
   }"

section \<open>The run of a container\<close>

definition container_start :: "container_env \<Rightarrow> address \<Rightarrow> address list \<Rightarrow> ('j container \<times> container_effect list) panics" where
  "container_start env main link_to = (
     let linked = remdups link_to;
         c = \<lparr>co_entries = [main \<mapsto> job_entry_default\<lparr>linked_to := linked\<rparr>], co_taken = Map.empty,
              co_next_ref = 0, co_trap_exit = False, co_jobs = []\<rparr>
     in if env_alive env
        then Some (c, concat (map (\<lambda>peer. SysSend peer (Link (LinkConnect main peer))
          # (if env_reach env peer then [] else [SelfSend (Link (LinkExit peer main LinkDown))])) linked))
        else None)"

definition container_step :: "container_env \<Rightarrow> 'j ready \<Rightarrow> 'j container
    \<Rightarrow> (container_error + (control \<times> 'j container \<times> container_effect list)) panics" where
  "container_step env r c = (case container_select r of
     SelShutdown \<Rightarrow> Some (Inr (Break (Inr ()), c, []))
   | SelCall call \<Rightarrow> map_option Inr (handle_call env c call)
   | SelMsg msg \<Rightarrow> map_option Inr (handle_msg env c msg)
   | SelJobDone \<Rightarrow> Some (Inr (Go, c, []))
   | SelError err \<Rightarrow> Some (Inl err)
   | SelPending \<Rightarrow> Some (Inr (Go, c, [])))"

fun teardown_msg :: "bool \<Rightarrow> 'j container \<Rightarrow> sys_msg \<Rightarrow> 'j container \<times> container_effect list" where
  "teardown_msg ok c Kill = (c, [])"
| "teardown_msg ok c (ForkDone l) = (case co_entries c (lease_address l) of
     None \<Rightarrow> (c, [LeaseDropped l])
   | Some e \<Rightarrow> (
       let (c', effs) = entry_down ok (lease_address l) e
             (c\<lparr>co_entries := (co_entries c)(lease_address l := None)\<rparr>)
       in (c', effs @ [LeaseDropped l])))"
| "teardown_msg ok c (Link (LinkConnect sender receiver)) =
     (c, [SysSend sender (sys_link_exit_message ok receiver sender)])"
| "teardown_msg ok c (Link (LinkDisconnect sender receiver)) = (c, [])"
| "teardown_msg ok c (Link (LinkExit sender receiver reason)) = (c, [])"
| "teardown_msg ok c (Watch (WatchWatch sender receiver r)) =
     (c, [SysSend sender (sys_watch_down_message ok receiver sender)])"
| "teardown_msg ok c (Watch (WatchUnwatch sender receiver r)) = (c, [])"
| "teardown_msg ok c (Watch (WatchDown sender receiver reason)) = (c, [])"

fun teardown_msgs :: "bool \<Rightarrow> 'j container \<Rightarrow> sys_msg list \<Rightarrow> 'j container \<times> container_effect list" where
  "teardown_msgs ok c [] = (c, [])"
| "teardown_msgs ok c (msg # msgs) = (
     let (c', effs) = teardown_msg ok c msg;
         (c'', effs') = teardown_msgs ok c' msgs
     in (c'', effs @ effs'))"

definition container_teardown :: "bool \<Rightarrow> address \<Rightarrow> exit_result \<Rightarrow> sys_msg list \<Rightarrow> 'j container
    \<Rightarrow> ('j container \<times> container_effect list) panics" where
  "container_teardown unregistered main exit_reason msgs c = (
     let ok = exit_is_ok exit_reason; (c', effs) = teardown_msgs ok c msgs
     in if unregistered then do {
       e \<leftarrow> co_entries c' main;
       (let (c'', effs') = entry_down ok main e (c'\<lparr>co_entries := (co_entries c')(main := None)\<rparr>)
        in Some (c'', effs @ effs'))
     } else None)"

text \<open>The loop, over what each iteration finds ready.\<close>

fun container_loop :: "(container_env \<times> 'j ready) list \<Rightarrow> 'j container
    \<Rightarrow> (container_error + (exit_result option \<times> 'j container \<times> container_effect list)) panics" where
  "container_loop [] c = Some (Inr (None, c, []))"
| "container_loop ((env, r) # rest) c = do {
     out \<leftarrow> container_step env r c;
     (case out of
        Inl err \<Rightarrow> Some (Inl err)
      | Inr (Break exit_reason, c', effs) \<Rightarrow> Some (Inr (Some exit_reason, c', effs))
      | Inr (Go, c', effs) \<Rightarrow> do {
          out' \<leftarrow> container_loop rest c';
          Some (map_sum id (\<lambda>(x, c'', effs'). (x, c'', effs @ effs')) out')
        })
   }"

end
