(* ===== verification/Container_Inv.thy ===== *)
theory Container_Inv
  imports Container
begin

text \<open>
  The invariant of a container, that every call and system message keeps it, and what the handlers
  do: outstanding watch references are exactly those in the entries of the forks.
\<close>

section \<open>Sets as lists\<close>

lemmas list_sets = btree_insert_sorted btree_insert_distinct hset_insert_distinct sorted_removeAll
  distinct_removeAll

section \<open>Skipping equal neighbours of a sorted list\<close>

lemma skip_repeated_Some: "x # skip_repeated (Some x) xs = remdups_adj (x # xs)"
  by (induction xs arbitrary: x) simp_all

lemma skip_repeated_None: "skip_repeated None xs = remdups_adj xs"
  by (cases xs) (simp_all add: skip_repeated_Some)

lemma distinct_remdups_adj_sorted: "sorted xs \<Longrightarrow> distinct (remdups_adj xs)"
  by (induction xs rule: remdups_adj.induct) (auto simp: order.antisym)

lemma sorted_map_fst: "sorted xs \<Longrightarrow> sorted (map fst xs)" for xs :: "('a::linorder \<times> 'b::linorder) list"
  by (induction xs) (auto simp: less_eq_prod_def)

lemma watchers_once:
  fixes ws :: "('a::linorder \<times> 'b::linorder) list"
  assumes "sorted ws"
  shows "set (skip_repeated None (map fst ws)) = fst ` set ws" "distinct (skip_repeated None (map fst ws))"
  using distinct_remdups_adj_sorted [OF sorted_map_fst [OF assms]] by (simp_all add: skip_repeated_None)

section \<open>The watches on one peer\<close>

declare remove_range.simps [simp del] report_down.simps [simp del]

lemma range_first_find: "range_first sender ws = find (\<lambda>w. fst w = sender) ws"
proof -
  have "(sender, 0) \<le> w \<and> w \<le> (sender, - 1) \<longleftrightarrow> fst w = sender" for w :: "address \<times> watch_ref"
    by (cases w) (auto simp: less_eq_prod_def)
  then show ?thesis by (simp add: range_first_def)
qed

lemma find_first_removeAll:
  assumes "find P ws = Some w" "distinct ws"
  shows "filter P ws = w # filter P (removeAll w ws)" "filter (Not \<circ> P) (removeAll w ws) = filter (Not \<circ> P) ws"
  using assms by (induction ws) (auto simp: removeAll_id split: if_splits)

lemma refs_on: "snd ` {w \<in> A. fst w = s} = {r. (s, r) \<in> A}"
  by (auto simp: image_iff)

lemma remove_range_filter: "distinct ws \<Longrightarrow> remove_range sender ws = filter (\<lambda>w. fst w \<noteq> sender) ws"
proof (induction sender ws rule: remove_range.induct)
  case (1 sender ws)
  show ?case
  proof (cases "range_first sender ws")
    case None
    then have "filter (\<lambda>w. fst w \<noteq> sender) ws = ws" by (intro filter_True) (auto simp: range_first_find find_None_iff)
    with None show ?thesis by (subst remove_range.simps) simp
  next
    case (Some w)
    with 1 find_first_removeAll(2) [of "\<lambda>w. fst w = sender" ws w] show ?thesis
      by (subst remove_range.simps) (simp add: range_first_find distinct_removeAll comp_def)
  qed
qed

lemma report_down_filter:
  assumes "distinct ws"
  shows "report_down env sender receiver reason ws taken =
    (filter (\<lambda>w. fst w \<noteq> sender) ws,
     taken |` (- {r. (sender, r) \<in> set ws}),
     if env_alive env then map (\<lambda>w. Deliver receiver (Down sender (snd w) (reason = Normal)))
       (filter (\<lambda>w. fst w = sender) ws) else [])"
  using assms
proof (induction env sender receiver reason ws taken rule: report_down.induct)
  case (1 env sender receiver reason ws taken)
  show ?case
  proof (cases "range_first sender ws")
    case None
    then have none: "\<forall>w\<in>set ws. fst w \<noteq> sender" by (auto simp: range_first_find find_None_iff)
    then have "filter (\<lambda>w. fst w \<noteq> sender) ws = ws" "filter (\<lambda>w. fst w = sender) ws = []"
      "taken |` (- {r. (sender, r) \<in> set ws}) = taken"
      by (force simp: filter_empty_conv restrict_map_def intro!: filter_True ext)+
    with None show ?thesis by (subst report_down.simps) simp
  next
    case (Some w)
    have "fst w = sender" using Some by (auto simp: range_first_find find_Some_iff)
    then obtain r where w: "w = (sender, r)" "w \<in> set ws"
      using range_first_in [OF Some] by (cases w) simp
    let ?P = "\<lambda>w. fst w = sender"
    note split = find_first_removeAll [of ?P ws w, OF _ 1(2)]
    have "find ?P ws = Some w" using Some by (simp add: range_first_find)
    note f = split(1) [OF this] split(2) [OF this]
    have IH: "report_down env sender receiver reason (removeAll (sender, r) ws) (taken(r := None)) =
      (filter (\<lambda>w. fst w \<noteq> sender) (removeAll (sender, r) ws),
       (taken(r := None)) |` (- {q. (sender, q) \<in> set (removeAll (sender, r) ws)}),
       if env_alive env then map (\<lambda>w. Deliver receiver (Down sender (snd w) (reason = Normal)))
         (filter ?P (removeAll (sender, r) ws)) else [])"
      by (rule 1(1) [OF Some w(1) [symmetric] distinct_removeAll [OF 1(2)]])
    have taken: "(taken(r := None)) |` (- {q. (sender, q) \<in> set (removeAll (sender, r) ws)})
      = taken |` (- {q. (sender, q) \<in> set ws})"
      using w by (auto simp: restrict_map_def fun_eq_iff)
    show ?thesis
      using f w by (subst report_down.simps) (simp only: Some w(1) option.case prod.case IH Let_def taken comp_def, simp)
  qed
qed

section \<open>Choosing a watch reference\<close>

lemma fresh_watch_ref_returns:
  "taken r = None \<Longrightarrow> \<exists>r'. fresh_watch_ref taken n = Some (r', r' + 1) \<and> taken r' = None"
proof (induction "unat (r - n)" arbitrary: n)
  case 0
  then have "n = r" by (simp add: unat_eq_0)
  with 0 show ?case by (subst fresh_watch_ref.simps) simp
next
  case (Suc d)
  show ?case
  proof (cases "taken n")
    case None
    then show ?thesis by (subst fresh_watch_ref.simps) simp
  next
    case (Some w)
    then have "r - n \<noteq> 0" using Suc(3) by auto
    then have "unat (r - (n + 1)) = unat (r - n) - 1"
      using unat_minus_one [of "r - n"] by (simp add: algebra_simps)
    then have "d = unat (r - (n + 1))" using Suc(2) by simp
    from Suc(1) [OF this Suc(3)] Some show ?thesis by (subst fresh_watch_ref.simps) simp
  qed
qed

section \<open>The invariant\<close>

definition watch_rel :: "(address \<rightharpoonup> job_entry) \<Rightarrow> (address \<times> address \<times> watch_ref) set" where
  "watch_rel E = {(a, w). \<exists>e. E a = Some e \<and> w \<in> set (watches e)}"

lemma watch_rel_upd: "watch_rel (E(a \<mapsto> e)) = {x \<in> watch_rel E. fst x \<noteq> a} \<union> {a} \<times> set (watches e)"
  by (auto simp: watch_rel_def split: if_splits)

lemma watch_rel_del: "watch_rel (E(a := None)) = {x \<in> watch_rel E. fst x \<noteq> a}"
  by (auto simp: watch_rel_def split: if_splits)

lemma watch_rel_same: "E a = Some e \<Longrightarrow> watches e' = watches e \<Longrightarrow> watch_rel (E(a \<mapsto> e')) = watch_rel E"
  by (auto simp: watch_rel_def split: if_splits)

lemma watch_rel_entry: "E a = Some e \<Longrightarrow> (a, w) \<in> watch_rel E \<longleftrightarrow> w \<in> set (watches e)"
  by (simp add: watch_rel_def)

definition entry_ok :: "job_entry \<Rightarrow> bool" where
  "entry_ok e \<longleftrightarrow> distinct (linked_to e) \<and> sorted (watches e) \<and> distinct (watches e)
    \<and> sorted (watched_by e) \<and> distinct (watched_by e)"

definition taken_ok :: "(watch_ref \<rightharpoonup> taken_watch) \<Rightarrow> (address \<times> address \<times> watch_ref) set \<Rightarrow> bool" where
  "taken_ok T W \<longleftrightarrow> (\<forall>r a t. T r = Some \<lparr>taken_owner = a, taken_target = t\<rparr> \<longleftrightarrow> (a, t, r) \<in> W)"

definition entries_ok :: "(address \<rightharpoonup> job_entry) \<Rightarrow> bool" where
  "entries_ok E \<longleftrightarrow> (\<forall>e\<in>ran E. entry_ok e)"

definition co_inv :: "address \<Rightarrow> 'j container \<Rightarrow> bool" where
  "co_inv main c \<longleftrightarrow> main \<in> dom (co_entries c) \<and> entries_ok (co_entries c)
    \<and> taken_ok (co_taken c) (watch_rel (co_entries c))"

lemma entries_okD: "entries_ok E \<Longrightarrow> E a = Some e \<Longrightarrow> entry_ok e"
  by (auto simp: entries_ok_def ran_def)

lemma entries_ok_upd: "entries_ok E \<Longrightarrow> entry_ok e \<Longrightarrow> entries_ok (E(a \<mapsto> e))"
  by (auto simp: entries_ok_def ran_def)

lemma entries_ok_del: "entries_ok E \<Longrightarrow> entries_ok (E(a := None))"
  by (auto simp: entries_ok_def ran_def)

lemma entry_ok_default [simp]: "entry_ok job_entry_default"
  by (simp add: entry_ok_def job_entry_default_def)

lemma taken_ok_add:
  "taken_ok T W \<Longrightarrow> T r = None \<Longrightarrow> taken_ok (T(r \<mapsto> \<lparr>taken_owner = a, taken_target = t\<rparr>)) (insert (a, t, r) W)"
  unfolding taken_ok_def by (auto dest: spec [of _ r])

lemma taken_ok_del:
  "taken_ok T W \<Longrightarrow> W' = {x \<in> W. snd (snd x) \<notin> R} \<Longrightarrow> taken_ok (T |` (- R)) W'"
  by (auto simp: taken_ok_def restrict_map_def)

lemma taken_ok_unique: "taken_ok T W \<Longrightarrow> (a, t, r) \<in> W \<Longrightarrow> (a', t', r) \<in> W \<Longrightarrow> a' = a \<and> t' = t"
  unfolding taken_ok_def by (metis option.inject taken_watch.ext_inject)

lemma taken_okD: "taken_ok T W \<Longrightarrow> T r = Some w \<Longrightarrow> (taken_owner w, taken_target w, r) \<in> W"
  by (cases w) (simp add: taken_ok_def)

lemma unwatch_targets_eq:
  "unwatch_targets taken watcher ws =
    (taken |` (- snd ` set ws),
     map (\<lambda>(target, r). SysSend target (Watch (WatchUnwatch watcher target r))) ws)"
  by (induction ws arbitrary: taken) (auto simp: fun_eq_iff restrict_map_def)

lemma entry_down_eq:
  "entry_down normal a e c = (c\<lparr>co_taken := co_taken c |` (- snd ` set (watches e))\<rparr>,
     map (\<lambda>(target, r). SysSend target (Watch (WatchUnwatch a target r))) (watches e)
     @ map (\<lambda>peer. SysSend peer (sys_link_exit_message normal a peer)) (linked_to e)
     @ map (\<lambda>peer. SysSend peer (sys_watch_down_message normal a peer))
         (skip_repeated None (map fst (watched_by e))))"
  by (simp add: entry_down_def unwatch_targets_eq)

section \<open>What the actor's side promises\<close>

fun call_ok :: "'j container \<Rightarrow> 'j sys_call \<Rightarrow> bool" where
  "call_ok c (CallForkAdded a) \<longleftrightarrow> co_entries c a = None"
| "call_ok c (CallLink sender receiver) \<longleftrightarrow> sender \<in> dom (co_entries c)"
| "call_ok c (CallUnlink sender receiver) \<longleftrightarrow> sender \<in> dom (co_entries c)"
| "call_ok c (CallWatch sender receiver) \<longleftrightarrow> sender \<in> dom (co_entries c)"
| "call_ok c _ \<longleftrightarrow> True"

fun msg_ok :: "address \<Rightarrow> 'j container \<Rightarrow> sys_msg \<Rightarrow> bool" where
  "msg_ok main c (ForkDone l) \<longleftrightarrow> lease_address l \<in> dom (co_entries c) \<and> lease_address l \<noteq> main"
| "msg_ok main c _ \<longleftrightarrow> True"

lemma send_or_self_alive: "env_alive env \<Longrightarrow> \<exists>effs. send_or_self env a m f = Some effs"
  by (simp add: send_or_self_def own_system_send_def)

lemma entry_update_inv:
  assumes "co_inv main c" "co_entries c a = Some e" "entry_ok e'" "watches e' = watches e"
  shows "co_inv main (c\<lparr>co_entries := (co_entries c)(a \<mapsto> e')\<rparr>)"
  using assms by (auto simp: co_inv_def watch_rel_same entries_ok_upd)

lemma watches_upd_rel:
  assumes "E a = Some e" "set (watches e') = set (watches e) - ws"
  shows "watch_rel (E(a \<mapsto> e')) = watch_rel E - {a} \<times> ws"
proof -
  have "{x \<in> watch_rel E. fst x \<noteq> a} \<union> {a} \<times> (set (watches e) - ws) = watch_rel E - {a} \<times> ws"
    using assms(1) by (auto simp: watch_rel_entry)
  then show ?thesis unfolding watch_rel_upd assms(2) .
qed

lemma watch_gone_inv:
  assumes "co_inv main c" "co_entries c a = Some e" "entry_ok e'" "set (watches e') = set (watches e) - ws"
    "ws \<subseteq> set (watches e)"
  shows "co_inv main (c\<lparr>co_taken := co_taken c |` (- snd ` ws),
    co_entries := (co_entries c)(a \<mapsto> e')\<rparr>)"
proof -
  have taken: "taken_ok (co_taken c) (watch_rel (co_entries c))" using assms(1) by (simp add: co_inv_def)
  have "watch_rel (co_entries c) - {a} \<times> ws = {x \<in> watch_rel (co_entries c). snd (snd x) \<notin> snd ` ws}"
  proof (rule set_eqI)
    fix x :: "address \<times> address \<times> watch_ref"
    obtain b t r where x: "x = (b, t, r)" by (cases x)
    have "(b, t, r) \<in> {a} \<times> ws" if "(b, t, r) \<in> watch_rel (co_entries c)" "(t', r) \<in> ws" for t'
    proof -
      have "(a, t', r) \<in> watch_rel (co_entries c)"
        using that(2) assms(2,5) by (auto simp: watch_rel_entry)
      from taken_ok_unique [OF taken this that(1)] that(2) show ?thesis by simp
    qed
    then show "x \<in> watch_rel (co_entries c) - {a} \<times> ws
      \<longleftrightarrow> x \<in> {x \<in> watch_rel (co_entries c). snd (snd x) \<notin> snd ` ws}" unfolding x by force
  qed
  then have "taken_ok (co_taken c |` (- snd ` ws)) (watch_rel ((co_entries c)(a \<mapsto> e')))"
    unfolding watches_upd_rel [of "co_entries c", OF assms(2,4)] by (intro taken_ok_del [OF taken]) simp
  then show ?thesis using assms(1-3) by (auto simp: co_inv_def entries_ok_upd)
qed

lemma watch_added_inv:
  assumes "co_inv main c" "co_entries c a = Some e" "co_taken c r = None"
  shows "co_inv main (c\<lparr>co_next_ref := n, co_taken := (co_taken c)(r \<mapsto> \<lparr>taken_owner = a, taken_target = t\<rparr>),
    co_entries := (co_entries c)(a \<mapsto> e\<lparr>watches := btree_insert (t, r) (watches e)\<rparr>)\<rparr>)"
proof -
  have "watch_rel ((co_entries c)(a \<mapsto> e\<lparr>watches := btree_insert (t, r) (watches e)\<rparr>))
    = insert (a, t, r) (watch_rel (co_entries c))"
    using assms(2) by (auto simp: watch_rel_def split: if_splits)
  moreover have "entry_ok (e\<lparr>watches := btree_insert (t, r) (watches e)\<rparr>)"
    using assms(1,2) by (auto simp: co_inv_def entry_ok_def list_sets dest!: entries_okD)
  ultimately show ?thesis using assms by (auto simp: co_inv_def entries_ok_upd taken_ok_add)
qed

lemma fork_gone_taken:
  assumes "taken_ok T (watch_rel E)" "E a = Some e"
  shows "taken_ok (T |` (- snd ` set (watches e))) (watch_rel (E(a := None)))"
proof (rule taken_ok_del [OF assms(1)])
  have "b = a" if "(b, t, r) \<in> watch_rel E" "(t', r) \<in> set (watches e)" for b t t' r
    using taken_ok_unique [OF assms(1) that(1), of a t'] that(2) assms(2) by (simp add: watch_rel_entry)
  moreover have "w \<in> set (watches e)" if "(a, w) \<in> watch_rel E" for w
    using that assms(2) by (simp add: watch_rel_entry)
  ultimately have "fst x \<noteq> a \<longleftrightarrow> snd (snd x) \<notin> snd ` set (watches e)" if "x \<in> watch_rel E" for x
    using that by (cases x) (auto simp: image_iff, metis prod.collapse snd_conv)
  then show "watch_rel (E(a := None)) = {x \<in> watch_rel E. snd (snd x) \<notin> snd ` set (watches e)}"
    unfolding watch_rel_del by blast
qed

lemma fork_gone_inv:
  assumes "co_inv main c" "co_entries c a = Some e" "a \<noteq> main"
  shows "co_inv main (fst (entry_down n a e (c\<lparr>co_entries := (co_entries c)(a := None)\<rparr>)))"
  using fork_gone_taken [of "co_taken c" "co_entries c" a e] assms
  by (simp add: co_inv_def entry_down_eq entries_ok_del domIff)

lemma link_update_inv:
  assumes "co_inv main c" "co_entries c a = Some e" "distinct (linked_to e) \<Longrightarrow> distinct ls"
  shows "co_inv main (c\<lparr>co_entries := (co_entries c)(a \<mapsto> e\<lparr>linked_to := ls\<rparr>)\<rparr>)"
  by (rule entry_update_inv [OF assms(1,2)])
    (use assms in \<open>auto simp: co_inv_def entry_ok_def dest!: entries_okD\<close>)

lemma watched_update_inv:
  assumes "co_inv main c" "co_entries c a = Some e" "entry_ok e \<Longrightarrow> sorted ls \<and> distinct ls"
  shows "co_inv main (c\<lparr>co_entries := (co_entries c)(a \<mapsto> e\<lparr>watched_by := ls\<rparr>)\<rparr>)"
  by (rule entry_update_inv [OF assms(1,2)])
    (use assms in \<open>auto simp: co_inv_def entry_ok_def dest!: entries_okD\<close>)

lemma call_link_inv:
  assumes "co_inv main c" "env_alive env" "co_entries c a = Some e"
  shows "\<exists>ctl c' effs. handle_call env c (CallLink a b) = Some (ctl, c', effs) \<and> co_inv main c'"
proof -
  obtain effs where effs: "send_or_self env b (Link (LinkConnect a b)) (Link (LinkExit b a LinkDown)) = Some effs"
    using send_or_self_alive [OF assms(2)] by blast
  have "co_inv main (c\<lparr>co_entries := (co_entries c)(a \<mapsto> e\<lparr>linked_to := hset_insert b (linked_to e)\<rparr>)\<rparr>)"
    by (rule link_update_inv [OF assms(1,3)]) (simp add: list_sets)
  then show ?thesis using assms(1,3) effs by (cases "b \<in> set (linked_to e)") simp_all
qed

lemma call_watch_inv:
  assumes "co_inv main c" "env_alive env" "co_entries c a = Some e" "co_taken c r0 = None"
  shows "\<exists>ctl c' effs. handle_call env c (CallWatch a b) = Some (ctl, c', effs) \<and> co_inv main c'"
proof -
  obtain r where r: "fresh_watch_ref (co_taken c) (co_next_ref c) = Some (r, r + 1)" "co_taken c r = None"
    using fresh_watch_ref_returns [of "co_taken c" r0 "co_next_ref c"] assms(4) by blast
  obtain effs where "send_or_self env b (Watch (WatchWatch a b r)) (Watch (WatchDown b a LinkDown)) = Some effs"
    using send_or_self_alive [OF assms(2)] by blast
  with watch_added_inv [OF assms(1,3) r(2)] r(1) assms(3) show ?thesis by simp
qed

lemma call_unwatch_inv:
  assumes "co_inv main c"
  shows "\<exists>ctl c' effs. handle_call env c (CallUnwatch a r) = Some (ctl, c', effs) \<and> co_inv main c'"
proof (cases "co_taken c r")
  case (Some w)
  then have "(taken_owner w, taken_target w, r) \<in> watch_rel (co_entries c)"
    using assms by (auto simp: co_inv_def dest: taken_okD)
  then obtain e where e: "co_entries c (taken_owner w) = Some e" "(taken_target w, r) \<in> set (watches e)"
    by (auto simp: watch_rel_def)
  let ?e = "e\<lparr>watches := removeAll (taken_target w, r) (watches e)\<rparr>"
  have ok: "entry_ok ?e"
    using assms e(1) by (auto simp: co_inv_def entry_ok_def list_sets dest!: entries_okD)
  have upd: "co_taken c |` (- snd ` {(taken_target w, r)}) = (co_taken c)(r := None)"
    by (auto simp: restrict_map_def)
  have "co_inv main (c\<lparr>co_taken := (co_taken c)(r := None), co_entries := (co_entries c)(taken_owner w \<mapsto> ?e)\<rparr>)"
    unfolding upd [symmetric] by (rule watch_gone_inv [OF assms e(1) ok]) (use e(2) in auto)
  with e Some show ?thesis by simp
qed (use assms in simp)

lemma call_fork_inv:
  assumes "co_inv main c" "co_entries c a = None"
  shows "co_inv main (c\<lparr>co_entries := (co_entries c)(a \<mapsto> job_entry_default)\<rparr>)"
proof -
  have "watch_rel ((co_entries c)(a \<mapsto> job_entry_default)) = watch_rel (co_entries c)"
    using assms(2) by (auto simp: watch_rel_def job_entry_default_def split: if_splits)
  then show ?thesis using assms(1) by (auto simp: co_inv_def entries_ok_upd)
qed

lemma handle_call_inv':
  assumes "co_inv main c" "env_alive env" "call_ok c call" "\<forall>a b. call \<noteq> CallWatch a b"
  shows "\<exists>ctl c' effs. handle_call env c call = Some (ctl, c', effs) \<and> co_inv main c'"
proof (cases call)
  case (CallForkAdded a)
  then show ?thesis using assms(3) call_fork_inv [OF assms(1), of a] by simp
next
  case (CallLink a b)
  then obtain e where "co_entries c a = Some e" using assms(3) by auto
  from call_link_inv [OF assms(1,2) this] CallLink show ?thesis by blast
next
  case (CallUnlink a b)
  then obtain e where e: "co_entries c a = Some e" using assms(3) by auto
  have "co_inv main (c\<lparr>co_entries := (co_entries c)(a \<mapsto> e\<lparr>linked_to := removeAll b (linked_to e)\<rparr>)\<rparr>)"
    by (rule link_update_inv [OF assms(1) e]) (simp add: list_sets)
  with e CallUnlink show ?thesis by (simp add: hset_remove_def)
next
  case (CallUnwatch a r)
  with call_unwatch_inv [OF assms(1)] show ?thesis by blast
qed (use assms in \<open>simp_all add: co_inv_def\<close>)

lemma handle_call_inv:
  assumes "co_inv main c" "env_alive env" "call_ok c call" "co_taken c r0 = None"
  shows "\<exists>ctl c' effs. handle_call env c call = Some (ctl, c', effs) \<and> co_inv main c'"
proof (cases "\<exists>a b. call = CallWatch a b")
  case True
  then obtain a b e where "call = CallWatch a b" "co_entries c a = Some e" using assms(3) by auto
  with call_watch_inv [OF assms(1,2) _ assms(4)] show ?thesis by blast
qed (use handle_call_inv' [OF assms(1-3)] in blast)

lemma handle_link_inv:
  assumes "co_inv main c"
  shows "\<exists>ctl c' effs. handle_link env c l = Some (ctl, c', effs) \<and> co_inv main c'"
proof (cases "co_entries c (link_receiver l)")
  case None
  then show ?thesis using assms by (cases l) simp_all
next
  case (Some e)
  note keep = link_update_inv [OF assms Some]
  have "distinct (linked_to e) \<Longrightarrow> distinct (hset_insert (link_sender l) (linked_to e))"
    "distinct (linked_to e) \<Longrightarrow> distinct (removeAll (link_sender l) (linked_to e))"
    "distinct (linked_to e) \<Longrightarrow> distinct (linked_to e)" by (simp_all add: list_sets)
  from this [THEN keep] Some assms show ?thesis
    by (cases l) (simp_all add: hset_remove_def Let_def split: exit_reason.splits)
qed

lemma handle_watch_inv:
  assumes "co_inv main c"
  shows "\<exists>ctl c' effs. handle_watch env c w = Some (ctl, c', effs) \<and> co_inv main c'"
proof (cases "co_entries c (watch_receiver w)")
  case None
  then show ?thesis using assms by (cases w) simp_all
next
  case (Some e)
  have e: "entry_ok e" using Some assms by (auto simp: co_inv_def dest: entries_okD)
  note keep = watched_update_inv [OF assms Some]
  show ?thesis
  proof (cases w)
    case (WatchWatch s a r)
    have "sorted (btree_insert (s, r) (watched_by e)) \<and> distinct (btree_insert (s, r) (watched_by e))"
      using e by (simp add: entry_ok_def list_sets)
    from keep [OF this] Some WatchWatch show ?thesis by simp
  next
    case (WatchUnwatch s a r)
    have "sorted (removeAll (s, r) (watched_by e)) \<and> distinct (removeAll (s, r) (watched_by e))"
      using e by (simp add: entry_ok_def list_sets)
    from keep [OF this] Some WatchUnwatch show ?thesis by simp
  next
    case (WatchDown s a reason)
    let ?e = "e\<lparr>watched_by := filter (\<lambda>w. fst w \<noteq> s) (watched_by e), watches := filter (\<lambda>w. fst w \<noteq> s) (watches e)\<rparr>"
    have ok: "entry_ok ?e" using e by (simp add: entry_ok_def sorted_wrt_filter)
    have "set (watches ?e) = set (watches e) - {w \<in> set (watches e). fst w = s}" by auto
    from watch_gone_inv [OF assms Some ok this] have inv: "co_inv main (c\<lparr>co_taken := co_taken c |` (- {r. (s, r) \<in> set (watches e)}),
      co_entries := (co_entries c)(a \<mapsto> ?e)\<rparr>)" using WatchDown by (simp add: refs_on subset_iff)
    have dist: "distinct (watches e)" "distinct (watched_by e)" using e by (simp_all add: entry_ok_def)
    show ?thesis
    proof (intro exI conjI)
      show "handle_watch env c w = Some (Go, c\<lparr>co_taken := co_taken c |` (- {r. (s, r) \<in> set (watches e)}),
        co_entries := (co_entries c)(a \<mapsto> ?e)\<rparr>,
        if env_alive env then map (\<lambda>w. Deliver a (Down s (snd w) (reason = Normal)))
          (filter (\<lambda>w. fst w = s) (watches e)) else [])"
        using Some WatchDown by (simp add: report_down_filter [OF dist(1)] remove_range_filter [OF dist(2)])
    qed (rule inv)
  qed
qed

lemma handle_msg_inv:
  assumes "co_inv main c" "msg_ok main c msg"
  shows "\<exists>ctl c' effs. handle_msg env c msg = Some (ctl, c', effs) \<and> co_inv main c'"
proof (cases msg)
  case (ForkDone l)
  then obtain e where e: "co_entries c (lease_address l) = Some e" "lease_address l \<noteq> main" using assms(2) by auto
  from fork_gone_inv [OF assms(1) e, of True] e(1) ForkDone show ?thesis by (simp add: entry_down_eq)
qed (use assms handle_link_inv handle_watch_inv in simp_all)

end
