(* ===== verification/Fork_Cycle.thy ===== *)
theory Fork_Cycle
  imports Container_Inv
begin

text \<open>
  A running actor as a whole: its container, the channel of calls with room for one, the queue of
  system messages, and its forks. A fork first inserts its entry and builds its context, then sends
  \<open>ForkAdded\<close> through the call channel; dropping the context at any later time queues \<open>ForkDone\<close>
  (\<^verbatim>\<open>Fork::fork\<close> in \<^verbatim>\<open>runtime/context/impl_context_api.rs\<close>, \<open>Drop for ActorContext\<close> in
  \<^verbatim>\<open>runtime/context.rs\<close>, \<open>Tx::invoke\<close> in \<^verbatim>\<open>runtime/sys_call.rs\<close>).
\<close>

section \<open>State and steps\<close>

datatype fork_phase = Waiting | Live

record 'j actor_world =
  aw_container :: "'j container"
  aw_calls :: "'j sys_call list"
  aw_msgs :: "sys_msg list"
  aw_forks :: "address \<rightharpoonup> fork_phase"

definition call_capacity :: nat where "call_capacity = 1"

definition queue_ready :: "'a list \<Rightarrow> 'a option option" where
  "queue_ready q = (case q of [] \<Rightarrow> None | x # _ \<Rightarrow> Some (Some x))"

definition ready_of :: "'j actor_world \<Rightarrow> 'j ready \<Rightarrow> bool" where
  "ready_of w r \<longleftrightarrow> rd_call r = queue_ready (aw_calls w) \<and> rd_msg r = queue_ready (aw_msgs w)"

definition self_msgs :: "container_effect list \<Rightarrow> sys_msg list" where
  "self_msgs effs = concat (map (\<lambda>eff. case eff of SelfSend m \<Rightarrow> [m] | _ \<Rightarrow> []) effs)"

definition done_forks :: "sys_msg list \<Rightarrow> address list" where
  "done_forks msgs = concat (map (\<lambda>m. case m of ForkDone l \<Rightarrow> [lease_address l] | _ \<Rightarrow> []) msgs)"

fun call_sender :: "'j sys_call \<Rightarrow> address option" where
  "call_sender (CallLink sender receiver) = Some sender"
| "call_sender (CallUnlink sender receiver) = Some sender"
| "call_sender (CallWatch sender receiver) = Some sender"
| "call_sender (CallUnwatch sender r) = Some sender"
| "call_sender _ = None"

fun consume :: "'j selected \<Rightarrow> 'j actor_world \<Rightarrow> 'j actor_world" where
  "consume (SelCall call) w = w\<lparr>aw_calls := tl (aw_calls w)\<rparr>"
| "consume (SelMsg msg) w = w\<lparr>aw_msgs := tl (aw_msgs w)\<rparr>"
| "consume _ w = w"

text \<open>
  \<open>fork_begin\<close> takes a lease no fork holds; a lease lives until the container has processed
  \<open>ForkDone\<close>. With \<open>cancels\<close>, a fork may also be dropped while it waits for room in the channel.
\<close>

inductive actor_step :: "bool \<Rightarrow> address \<Rightarrow> 'j actor_world \<Rightarrow> 'j actor_world \<Rightarrow> bool" for cancels main where
  fork_begin: "aw_forks w a = None \<Longrightarrow> a \<notin> set (done_forks (aw_msgs w)) \<Longrightarrow>
    actor_step cancels main w (w\<lparr>aw_forks := (aw_forks w)(a \<mapsto> Waiting)\<rparr>)"
| fork_send: "aw_forks w a = Some Waiting \<Longrightarrow> length (aw_calls w) < call_capacity \<Longrightarrow>
    actor_step cancels main w (w\<lparr>aw_forks := (aw_forks w)(a \<mapsto> Live), aw_calls := aw_calls w @ [CallForkAdded a]\<rparr>)"
| fork_call: "length (aw_calls w) < call_capacity \<Longrightarrow> (\<And>a. call \<noteq> CallForkAdded a) \<Longrightarrow>
    (\<And>a. call_sender call = Some a \<Longrightarrow> aw_forks w a = Some Live) \<Longrightarrow>
    actor_step cancels main w (w\<lparr>aw_calls := aw_calls w @ [call]\<rparr>)"
| fork_drop: "aw_forks w (lease_address l) = Some Live \<Longrightarrow> lease_address l \<noteq> main \<Longrightarrow>
    actor_step cancels main w (w\<lparr>aw_forks := (aw_forks w)(lease_address l := None), aw_msgs := aw_msgs w @ [ForkDone l]\<rparr>)"
| fork_cancel: "cancels \<Longrightarrow> aw_forks w (lease_address l) = Some Waiting \<Longrightarrow>
    actor_step cancels main w (w\<lparr>aw_forks := (aw_forks w)(lease_address l := None), aw_msgs := aw_msgs w @ [ForkDone l]\<rparr>)"
| peer_msg: "(\<And>l. msg \<noteq> ForkDone l) \<Longrightarrow> actor_step cancels main w (w\<lparr>aw_msgs := aw_msgs w @ [msg]\<rparr>)"
| container_turn: "ready_of w r \<Longrightarrow> env_alive env \<Longrightarrow>
    container_step env r (aw_container w) = Some (Inr (Go, c, effs)) \<Longrightarrow>
    actor_step cancels main w (let w' = consume (container_select r) w
      in w'\<lparr>aw_container := c, aw_msgs := aw_msgs w' @ self_msgs effs\<rparr>)"

definition actor_initial :: "address \<Rightarrow> 'j container \<Rightarrow> container_effect list \<Rightarrow> 'j actor_world" where
  "actor_initial main c effs = \<lparr>aw_container = c, aw_calls = [], aw_msgs = self_msgs effs, aw_forks = [main \<mapsto> Live]\<rparr>"

inductive actor_reachable :: "bool \<Rightarrow> address \<Rightarrow> 'j actor_world \<Rightarrow> bool" for cancels main where
  reach_start: "container_start env main link_to = Some (c, effs) \<Longrightarrow>
    actor_reachable cancels main (actor_initial main c effs)"
| reach_step: "actor_reachable cancels main w \<Longrightarrow> actor_step cancels main w w' \<Longrightarrow> actor_reachable cancels main w'"

section \<open>Invariant\<close>

text \<open>
  The container has an entry for exactly those forks that are live or whose \<open>ForkDone\<close> is queued,
  apart from one whose \<open>ForkAdded\<close> is still in the channel.
\<close>

definition aw_inv :: "address \<Rightarrow> 'j actor_world \<Rightarrow> bool" where
  "aw_inv main w \<longleftrightarrow> co_inv main (aw_container w) \<and> aw_forks w main = Some Live \<and> length (aw_calls w) \<le> 1
    \<and> distinct (done_forks (aw_msgs w))
    \<and> (\<forall>a\<in>set (done_forks (aw_msgs w)). aw_forks w a = None)
    \<and> (\<forall>a. CallForkAdded a \<in> set (aw_calls w) \<longrightarrow> aw_forks w a = Some Live \<or> a \<in> set (done_forks (aw_msgs w)))
    \<and> (\<forall>call\<in>set (aw_calls w). \<forall>a. call_sender call = Some a \<longrightarrow> aw_forks w a = Some Live \<or> a \<in> set (done_forks (aw_msgs w)))
    \<and> (\<forall>a. a \<in> dom (co_entries (aw_container w)) \<longleftrightarrow>
        (aw_forks w a = Some Live \<or> a \<in> set (done_forks (aw_msgs w))) \<and> CallForkAdded a \<notin> set (aw_calls w))"

lemma done_forks_simps [simp]:
  "done_forks [] = []" "done_forks (xs @ ys) = done_forks xs @ done_forks ys"
  "done_forks (ForkDone l # xs) = lease_address l # done_forks xs"
  "(\<And>l. m \<noteq> ForkDone l) \<Longrightarrow> done_forks (m # xs) = done_forks xs"
  by (simp_all add: done_forks_def split: sys_msg.splits)

lemma self_msgs_simps [simp]:
  "self_msgs [] = []" "self_msgs (xs @ ys) = self_msgs xs @ self_msgs ys"
  "self_msgs (SelfSend m # xs) = m # self_msgs xs" "self_msgs (SysSend a m # xs) = self_msgs xs"
  "self_msgs (WatchReply r # xs) = self_msgs xs" "self_msgs (Deliver a d # xs) = self_msgs xs"
  "self_msgs (LeaseDropped l # xs) = self_msgs xs"
  by (simp_all add: self_msgs_def)

lemma self_msgs_none: "(\<And>m. SelfSend m \<notin> set effs) \<Longrightarrow> self_msgs effs = []"
  by (auto simp: self_msgs_def split: container_effect.splits)

lemma send_or_self_done: "send_or_self env a m (Link l) = Some effs \<Longrightarrow> done_forks (self_msgs effs) = []"
  "send_or_self env a m (Watch x) = Some effs \<Longrightarrow> done_forks (self_msgs effs) = []"
  by (auto simp: send_or_self_def own_system_send_def split: if_splits)

lemma handle_call_done: "handle_call env c call = Some (ctl, c', effs) \<Longrightarrow> done_forks (self_msgs effs) = []"
  by (cases call) (auto simp: hset_remove_def send_or_self_done split: option.splits if_splits bind_splits)

lemma handle_call_dom:
  "handle_call env c call = Some (ctl, c', effs) \<Longrightarrow>
    dom (co_entries c') = dom (co_entries c) \<union> {a. call = CallForkAdded a}"
  by (cases call) (auto simp: hset_remove_def domIff split: option.splits if_splits bind_splits)

lemma handle_msg_dom:
  "handle_msg env c msg = Some (ctl, c', effs) \<Longrightarrow>
    dom (co_entries c') = dom (co_entries c) - {a. \<exists>l. msg = ForkDone l \<and> a = lease_address l}"
proof (cases msg)
  case (Link l)
  assume "handle_msg env c msg = Some (ctl, c', effs)"
  with Link show ?thesis
    by (cases l) (auto simp: hset_remove_def Let_def domIff split: option.splits if_splits exit_reason.splits)
next
  case (Watch x)
  assume "handle_msg env c msg = Some (ctl, c', effs)"
  with Watch show ?thesis
    by (cases x) (auto simp: Let_def domIff split: option.splits if_splits prod.splits)
next
  case (ForkDone l)
  assume "handle_msg env c msg = Some (ctl, c', effs)"
  with ForkDone show ?thesis by (auto simp: entry_down_eq domIff split: bind_splits if_splits)
qed simp

lemma handle_msg_self: "co_inv main c \<Longrightarrow> handle_msg env c msg = Some (ctl, c', effs) \<Longrightarrow> self_msgs effs = []"
proof (cases msg)
  case (Link l)
  assume "handle_msg env c msg = Some (ctl, c', effs)"
  with Link show ?thesis
    by (cases l) (auto simp: hset_remove_def Let_def split: option.splits if_splits exit_reason.splits)
next
  case (Watch x)
  assume a: "co_inv main c" "handle_msg env c msg = Some (ctl, c', effs)"
  have dist: "distinct (watches e)" if "co_entries c b = Some e" for b e
    using a(1) that by (auto simp: co_inv_def entry_ok_def dest: entries_okD)
  show ?thesis
    by (rule self_msgs_none, cases x)
      (use a(2) Watch dist in \<open>auto simp: report_down_filter split: option.splits if_splits\<close>)
next
  case (ForkDone l)
  assume "handle_msg env c msg = Some (ctl, c', effs)"
  with ForkDone show ?thesis by (intro self_msgs_none) (auto simp: entry_down_eq split: bind_splits)
qed simp

lemma container_start_inv:
  assumes "container_start env main link_to = Some (c, effs)"
  shows "aw_inv main (actor_initial main c effs)"
proof -
  have "\<forall>m\<in>set (self_msgs (concat (map (\<lambda>peer. SysSend peer (Link (LinkConnect main peer))
      # (if env_reach env peer then [] else [SelfSend (Link (LinkExit peer main LinkDown))])) ps))). \<exists>l. m = Link l" for ps
    by (induction ps) auto
  then have "\<forall>m\<in>set (self_msgs effs). \<exists>l. m = Link l"
    using assms by (auto simp: container_start_def Let_def split: if_splits)
  then have "done_forks (self_msgs effs) = []"
    by (induction "self_msgs effs") (auto simp: done_forks_def)
  then show ?thesis using assms
    by (auto simp: aw_inv_def actor_initial_def container_start_def co_inv_def Let_def entries_ok_def entry_ok_def
        job_entry_default_def taken_ok_def watch_rel_def split: if_splits)
qed

lemma select_call:
  "container_select r = SelCall call \<Longrightarrow> rd_call r = Some (Some call) \<or> (\<exists>p. call = CallExit (Inl (Panic p)))"
  by (auto simp: container_select_def split: if_splits option.splits)

lemma select_msg: "container_select r = SelMsg m \<Longrightarrow> rd_call r = None \<and> rd_msg r = Some (Some m)"
  by (auto simp: container_select_def split: if_splits option.splits)

lemma queue_ready_simps:
  "queue_ready q = None \<longleftrightarrow> q = []" "queue_ready q = Some (Some x) \<longleftrightarrow> (\<exists>rest. q = x # rest)"
  "queue_ready q \<noteq> Some None"
  by (auto simp: queue_ready_def split: list.splits)

lemma aw_call_ok:
  assumes "aw_inv main w" "aw_calls w = [call]"
  shows "call_ok (aw_container w) call"
proof (cases call)
  case (CallForkAdded a)
  then have "CallForkAdded a \<in> set (aw_calls w)" using assms(2) by simp
  then have "a \<notin> dom (co_entries (aw_container w))" using assms(1) unfolding aw_inv_def by blast
  with CallForkAdded show ?thesis by (simp add: domIff)
qed (use assms in \<open>auto simp: aw_inv_def dest!: spec\<close>)

lemma aw_msg_ok:
  assumes "aw_inv main w" "aw_calls w = []" "aw_msgs w = msg # rest"
  shows "msg_ok main (aw_container w) msg"
proof (cases msg)
  case (ForkDone l)
  then have "lease_address l \<in> set (done_forks (aw_msgs w))" using assms(3) by simp
  moreover from this have "aw_forks w (lease_address l) = None" using assms(1) by (simp add: aw_inv_def)
  ultimately show ?thesis using assms(1,2) ForkDone by (auto simp: aw_inv_def)
qed simp_all

lemma ready_call:
  assumes "aw_inv main w" "ready_of w r" "rd_call r = Some (Some call)"
  shows "aw_calls w = [call]"
proof -
  have "queue_ready (aw_calls w) = Some (Some call)" using assms(2,3) by (simp add: ready_of_def)
  then obtain rest where "aw_calls w = call # rest" by (auto simp: queue_ready_simps)
  then show ?thesis using assms(1) by (simp add: aw_inv_def)
qed

lemma ready_msg:
  assumes "ready_of w r" "container_select r = SelMsg msg"
  obtains rest where "aw_calls w = []" "aw_msgs w = msg # rest"
proof -
  have "queue_ready (aw_calls w) = None" "queue_ready (aw_msgs w) = Some (Some msg)"
    using assms(1) select_msg [OF assms(2)] by (simp_all add: ready_of_def)
  then show ?thesis using that by (auto simp: queue_ready_simps)
qed

lemma aw_step_ok:
  assumes "aw_inv main w" "ready_of w r" "env_alive env" "co_taken (aw_container w) r0 = None"
  shows "container_step env r (aw_container w) \<noteq> None"
proof -
  have inv: "co_inv main (aw_container w)" using assms(1) by (simp add: aw_inv_def)
  show ?thesis
  proof (cases "container_select r")
    case (SelCall call)
    from select_call [OF this] show ?thesis
    proof
      assume "rd_call r = Some (Some call)"
      from ready_call [OF assms(1,2) this] have "aw_calls w = [call]" .
      from handle_call_inv [OF inv assms(3) aw_call_ok [OF assms(1) this] assms(4)] SelCall show ?thesis
        by (auto simp: container_step_def)
    qed (use SelCall in \<open>auto simp: container_step_def\<close>)
  next
    case (SelMsg msg)
    from ready_msg [OF assms(2) this] obtain rest where "aw_calls w = []" "aw_msgs w = msg # rest" .
    from handle_msg_inv [OF _ aw_msg_ok [OF assms(1) this], of env] assms(1) SelMsg show ?thesis
      by (auto simp: aw_inv_def container_step_def)
  qed (simp_all add: container_step_def)
qed

lemma aw_turn_call:
  assumes "aw_inv main w" "aw_calls w = [call]" "handle_call env (aw_container w) call = Some (Go, c, effs)"
    "co_inv main c"
  shows "aw_inv main (w\<lparr>aw_calls := [], aw_container := c, aw_msgs := aw_msgs w @ self_msgs effs\<rparr>)"
  using assms handle_call_dom [OF assms(3)] handle_call_done [OF assms(3)]
  unfolding aw_inv_def by auto

lemma aw_turn_msg:
  assumes "aw_inv main w" "aw_calls w = []" "aw_msgs w = msg # rest"
    "handle_msg env (aw_container w) msg = Some (Go, c, effs)" "co_inv main c"
  shows "aw_inv main (w\<lparr>aw_container := c, aw_msgs := rest @ self_msgs effs\<rparr>)"
proof -
  have self: "self_msgs effs = []" using handle_msg_self [OF _ assms(4)] assms(1) by (auto simp: aw_inv_def)
  show ?thesis
  proof (cases "\<exists>l. msg = ForkDone l")
    case True
    then obtain l where "msg = ForkDone l" by blast
    then show ?thesis using assms handle_msg_dom [OF assms(4)] self unfolding aw_inv_def by auto
  next
    case False
    then have "done_forks (msg # rest) = done_forks rest" by simp
    with False show ?thesis using assms handle_msg_dom [OF assms(4)] self unfolding aw_inv_def by auto
  qed
qed

lemma fresh_watch_ref_free:
  assumes "fresh_watch_ref taken n = Some y"
  shows "taken (fst y) = None"
  by (rule fresh_watch_ref.raw_induct [where P = "\<lambda>t n y. t (fst y) = None", OF _ assms])
    (auto simp: Let_def split: if_splits)

lemma handle_call_keeps:
  assumes "co_inv main c" "env_alive env" "call_ok c call" "handle_call env c call = Some (ctl, c', effs)"
  shows "co_inv main c'"
proof (cases "\<exists>r0. co_taken c r0 = None")
  case True
  then obtain r0 where "co_taken c r0 = None" ..
  from handle_call_inv [OF assms(1-3) this] assms(4) show ?thesis by auto
next
  case False
  then have "fresh_watch_ref (co_taken c) (co_next_ref c) = None" using fresh_watch_ref_free [of "co_taken c" "co_next_ref c"]
    by (cases "fresh_watch_ref (co_taken c) (co_next_ref c)") blast+
  then have "\<forall>a b. call \<noteq> CallWatch a b" using assms(4) by (auto split: bind_splits)
  then show ?thesis using handle_call_inv' [OF assms(1-3)] assms(4) by auto
qed

lemma aw_step_inv:
  assumes "actor_step False main w w'" "aw_inv main w"
  shows "aw_inv main w'"
  using assms(1)
proof cases
  case (fork_begin a)
  then show ?thesis using assms(2) unfolding aw_inv_def by auto
next
  case (fork_send a)
  then show ?thesis using assms(2) unfolding aw_inv_def call_capacity_def by auto
next
  case (fork_call call)
  then show ?thesis using assms(2) unfolding aw_inv_def call_capacity_def by auto
next
  case (fork_drop l)
  then show ?thesis using assms(2) unfolding aw_inv_def by auto
next
  case (peer_msg msg)
  then show ?thesis using assms(2) unfolding aw_inv_def by auto
next
  case (container_turn r env c effs)
  show ?thesis
  proof (cases "container_select r")
    case (SelCall call)
    then have h: "handle_call env (aw_container w) call = Some (Go, c, effs)"
      using container_turn(4) by (simp add: container_step_def)
    then have "rd_call r = Some (Some call)" using select_call [OF SelCall] by auto
    note calls = ready_call [OF assms(2) container_turn(2) this]
    have "co_inv main c"
      using handle_call_keeps [OF _ container_turn(3) aw_call_ok [OF assms(2) calls] h] assms(2) by (auto simp: aw_inv_def)
    from aw_turn_call [OF assms(2) calls h this] show ?thesis
      using container_turn(1) SelCall calls by (simp add: Let_def)
  next
    case (SelMsg msg)
    then have h: "handle_msg env (aw_container w) msg = Some (Go, c, effs)"
      using container_turn(4) by (simp add: container_step_def)
    from ready_msg [OF container_turn(2) SelMsg] obtain rest where q: "aw_calls w = []" "aw_msgs w = msg # rest" .
    have "co_inv main c"
      using handle_msg_inv [OF _ aw_msg_ok [OF assms(2) q], of env] h assms(2) by (auto simp: aw_inv_def)
    from aw_turn_msg [OF assms(2) q h this] show ?thesis
      using container_turn(1) SelMsg q by (simp add: Let_def)
  qed (use container_turn(1,4) assms(2) in \<open>auto simp: container_step_def aw_inv_def\<close>)
qed simp

lemma aw_reachable_inv: "actor_reachable False main w \<Longrightarrow> aw_inv main w"
  by (induction rule: actor_reachable.induct) (auto intro: container_start_inv aw_step_inv)

section \<open>Properties\<close>

text \<open>C1. A running container never panics, whatever calls its forks make, whatever peers send and
  however the two are interleaved, as long as no fork is dropped while it waits to announce itself
  and a watch reference is left: every call is answered from the entry of its caller, every finished
  fork is known, and every released watch has its owner.\<close>

theorem container_never_panics:
  assumes "actor_reachable False main w" "ready_of w r" "env_alive env" "co_taken (aw_container w) r0 = None"
  shows "container_step env r (aw_container w) \<noteq> None"
  using aw_step_ok [OF aw_reachable_inv [OF assms(1)] assms(2-4)] .

definition demo_ready :: "unit actor_world \<Rightarrow> unit ready" where
  "demo_ready w = \<lparr>rd_shutdown = False, rd_call = queue_ready (aw_calls w), rd_msg = queue_ready (aw_msgs w),
     rd_panic = None, rd_job = None\<rparr>"

definition demo_env :: container_env where
  "demo_env = \<lparr>env_reach = (\<lambda>a. a = 9), env_alive = True\<rparr>"

lemma demo_ready_of: "ready_of w (demo_ready w)"
  by (simp add: ready_of_def demo_ready_def)

lemma demo_start: "\<exists>c. container_start demo_env main [9] = Some (c, [SysSend 9 (Link (LinkConnect main 9))])
    \<and> co_taken (c :: unit container) = Map.empty \<and> dom (co_entries c) = {main}"
  by (simp add: container_start_def demo_env_def)

theorem container_never_panics_witness:
  "\<exists>w :: unit actor_world. actor_reachable False 1 w \<and> aw_calls w = [CallForkAdded 2]
    \<and> co_taken (aw_container w) 0 = None
    \<and> container_step demo_env (demo_ready w) (aw_container w) \<noteq> None"
proof -
  obtain c :: "unit container" and effs where c: "container_start demo_env 1 [9] = Some (c, effs)"
    "co_taken c = Map.empty" using demo_start [of 1] by blast
  let ?w0 = "actor_initial 1 c effs"
  let ?w1 = "?w0\<lparr>aw_forks := (aw_forks ?w0)(2 \<mapsto> Waiting)\<rparr>"
  let ?w2 = "?w1\<lparr>aw_forks := (aw_forks ?w1)(2 \<mapsto> Live), aw_calls := aw_calls ?w1 @ [CallForkAdded 2]\<rparr>"
  have "done_forks (self_msgs effs) = []" using c(1) demo_start [of 1] by auto
  then have "actor_step False 1 ?w0 ?w1" by (intro fork_begin) (simp_all add: actor_initial_def)
  moreover have "actor_step False 1 ?w1 ?w2" by (intro fork_send) (simp_all add: actor_initial_def call_capacity_def)
  ultimately have w: "actor_reachable False 1 ?w2" using reach_start [OF c(1)] by (blast intro: reach_step)
  have "co_taken (aw_container ?w2) 0 = None" "env_alive demo_env"
    using c(2) by (simp_all add: actor_initial_def demo_env_def)
  from container_never_panics [OF w demo_ready_of this(2,1)] w this(1) show ?thesis
    by (intro exI [of _ ?w2]) (simp add: actor_initial_def)
qed

text \<open>C40. A fork that is dropped while it waits for room in the call channel is reported as done
  although it was never announced, and the container panics on the report: with one other call in the
  channel this state is reachable.\<close>

theorem cancelled_fork_panics_container:
  "\<exists>(w :: unit actor_world) r. actor_reachable True main w \<and> ready_of w r
    \<and> (\<forall>env. container_step env r (aw_container w) = None)"
proof -
  obtain c :: "unit container" and effs where c: "container_start demo_env main [9] = Some (c, effs)"
    "dom (co_entries c) = {main}" "self_msgs effs = []" using demo_start [of main] by fastforce
  define a :: address where "a = main + 1"
  let ?l = "lease_trusted \<lparr>na_address = a, na_mask = NetMask 64\<rparr>"
  have a: "a \<noteq> main" "lease_address ?l = a" by (simp_all add: a_def lease_address_def lease_trusted_def)
  let ?w0 = "actor_initial main c effs"
  let ?w1 = "?w0\<lparr>aw_calls := aw_calls ?w0 @ [CallTrapExit True]\<rparr>"
  let ?w2 = "?w1\<lparr>aw_forks := (aw_forks ?w1)(a \<mapsto> Waiting)\<rparr>"
  let ?w3 = "?w2\<lparr>aw_forks := (aw_forks ?w2)(lease_address ?l := None), aw_msgs := aw_msgs ?w2 @ [ForkDone ?l]\<rparr>"
  have "actor_step True main ?w0 ?w1" by (intro fork_call) (auto simp: actor_initial_def call_capacity_def)
  moreover have "actor_step True main ?w1 ?w2"
    by (intro fork_begin) (use a c(3) in \<open>simp_all add: actor_initial_def\<close>)
  moreover have "actor_step True main ?w2 ?w3" by (intro fork_cancel) (simp_all add: a(2))
  ultimately have "actor_reachable True main ?w3" using reach_start [OF c(1)] by (blast intro: reach_step)
  moreover have "container_step demo_env (demo_ready ?w3) (aw_container ?w3)
      = Some (Inr (Go, c\<lparr>co_trap_exit := True\<rparr>, []))"
    by (simp add: demo_ready_def container_step_def container_select_def actor_initial_def queue_ready_def)
  note turn = container_turn [OF demo_ready_of _ this, of True main]
  define w4 where "w4 = (let w' = consume (container_select (demo_ready ?w3)) ?w3
    in w'\<lparr>aw_container := c\<lparr>co_trap_exit := True\<rparr>, aw_msgs := aw_msgs w' @ self_msgs []\<rparr>)"
  have "actor_step True main ?w3 w4" unfolding w4_def by (rule turn) (simp add: demo_env_def)
  ultimately have "actor_reachable True main w4" by (blast intro: reach_step)
  moreover have w4: "aw_calls w4 = []" "aw_msgs w4 = [ForkDone ?l]" "co_entries (aw_container w4) a = None"
    using c(2,3) a by (auto simp: w4_def demo_ready_def container_select_def actor_initial_def queue_ready_def Let_def)
  moreover have "container_step env (demo_ready w4) (aw_container w4) = None" for env
    using w4 a(2) by (simp add: demo_ready_def queue_ready_def container_step_def container_select_def)
  ultimately show ?thesis using demo_ready_of by blast
qed

end
