(* ===== verification/Container_Props.thy ===== *)
theory Container_Props
  imports Container_Inv Fork_Cycle
begin

text \<open>
  What links and watches guarantee: the failure of a linked actor reaches its peer, every watch
  reports the end of its target once, and the epilogue of a container leaves nothing behind.
\<close>

section \<open>The epilogue\<close>

lemma distinct_count: "distinct xs \<Longrightarrow> x \<in> set xs \<Longrightarrow> count_list xs x = 1"
  by (induction xs) auto

definition notified :: "bool \<Rightarrow> address \<Rightarrow> job_entry \<Rightarrow> container_effect list \<Rightarrow> bool" where
  "notified ok a e effs \<longleftrightarrow>
     (\<forall>peer\<in>set (linked_to e). SysSend peer (sys_link_exit_message ok a peer) \<in> set effs)
   \<and> (\<forall>peer\<in>fst ` set (watched_by e). SysSend peer (sys_watch_down_message ok a peer) \<in> set effs)
   \<and> (\<forall>(target, r)\<in>set (watches e). SysSend target (Watch (WatchUnwatch a target r)) \<in> set effs)"

fun answered :: "bool \<Rightarrow> container_effect list \<Rightarrow> sys_msg \<Rightarrow> bool" where
  "answered ok effs (Link (LinkConnect sender receiver)) \<longleftrightarrow>
     SysSend sender (sys_link_exit_message ok receiver sender) \<in> set effs"
| "answered ok effs (Watch (WatchWatch sender receiver r)) \<longleftrightarrow>
     SysSend sender (sys_watch_down_message ok receiver sender) \<in> set effs"
| "answered ok effs (ForkDone l) \<longleftrightarrow> LeaseDropped l \<in> set effs"
| "answered ok effs _ \<longleftrightarrow> True"

lemma notified_mono: "notified ok a e effs \<Longrightarrow> set effs \<subseteq> set effs' \<Longrightarrow> notified ok a e effs'"
  unfolding notified_def by blast

lemma answered_mono: "answered ok effs m \<Longrightarrow> set effs \<subseteq> set effs' \<Longrightarrow> answered ok effs' m"
  by (cases "(ok, effs, m)" rule: answered.cases) auto

lemma entry_down_notified:
  "entry_ok e \<Longrightarrow> notified ok a e (snd (entry_down ok a e c))"
  by (auto simp: notified_def entry_down_eq watchers_once entry_ok_def)

lemma teardown_msg_spec:
  assumes "teardown_msg ok c m = (c', effs)" "entries_ok (co_entries c)" "taken_ok (co_taken c) (watch_rel (co_entries c))"
  shows "co_entries c' = co_entries c |` (- set (done_forks [m]))"
    "taken_ok (co_taken c') (watch_rel (co_entries c'))" "answered ok effs m"
    "\<And>a e. a \<in> set (done_forks [m]) \<Longrightarrow> co_entries c a = Some e \<Longrightarrow> notified ok a e effs"
proof -
  have "co_entries c' = co_entries c |` (- set (done_forks [m])) \<and> taken_ok (co_taken c') (watch_rel (co_entries c'))
    \<and> answered ok effs m
    \<and> (\<forall>a e. a \<in> set (done_forks [m]) \<longrightarrow> co_entries c a = Some e \<longrightarrow> notified ok a e effs)"
  proof (cases "\<exists>l. m = ForkDone l")
    case True
    then obtain l where m: "m = ForkDone l" ..
    show ?thesis
    proof (cases "co_entries c (lease_address l)")
      case None
      then have "co_entries c |` (- {lease_address l}) = co_entries c"
        by (auto simp: restrict_map_def fun_eq_iff)
      with None m assms show ?thesis by auto
    next
      case (Some e)
      let ?c = "c\<lparr>co_entries := (co_entries c)(lease_address l := None)\<rparr>"
      have c': "c' = fst (entry_down ok (lease_address l) e ?c)"
        "effs = snd (entry_down ok (lease_address l) e ?c) @ [LeaseDropped l]"
        using assms(1) m Some by (auto simp: split_beta)
      have "notified ok (lease_address l) e effs"
        by (rule notified_mono [OF entry_down_notified [of e ok "lease_address l" ?c]])
          (use entries_okD [OF assms(2) Some] in \<open>auto simp: c'(2)\<close>)
      moreover have "co_entries c' = co_entries c |` (- {lease_address l})"
        by (auto simp: c'(1) entry_down_eq restrict_map_def fun_eq_iff)
      moreover have "taken_ok (co_taken c') (watch_rel (co_entries c'))"
        using fork_gone_taken [OF assms(3) Some] by (simp add: c'(1) entry_down_eq)
      ultimately show ?thesis using Some m c'(2) by simp
    qed
  next
    case False
    then have "c' = c \<and> answered ok effs m"
      using assms(1) by (cases "(ok, c, m)" rule: teardown_msg.cases) auto
    moreover have "done_forks [m] = []" using False by simp
    ultimately show ?thesis using assms(3) by (simp add: restrict_map_def)
  qed
  then show "co_entries c' = co_entries c |` (- set (done_forks [m]))"
    "taken_ok (co_taken c') (watch_rel (co_entries c'))" "answered ok effs m"
    "\<And>a e. a \<in> set (done_forks [m]) \<Longrightarrow> co_entries c a = Some e \<Longrightarrow> notified ok a e effs" by auto
qed

lemma entries_ok_restrict: "entries_ok E \<Longrightarrow> entries_ok (E |` A)"
  by (auto simp: entries_ok_def ran_def restrict_map_def split: if_splits)

lemma teardown_msgs_spec:
  assumes "teardown_msgs ok c ms = (c', effs)" "entries_ok (co_entries c)" "taken_ok (co_taken c) (watch_rel (co_entries c))"
  shows "co_entries c' = co_entries c |` (- set (done_forks ms)) \<and> taken_ok (co_taken c') (watch_rel (co_entries c'))
    \<and> (\<forall>m\<in>set ms. answered ok effs m)
    \<and> (\<forall>a e. a \<in> set (done_forks ms) \<longrightarrow> co_entries c a = Some e \<longrightarrow> notified ok a e effs)"
  using assms
proof (induction ms arbitrary: c c' effs)
  case (Cons m ms)
  obtain c1 effs1 where 1: "teardown_msg ok c m = (c1, effs1)" by fastforce
  obtain effs2 where 2: "teardown_msgs ok c1 ms = (c', effs2)" "effs = effs1 @ effs2"
    using Cons.prems(1) 1 by (cases "teardown_msgs ok c1 ms") auto
  note m = teardown_msg_spec [OF 1 Cons.prems(2,3)]
  have "entries_ok (co_entries c1)" using m(1) Cons.prems(2) by (simp add: entries_ok_restrict)
  note IH = Cons.IH [OF 2(1) this m(2)]
  have "done_forks (m # ms) = done_forks [m] @ done_forks ms"
    using done_forks_simps(2) [of "[m]" ms] by simp
  then have "co_entries c' = co_entries c |` (- set (done_forks (m # ms)))" using IH m(1)
    by (simp add: restrict_map_def fun_eq_iff)
  moreover have "notified ok a e effs" if "a \<in> set (done_forks (m # ms))" "co_entries c a = Some e" for a e
  proof (cases "a \<in> set (done_forks [m])")
    case True
    from notified_mono [OF m(4) [OF this that(2)]] show ?thesis by (simp add: 2(2))
  next
    case False
    then have "co_entries c1 a = Some e" "a \<in> set (done_forks ms)"
      using that m(1) \<open>done_forks (m # ms) = done_forks [m] @ done_forks ms\<close> by auto
    with IH have "notified ok a e effs2" by blast
    from notified_mono [OF this] show ?thesis by (simp add: 2(2))
  qed
  moreover have "answered ok effs x" if "x \<in> set (m # ms)" for x
    using that m(3) IH answered_mono [of ok effs1 x effs] answered_mono [of ok effs2 x effs] by (auto simp: 2(2))
  ultimately show ?case using IH by blast
qed (auto simp: restrict_map_def fun_eq_iff)

text \<open>C2. When the actor has ended and all its forks have reported, the epilogue of its container does
  not panic and leaves no entry and no watch reference: every peer linked to any of its forks is sent
  an exit, every watcher a notice, every watched target is unwatched, and every link or watch request
  still in the queue is answered.\<close>

theorem container_epilogue_complete:
  assumes "co_inv main c" "dom (co_entries c) \<subseteq> insert main (set (done_forks msgs))" "main \<notin> set (done_forks msgs)"
  shows "\<exists>c' effs. container_teardown True main reason msgs c = Some (c', effs)
    \<and> co_entries c' = Map.empty \<and> co_taken c' = Map.empty
    \<and> (\<forall>a e. co_entries c a = Some e \<longrightarrow> notified (exit_is_ok reason) a e effs)
    \<and> (\<forall>m\<in>set msgs. answered (exit_is_ok reason) effs m)"
proof -
  let ?ok = "exit_is_ok reason"
  obtain c1 effs1 where 1: "teardown_msgs ?ok c msgs = (c1, effs1)" by fastforce
  have ok: "entries_ok (co_entries c)" "taken_ok (co_taken c) (watch_rel (co_entries c))"
    using assms(1) by (simp_all add: co_inv_def)
  note spec = teardown_msgs_spec [OF 1 ok]
  obtain e where e: "co_entries c main = Some e" using assms(1) by (auto simp: co_inv_def)
  then have e1: "co_entries c1 main = Some e" using spec assms(3) by simp
  let ?c = "c1\<lparr>co_entries := (co_entries c1)(main := None)\<rparr>"
  define c2 effs2 where "c2 = fst (entry_down ?ok main e ?c)" and "effs2 = snd (entry_down ?ok main e ?c)"
  have run: "container_teardown True main reason msgs c = Some (c2, effs1 @ effs2)"
    using 1 e1 by (simp add: container_teardown_def c2_def effs2_def split_beta Let_def)
  have empty: "co_entries c2 = Map.empty"
    using assms(2) spec by (auto simp: c2_def entry_down_eq restrict_map_def fun_eq_iff)
  have "taken_ok (co_taken c2) (watch_rel (co_entries c2))"
    using fork_gone_taken [OF conjunct1 [OF conjunct2 [OF spec]] e1] by (simp add: c2_def entry_down_eq)
  then have taken: "co_taken c2 r = None" for r
    using taken_okD [of "co_taken c2" _ r] empty by (cases "co_taken c2 r") (auto simp: watch_rel_def)
  have "notified ?ok main e effs2" using entry_down_notified [OF entries_okD [OF ok(1) e]] by (simp add: effs2_def)
  then have "notified ?ok a e' (effs1 @ effs2)" if "co_entries c a = Some e'" for a e'
    using that assms(2) spec e notified_mono [of ?ok a e' effs1 "effs1 @ effs2"]
      notified_mono [of ?ok main e effs2 "effs1 @ effs2"] by (cases "a = main") auto
  moreover have "answered ?ok (effs1 @ effs2) m" if "m \<in> set msgs" for m
    using that spec answered_mono [of ?ok effs1 m "effs1 @ effs2"] by simp
  ultimately show ?thesis using run empty taken by (intro exI conjI ext) auto
qed

definition demo_entry :: job_entry where
  "demo_entry = \<lparr>linked_to = [7], watches = [(5, 0)], watched_by = [(6, 1), (6, 2)]\<rparr>"

definition demo_container :: "unit container" where
  "demo_container = \<lparr>co_entries = [1 \<mapsto> demo_entry, 2 \<mapsto> job_entry_default],
     co_taken = [0 \<mapsto> \<lparr>taken_owner = 1, taken_target = 5\<rparr>], co_next_ref = 1, co_trap_exit = False, co_jobs = []\<rparr>"

definition demo_fork :: lease where
  "demo_fork = lease_trusted \<lparr>na_address = 2, na_mask = NetMask 64\<rparr>"

lemma demo_container_inv: "co_inv 1 demo_container"
  by (auto simp: co_inv_def demo_container_def demo_entry_def job_entry_default_def entries_ok_def entry_ok_def
      taken_ok_def watch_rel_def less_eq_prod_def split: if_splits)

theorem container_epilogue_complete_witness:
  "\<exists>c' effs. container_teardown True 1 (Inl Killed) [ForkDone demo_fork] demo_container = Some (c', effs)
    \<and> co_entries c' = Map.empty \<and> co_taken c' = Map.empty
    \<and> (\<forall>a e. co_entries demo_container a = Some e \<longrightarrow> notified (exit_is_ok (Inl Killed)) a e effs)
    \<and> (\<forall>m\<in>set [ForkDone demo_fork]. answered (exit_is_ok (Inl Killed)) effs m)"
  by (rule container_epilogue_complete [OF demo_container_inv])
    (auto simp: demo_container_def demo_fork_def lease_address_def lease_trusted_def split: if_splits)

section \<open>Links\<close>

text \<open>C4. Once an actor has linked to another, the failure of the other reaches it: the peer's
  container is sent one exit by the epilogue, which ends the linked actor when it does not trap exits
  and becomes one message in its inbox when it does.\<close>

theorem link_failure_propagates:
  assumes "co_inv main ca" "co_entries ca a = Some ea" "b \<notin> set (linked_to ea)" "env_reach env b" "env_alive env"
    "co_inv b cb"
  shows "\<exists>ca1 cb1 cb2 effs. handle_call env ca (CallLink a b) = Some (Go, ca1, [SysSend b (Link (LinkConnect a b))])
    \<and> handle_msg envb cb (Link (LinkConnect a b)) = Some (Go, cb1, [])
    \<and> container_teardown True b (Inl err) [] cb1 = Some (cb2, effs)
    \<and> count_list effs (SysSend a (Link (LinkExit b a LinkDown))) = 1
    \<and> (\<exists>ca2. handle_msg env ca1 (Link (LinkExit b a LinkDown)) =
        Some (if co_trap_exit ca then (Go, ca2, [Deliver a (Exited b False)]) else (Break (Inl (Collateral b)), ca2, [])))"
proof -
  let ?ea = "ea\<lparr>linked_to := hset_insert b (linked_to ea)\<rparr>"
  let ?ca1 = "ca\<lparr>co_entries := (co_entries ca)(a \<mapsto> ?ea)\<rparr>"
  obtain eb where eb: "co_entries cb b = Some eb" "entry_ok eb"
    using assms(6) by (auto simp: co_inv_def dest: entries_okD)
  let ?eb = "eb\<lparr>linked_to := hset_insert a (linked_to eb)\<rparr>"
  let ?cb1 = "cb\<lparr>co_entries := (co_entries cb)(b \<mapsto> ?eb)\<rparr>"
  have "handle_call env ca (CallLink a b) = Some (Go, ?ca1, [SysSend b (Link (LinkConnect a b))])"
    using assms(2-4) by (simp add: send_or_self_def)
  moreover have "handle_msg envb cb (Link (LinkConnect a b)) = Some (Go, ?cb1, [])" using eb by simp
  moreover obtain cb2 effs where run: "container_teardown True b (Inl err) [] ?cb1 = Some (cb2, effs)"
    "effs = snd (entry_down False b ?eb (?cb1\<lparr>co_entries := (co_entries ?cb1)(b := None)\<rparr>))"
    by (cases "entry_down False b ?eb (?cb1\<lparr>co_entries := (co_entries ?cb1)(b := None)\<rparr>)")
      (simp add: container_teardown_def exit_is_ok_def)
  moreover have "count_list effs (SysSend a (Link (LinkExit b a LinkDown))) = 1"
  proof -
    let ?x = "SysSend a (Link (LinkExit b a LinkDown))" and ?f = "\<lambda>p. SysSend p (sys_link_exit_message False b p)"
    have "inj ?f" and x: "?x = ?f a" by (auto simp: inj_def sys_link_exit_message_def)
    then have "count_list (map ?f xs) ?x = count_list xs a" for xs unfolding x by (intro count_list_map_conv)
    moreover have "distinct (linked_to ?eb)" using eb(2) by (simp add: entry_ok_def list_sets)
    then have "count_list (linked_to ?eb) a = 1" by (simp add: distinct_count)
    ultimately show ?thesis unfolding run(2)
      by (simp add: entry_down_eq sys_watch_down_message_def count_list_0_iff image_iff case_prod_beta)
  qed
  moreover have "\<exists>ca2. handle_msg env ?ca1 (Link (LinkExit b a LinkDown)) =
      Some (if co_trap_exit ca then (Go, ca2, [Deliver a (Exited b False)]) else (Break (Inl (Collateral b)), ca2, []))"
    using assms(5) by (simp add: hset_remove_def Let_def)
  ultimately show ?thesis by blast
qed

theorem link_failure_propagates_witness:
  "\<exists>ca1 cb1 cb2 effs. handle_call demo_env demo_container (CallLink 1 9) = Some (Go, ca1, [SysSend 9 (Link (LinkConnect 1 9))])
    \<and> handle_msg demo_env (demo_container\<lparr>co_entries := [9 \<mapsto> job_entry_default], co_taken := Map.empty\<rparr>)
        (Link (LinkConnect 1 9)) = Some (Go, cb1, [])
    \<and> container_teardown True 9 (Inl Killed) [] cb1 = Some (cb2, effs)
    \<and> count_list effs (SysSend 1 (Link (LinkExit 9 1 LinkDown))) = 1
    \<and> (\<exists>ca2. handle_msg demo_env ca1 (Link (LinkExit 9 1 LinkDown)) =
        Some (if co_trap_exit demo_container then (Go, ca2, [Deliver 1 (Exited 9 False)])
          else (Break (Inl (Collateral 9)), ca2, [])))"
proof (rule link_failure_propagates [OF demo_container_inv, of 1 demo_entry])
  show "co_inv 9 (demo_container\<lparr>co_entries := [9 \<mapsto> job_entry_default], co_taken := Map.empty\<rparr>)"
    by (auto simp: co_inv_def job_entry_default_def entries_ok_def entry_ok_def taken_ok_def watch_rel_def)
qed (simp_all add: demo_container_def demo_entry_def demo_env_def)

section \<open>Watches\<close>

text \<open>C3. A notice that a watched actor has ended is delivered once for every watch the fork still has
  on it, in the order of the references, and never again: the references handed out for it are free
  afterwards, all others are kept, and a repeated notice delivers nothing.\<close>

theorem watch_down_delivered_once:
  assumes "co_inv main c" "env_alive env" "co_entries c a = Some e"
  shows "\<exists>c' refs. handle_msg env c (Watch (WatchDown b a reason)) =
      Some (Go, c', map (\<lambda>r. Deliver a (Down b r (reason = Normal))) refs)
    \<and> sorted_wrt (<) refs \<and> set refs = {r. co_taken c r = Some \<lparr>taken_owner = a, taken_target = b\<rparr>}
    \<and> (\<forall>r. co_taken c' r = (if r \<in> set refs then None else co_taken c r))
    \<and> (\<exists>c''. handle_msg env c' (Watch (WatchDown b a reason)) = Some (Go, c'', []))"
proof -
  have e: "sorted (watches e)" "distinct (watches e)" "distinct (watched_by e)"
    using entries_okD [of "co_entries c" a e] assms(1,3) by (auto simp: co_inv_def entry_ok_def)
  let ?ws = "filter (\<lambda>w. fst w = b) (watches e)"
  let ?e = "e\<lparr>watched_by := remove_range b (watched_by e), watches := filter (\<lambda>w. fst w \<noteq> b) (watches e)\<rparr>"
  let ?c = "c\<lparr>co_taken := co_taken c |` (- {r. (b, r) \<in> set (watches e)}), co_entries := (co_entries c)(a \<mapsto> ?e)\<rparr>"
  have "handle_msg env c (Watch (WatchDown b a reason)) =
      Some (Go, ?c, map (\<lambda>r. Deliver a (Down b r (reason = Normal))) (map snd ?ws))"
    using assms(2,3) e by (simp add: report_down_filter)
  moreover have "sorted_wrt (<) (map snd ?ws)"
  proof -
    have "sorted_wrt (<) ?ws" using e(1,2) by (simp add: strict_sorted_iff sorted_wrt_filter)
    then show ?thesis unfolding sorted_wrt_map
      by (rule sorted_wrt_mono_rel [rotated]) (auto simp: less_prod_def)
  qed
  moreover have refs: "set (map snd ?ws) = {r. (b, r) \<in> set (watches e)}" using refs_on [of "set (watches e)" b] by simp
  moreover have "{r. (b, r) \<in> set (watches e)} = {r. co_taken c r = Some \<lparr>taken_owner = a, taken_target = b\<rparr>}"
    using assms(1,3) by (auto simp: co_inv_def taken_ok_def watch_rel_entry)
  moreover have "co_taken ?c r = (if r \<in> set (map snd ?ws) then None else co_taken c r)" for r
    unfolding refs by (simp add: restrict_map_def)
  moreover have "\<exists>c''. handle_msg env ?c (Watch (WatchDown b a reason)) = Some (Go, c'', [])"
    using assms(3) e by (simp add: report_down_filter)
  ultimately show ?thesis by (intro exI [of _ ?c] exI [of _ "map snd ?ws"]) simp
qed

theorem watch_down_delivered_once_witness:
  "\<exists>c' refs. handle_msg demo_env demo_container (Watch (WatchDown 5 1 Normal)) =
      Some (Go, c', map (\<lambda>r. Deliver 1 (Down 5 r (Normal = Normal))) refs)
    \<and> sorted_wrt (<) refs \<and> set refs = {r. co_taken demo_container r = Some \<lparr>taken_owner = 1, taken_target = 5\<rparr>}
    \<and> (\<forall>r. co_taken c' r = (if r \<in> set refs then None else co_taken demo_container r))
    \<and> (\<exists>c''. handle_msg demo_env c' (Watch (WatchDown 5 1 Normal)) = Some (Go, c'', []))"
  by (rule watch_down_delivered_once [OF demo_container_inv, of _ 1 demo_entry])
    (simp_all add: demo_env_def demo_container_def)

end
