(* ===== verification/Ordered_Map.thy ===== *)
theory Ordered_Map
  imports Address_Range
begin

text \<open>
  The standard library's \<open>BTreeMap\<close> for keys whose order is given by a comparison: an association
  list in ascending order, searched from the left. The comparison of address ranges calls overlapping
  ranges equal, so it is an order only between keys that do not overlap; the locale states what the
  map needs of a comparison.
\<close>

fun om_find :: "('k \<Rightarrow> 'k \<Rightarrow> ordering) \<Rightarrow> 'k \<Rightarrow> ('k \<times> 'v) list \<Rightarrow> ('k \<times> 'v) option" where
  "om_find c k [] = None"
| "om_find c k ((k', v) # m) = (case c k k' of
     Less \<Rightarrow> None
   | Equal \<Rightarrow> Some (k', v)
   | Greater \<Rightarrow> om_find c k m)"

text \<open>Inserting at a key that compares equal to one of the map keeps that key.\<close>

fun om_insert :: "('k \<Rightarrow> 'k \<Rightarrow> ordering) \<Rightarrow> 'k \<Rightarrow> 'v \<Rightarrow> ('k \<times> 'v) list \<Rightarrow> ('k \<times> 'v) list" where
  "om_insert c k v [] = [(k, v)]"
| "om_insert c k v ((k', v') # m) = (case c k k' of
     Less \<Rightarrow> (k, v) # (k', v') # m
   | Equal \<Rightarrow> (k', v) # m
   | Greater \<Rightarrow> (k', v') # om_insert c k v m)"

fun om_remove :: "('k \<Rightarrow> 'k \<Rightarrow> ordering) \<Rightarrow> 'k \<Rightarrow> ('k \<times> 'v) list \<Rightarrow> ('k \<times> 'v) list" where
  "om_remove c k [] = []"
| "om_remove c k ((k', v') # m) = (case c k k' of
     Less \<Rightarrow> (k', v') # m
   | Equal \<Rightarrow> m
   | Greater \<Rightarrow> (k', v') # om_remove c k m)"

text \<open>\<open>range(k..).next()\<close> and \<open>range(..k).next_back()\<close>.\<close>

definition om_first_from :: "('k \<Rightarrow> 'k \<Rightarrow> ordering) \<Rightarrow> 'k \<Rightarrow> ('k \<times> 'v) list \<Rightarrow> ('k \<times> 'v) option" where
  "om_first_from c k m = find (\<lambda>e. c k (fst e) \<noteq> Greater) m"

definition om_last_below :: "('k \<Rightarrow> 'k \<Rightarrow> ordering) \<Rightarrow> 'k \<Rightarrow> ('k \<times> 'v) list \<Rightarrow> ('k \<times> 'v) option" where
  "om_last_below c k m = find (\<lambda>e. c k (fst e) = Greater) (rev m)"

definition om_sorted :: "('k \<Rightarrow> 'k \<Rightarrow> ordering) \<Rightarrow> ('k \<times> 'v) list \<Rightarrow> bool" where
  "om_sorted c m \<longleftrightarrow> sorted_wrt (\<lambda>x y. c (fst x) (fst y) = Less) m"

lemma om_sorted_simps [simp]:
  "om_sorted c []"
  "om_sorted c (x # m) \<longleftrightarrow> (\<forall>y\<in>set m. c (fst x) (fst y) = Less) \<and> om_sorted c m"
  by (simp_all add: om_sorted_def)

locale key_order =
  fixes c :: "'k \<Rightarrow> 'k \<Rightarrow> ordering" and ok :: "'k \<Rightarrow> bool"
  assumes reverse_law: "ok a \<Longrightarrow> ok b \<Longrightarrow> c b a = ordering_reverse (c a b)"
    and trans_law: "ok a \<Longrightarrow> ok b \<Longrightarrow> ok d \<Longrightarrow> c a b = Less \<Longrightarrow> c b d = Less \<Longrightarrow> c a d = Less"
    and refl_law: "ok a \<Longrightarrow> c a a = Equal"
begin

definition map_ok :: "('k \<times> 'v) list \<Rightarrow> bool" where
  "map_ok m \<longleftrightarrow> om_sorted c m \<and> (\<forall>e\<in>set m. ok (fst e))"

lemma map_ok_simps [simp]:
  "map_ok []"
  "map_ok (x # m) \<longleftrightarrow> (\<forall>y\<in>set m. c (fst x) (fst y) = Less) \<and> ok (fst x) \<and> map_ok m"
  by (auto simp: map_ok_def)

lemma greater_less: "ok a \<Longrightarrow> ok b \<Longrightarrow> c a b = Greater \<longleftrightarrow> c b a = Less"
  by (subst reverse_law [of b a]) (cases "c b a"; simp)+

lemma equal_sym: "ok a \<Longrightarrow> ok b \<Longrightarrow> c a b = Equal \<longleftrightarrow> c b a = Equal"
  by (subst reverse_law [of b a]) (cases "c b a"; simp)+

lemma find_None: "map_ok m \<Longrightarrow> ok k \<Longrightarrow> om_find c k m = None \<longleftrightarrow> (\<forall>e\<in>set m. c k (fst e) \<noteq> Equal)"
proof (induction m)
  case (Cons x m)
  obtain k' v where x: "x = (k', v)" by (cases x)
  have "c k (fst e) = Less" if "c k k' = Less" "e \<in> set m" for e
    using that Cons.prems x by (auto simp: map_ok_def intro: trans_law [of k k'])
  with Cons x show ?case by (auto split: ordering.splits)
qed simp

lemma find_Some: "om_find c k m = Some e \<Longrightarrow> e \<in> set m \<and> c k (fst e) = Equal"
  by (induction m) (auto split: ordering.splits)

lemma insert_vacant:
  assumes "map_ok m" "ok k" "om_find c k m = None"
  shows "set (om_insert c k v m) = insert (k, v) (set m) \<and> map_ok (om_insert c k v m)"
  using assms
proof (induction m)
  case (Cons x m)
  obtain k' v' where x: "x = (k', v')" by (cases x)
  show ?case
  proof (cases "c k k'")
    case Less
    then have "c k (fst e) = Less" if "e \<in> set m" for e
      using that Cons.prems x by (auto simp: map_ok_def intro: trans_law [of k k'])
    with Less Cons.prems x show ?thesis by auto
  next
    case Greater
    then have "c k' k = Less" using Cons.prems x by (simp add: greater_less)
    with Greater Cons x show ?thesis by auto
  qed (use Cons.prems x in simp)
qed simp

lemma remove_found:
  assumes "map_ok m" "ok k" "om_find c k m = Some e"
  shows "set (om_remove c k m) = set m - {e} \<and> map_ok (om_remove c k m)"
  using assms
proof (induction m)
  case (Cons x m)
  obtain k' v' where x: "x = (k', v')" by (cases x)
  have not_in: "x \<notin> set m" using Cons.prems x refl_law [of k'] by auto
  show ?case
  proof (cases "c k k'")
    case Equal
    with Cons.prems x not_in show ?thesis by auto
  next
    case Greater
    then have e: "om_find c k m = Some e" using Cons.prems x by simp
    then have "e \<noteq> x" using find_Some not_in by blast
    with Greater Cons.IH [OF _ Cons.prems(2) e] Cons.prems x show ?thesis by auto
  qed (use Cons.prems x in simp)
qed simp

lemma remove_absent: "map_ok m \<Longrightarrow> ok k \<Longrightarrow> om_find c k m = None \<Longrightarrow> om_remove c k m = m"
  by (induction m) (auto split: ordering.splits)

lemma keys_disjoint: "map_ok m \<Longrightarrow> x \<in> set m \<Longrightarrow> y \<in> set m \<Longrightarrow> x \<noteq> y \<Longrightarrow> c (fst x) (fst y) \<noteq> Equal"
proof (induction m)
  case (Cons z m)
  then show ?case using equal_sym [of "fst y" "fst x"] by (auto simp: map_ok_def)
qed simp

end

lemma ordering_reverse_iff: "ordering_reverse x = Less \<longleftrightarrow> x = Greater" "ordering_reverse x = Equal \<longleftrightarrow> x = Equal"
  by (cases x; simp)+

interpretation rng: key_order range_cmp range_ok
proof
  show "range_cmp a a = Equal" if "range_ok a" for a
    using that range_cmp_Equal [of a a] by (auto simp: range_set_def range_ok_def)
qed (use range_cmp_reverse range_cmp_Less_trans in blast)+

end
