(* ===== verification/Node_Registry.thy ===== *)
theory Node_Registry
  imports Ordered_Map Lease_Pool
begin

text \<open>
  The node's registry of networks and the way a message enters an inbox,
  \<^verbatim>\<open>core/mm1-node/src/registry.rs\<close>. The concurrent ordered index of the crate \<open>scc\<close> is a parameter,
  the record of the operations the registry calls; the locale \<open>range_index\<close> states what is relied on.
  The semaphore of \<open>tokio\<close> is a parameter in the same way. Channels are the lists of the messages
  sent through them and not yet received; whether a channel takes a message is an argument.
\<close>

section \<open>The registry\<close>

record ('t, 'n) index_ops =
  ix_insert :: "'t \<Rightarrow> address_range \<Rightarrow> 'n \<Rightarrow> 't option"
  ix_peek_entry :: "'t \<Rightarrow> address_range \<Rightarrow> (address_range \<times> 'n) option"
  ix_remove :: "'t \<Rightarrow> address_range \<Rightarrow> bool \<times> 't"

definition registry_register :: "('t, 'n) index_ops \<Rightarrow> 't \<Rightarrow> net_address \<Rightarrow> 'n \<Rightarrow> (('n + unit) \<times> 't) panics" where
  "registry_register ix networks subnet_address node = do {
     address_range \<leftarrow> range_of_net subnet_address;
     Some (case ix_insert ix networks address_range node of
         None \<Rightarrow> (Inl node, networks)
       | Some networks' \<Rightarrow> (Inr (), networks'))
   }"

definition registry_unregister :: "('t, 'n) index_ops \<Rightarrow> 't \<Rightarrow> net_address \<Rightarrow> (bool \<times> 't) panics" where
  "registry_unregister ix networks subnet_address = do {
     sought_range \<leftarrow> range_of_net subnet_address;
     Some (case ix_peek_entry ix networks sought_range of
         None \<Rightarrow> (False, networks)
       | Some (found_range, _) \<Rightarrow>
           if \<not> range_eq found_range sought_range then (False, networks)
           else ix_remove ix networks sought_range)
   }"

definition registry_lookup :: "('t, 'n) index_ops \<Rightarrow> 't \<Rightarrow> address \<Rightarrow> 'n option panics" where
  "registry_lookup ix networks a = do {
     r \<leftarrow> range_of_address a;
     Some (map_option snd (ix_peek_entry ix networks r))
   }"

section \<open>Nodes and inboxes\<close>

record 's semaphore_ops =
  sem_new :: "nat \<Rightarrow> 's"
  sem_try_acquire :: "'s \<Rightarrow> 's option"
  sem_release :: "'s \<Rightarrow> 's"

type_synonym node_id = nat

record node =
  node_lease :: lease
  node_inbox_size :: nat
  node_sem :: node_id
  node_mailbox :: nat

text \<open>A mailbox: the three lanes, and the semaphores of the nodes that lead to it. A message of the
  regular lane holds a permit of the node it came through.\<close>

record ('s, 'y, 'm) mailbox =
  mb_sems :: "node_id \<Rightarrow> 's"
  mb_system :: "'y list"
  mb_priority :: "(address \<times> 'm) list"
  mb_regular :: "(address \<times> 'm \<times> node_id) list"
  mb_closed :: bool

definition new_mailbox :: "(node_id \<Rightarrow> 's) \<Rightarrow> ('s, 'y, 'm) mailbox" where
  "new_mailbox sems = \<lparr>mb_sems = sems, mb_system = [], mb_priority = [], mb_regular = [], mb_closed = False\<rparr>"

definition node_new :: "'s semaphore_ops \<Rightarrow> lease \<Rightarrow> nat \<Rightarrow> node_id \<Rightarrow> nat \<Rightarrow> ('s, 'y, 'm) mailbox
    \<Rightarrow> node \<times> ('s, 'y, 'm) mailbox" where
  "node_new sem l inbox_size new_id mb_id mb =
     (\<lparr>node_lease = l, node_inbox_size = inbox_size, node_sem = new_id, node_mailbox = mb_id\<rparr>,
      mb\<lparr>mb_sems := (mb_sems mb)(new_id := sem_new sem inbox_size)\<rparr>)"

text \<open>\<open>taken\<close> is the answer of the channel, whether it has accepted the message. A message that is not
  accepted is dropped, and with it its permit.\<close>

definition node_send :: "'s semaphore_ops \<Rightarrow> bool \<Rightarrow> node \<Rightarrow> ('s, 'y, 'm) mailbox \<Rightarrow> address \<Rightarrow> bool \<Rightarrow> 'm
    \<Rightarrow> bool \<times> ('s, 'y, 'm) mailbox" where
  "node_send sem taken node mb to_addr priority message = (
     if priority then (
       if mb_closed mb \<or> \<not> taken then (False, mb)
       else (True, mb\<lparr>mb_priority := mb_priority mb @ [(to_addr, message)]\<rparr>))
     else case sem_try_acquire sem (mb_sems mb (node_sem node)) of
       None \<Rightarrow> (False, mb)
     | Some s \<Rightarrow> (
         if mb_closed mb \<or> \<not> taken
         then (False, mb\<lparr>mb_sems := (mb_sems mb)(node_sem node := sem_release sem s)\<rparr>)
         else (True, mb\<lparr>mb_sems := (mb_sems mb)(node_sem node := s),
           mb_regular := mb_regular mb @ [(to_addr, message, node_sem node)]\<rparr>)))"

definition node_sys_send :: "('s, 'y, 'm) mailbox \<Rightarrow> 'y \<Rightarrow> ('y + unit) \<times> ('s, 'y, 'm) mailbox" where
  "node_sys_send mb msg = (
     if mb_closed mb then (Inl msg, mb) else (Inr (), mb\<lparr>mb_system := mb_system mb @ [msg]\<rparr>))"

section \<open>What is relied on of the index\<close>

locale range_index =
  fixes ix :: "('t, 'n) index_ops" and entries :: "'t \<Rightarrow> (address_range \<times> 'n) set" and valid :: "'t \<Rightarrow> bool"
  assumes ok_law: "valid t \<Longrightarrow> (r, n) \<in> entries t \<Longrightarrow> range_ok r"
    and disjoint_law: "valid t \<Longrightarrow> x \<in> entries t \<Longrightarrow> y \<in> entries t \<Longrightarrow> x \<noteq> y \<Longrightarrow> range_cmp (fst x) (fst y) \<noteq> Equal"
    and peek_None_law: "valid t \<Longrightarrow> range_ok r \<Longrightarrow>
      ix_peek_entry ix t r = None \<longleftrightarrow> (\<forall>e\<in>entries t. range_cmp r (fst e) \<noteq> Equal)"
    and peek_Some_law: "valid t \<Longrightarrow> range_ok r \<Longrightarrow> ix_peek_entry ix t r = Some e \<Longrightarrow>
      e \<in> entries t \<and> range_cmp r (fst e) = Equal"
    and insert_occupied_law: "valid t \<Longrightarrow> range_ok r \<Longrightarrow> ix_peek_entry ix t r \<noteq> None \<Longrightarrow> ix_insert ix t r n = None"
    and insert_vacant_law: "valid t \<Longrightarrow> range_ok r \<Longrightarrow> ix_peek_entry ix t r = None \<Longrightarrow>
      \<exists>t'. ix_insert ix t r n = Some t' \<and> valid t' \<and> entries t' = insert (r, n) (entries t)"
    and remove_absent_law: "valid t \<Longrightarrow> range_ok r \<Longrightarrow> ix_peek_entry ix t r = None \<Longrightarrow> ix_remove ix t r = (False, t)"
    and remove_found_law: "valid t \<Longrightarrow> range_ok r \<Longrightarrow> ix_peek_entry ix t r = Some e \<Longrightarrow>
      \<exists>t' e'. ix_remove ix t r = (True, t') \<and> valid t' \<and> e' \<in> entries t \<and> range_cmp r (fst e') = Equal
        \<and> entries t' = entries t - {e'}"
begin

lemma lookup_in:
  assumes "valid t" "(r, n) \<in> entries t" "a \<in> range_set r"
  shows "registry_lookup ix t a = Some (Some n)"
proof -
  let ?p = "\<lparr>range_lo = a, range_hi = a\<rparr>"
  have p: "range_ok ?p" by (simp add: range_ok_def)
  have eq: "range_cmp ?p r = Equal" using assms ok_law [of t r n] by (simp add: point_range_cmp)
  then obtain e where e: "ix_peek_entry ix t ?p = Some e"
    using peek_None_law [OF assms(1) p] assms(2) by (cases "ix_peek_entry ix t ?p") auto
  note found = peek_Some_law [OF assms(1) p e]
  have "e = (r, n)"
  proof (rule ccontr)
    assume "e \<noteq> (r, n)"
    then have "range_cmp (fst e) r \<noteq> Equal" using disjoint_law [OF assms(1) _ assms(2), of e] found by simp
    moreover have "range_ok (fst e)" using ok_law [OF assms(1), of "fst e" "snd e"] found by simp
    moreover have "a \<in> range_set (fst e)" using found \<open>range_ok (fst e)\<close> by (simp add: point_range_cmp)
    ultimately show False using assms ok_law [of t r n] by (auto simp: range_cmp_Equal)
  qed
  with e show ?thesis by (simp add: registry_lookup_def)
qed

lemma lookup_out:
  assumes "valid t" "\<forall>(r, n)\<in>entries t. a \<notin> range_set r"
  shows "registry_lookup ix t a = Some None"
proof -
  let ?p = "\<lparr>range_lo = a, range_hi = a\<rparr>"
  have p: "range_ok ?p" by (simp add: range_ok_def)
  have "range_cmp ?p (fst e) \<noteq> Equal" if "e \<in> entries t" for e
    using that assms(2) ok_law [OF assms(1), of "fst e" "snd e"] by (auto simp: point_range_cmp)
  then have "ix_peek_entry ix t ?p = None" using peek_None_law [OF assms(1) p] by blast
  then show ?thesis by (simp add: registry_lookup_def)
qed

lemma register_spec:
  assumes "valid t" "net_valid net" "range_of_net net = Some r"
  shows "if (\<exists>e\<in>entries t. range_set (fst e) \<inter> range_set r \<noteq> {})
    then registry_register ix t net n = Some (Inl n, t)
    else (\<exists>t'. registry_register ix t net n = Some (Inr (), t') \<and> valid t' \<and> entries t' = insert (r, n) (entries t))"
proof -
  have r: "range_ok r" by (rule range_of_net_ok [OF assms(2,3)])
  have "range_cmp r (fst e) = Equal \<longleftrightarrow> range_set (fst e) \<inter> range_set r \<noteq> {}" if "e \<in> entries t" for e
    using that ok_law [OF assms(1), of "fst e" "snd e"] r by (auto simp: range_cmp_Equal)
  then have peek: "ix_peek_entry ix t r \<noteq> None \<longleftrightarrow> (\<exists>e\<in>entries t. range_set (fst e) \<inter> range_set r \<noteq> {})"
    using peek_None_law [OF assms(1) r] by auto
  show ?thesis
  proof (cases "ix_peek_entry ix t r")
    case None
    with insert_vacant_law [OF assms(1) r None, of n] peek assms(3) show ?thesis
      by (auto simp: registry_register_def)
  next
    case (Some e)
    with insert_occupied_law [OF assms(1) r, of n] peek assms(3) show ?thesis
      by (auto simp: registry_register_def)
  qed
qed

lemma unregister_spec:
  assumes "valid t" "net_valid net" "range_of_net net = Some r"
  shows "if (\<exists>e\<in>entries t. range_set (fst e) \<inter> range_set r \<noteq> {})
    then (\<exists>t' e. registry_unregister ix t net = Some (True, t') \<and> valid t' \<and> e \<in> entries t
      \<and> range_set (fst e) \<inter> range_set r \<noteq> {} \<and> entries t' = entries t - {e})
    else registry_unregister ix t net = Some (False, t)"
proof -
  have r: "range_ok r" by (rule range_of_net_ok [OF assms(2,3)])
  have eq: "range_cmp r (fst e) = Equal \<longleftrightarrow> range_set (fst e) \<inter> range_set r \<noteq> {}" if "e \<in> entries t" for e
    using that ok_law [OF assms(1), of "fst e" "snd e"] r by (auto simp: range_cmp_Equal)
  show ?thesis
  proof (cases "ix_peek_entry ix t r")
    case None
    with peek_None_law [OF assms(1) r] eq assms(3) show ?thesis by (auto simp: registry_unregister_def)
  next
    case (Some e)
    note found = peek_Some_law [OF assms(1) r Some]
    have "range_ok (fst e)" using ok_law [OF assms(1), of "fst e" "snd e"] found by simp
    then have "range_eq (fst e) r" using found r range_cmp_reverse [of r "fst e"] by (simp add: range_eq_def)
    then have "registry_unregister ix t net = Some (ix_remove ix t r)"
      using Some assms(3) by (cases e) (simp add: registry_unregister_def)
    with remove_found_law [OF assms(1) r Some] found eq show ?thesis by fastforce
  qed
qed

end

section \<open>The ordered map of the standard library as an index\<close>

definition range_map_ops :: "((address_range \<times> 'n) list, 'n) index_ops" where
  "range_map_ops = \<lparr>
     ix_insert = (\<lambda>m r n. if om_find range_cmp r m = None then Some (om_insert range_cmp r n m) else None),
     ix_peek_entry = (\<lambda>m r. om_find range_cmp r m),
     ix_remove = (\<lambda>m r. (om_find range_cmp r m \<noteq> None, om_remove range_cmp r m))\<rparr>"

interpretation range_map: range_index range_map_ops set rng.map_ok
proof
  fix t :: "(address_range \<times> 'a) list" and r n x y e
  show "range_ok r" if "rng.map_ok t" "(r, n) \<in> set t" using that by (auto simp: rng.map_ok_def)
  show "range_cmp (fst x) (fst y) \<noteq> Equal" if "rng.map_ok t" "x \<in> set t" "y \<in> set t" "x \<noteq> y"
    using rng.keys_disjoint that by blast
  show "ix_peek_entry range_map_ops t r = None \<longleftrightarrow> (\<forall>e\<in>set t. range_cmp r (fst e) \<noteq> Equal)"
    if "rng.map_ok t" "range_ok r" using rng.find_None that by (simp add: range_map_ops_def)
  show "e \<in> set t \<and> range_cmp r (fst e) = Equal" if "ix_peek_entry range_map_ops t r = Some e"
    using rng.find_Some that by (simp add: range_map_ops_def)
  show "ix_insert range_map_ops t r n = None" if "ix_peek_entry range_map_ops t r \<noteq> None"
    using that by (simp add: range_map_ops_def)
  show "\<exists>t'. ix_insert range_map_ops t r n = Some t' \<and> rng.map_ok t' \<and> set t' = insert (r, n) (set t)"
    if "rng.map_ok t" "range_ok r" "ix_peek_entry range_map_ops t r = None"
    using rng.insert_vacant [OF that(1,2), of n] that(3) by (simp add: range_map_ops_def)
  show "ix_remove range_map_ops t r = (False, t)"
    if "rng.map_ok t" "range_ok r" "ix_peek_entry range_map_ops t r = None"
    using rng.remove_absent that by (simp add: range_map_ops_def)
  show "\<exists>t' e'. ix_remove range_map_ops t r = (True, t') \<and> rng.map_ok t' \<and> e' \<in> set t \<and> range_cmp r (fst e') = Equal
      \<and> set t' = set t - {e'}"
    if "rng.map_ok t" "range_ok r" "ix_peek_entry range_map_ops t r = Some e"
  proof -
    have e: "om_find range_cmp r t = Some e" using that(3) by (simp add: range_map_ops_def)
    from rng.remove_found [OF that(1,2) e] rng.find_Some [OF e] e show ?thesis
      by (intro exI [of _ "om_remove range_cmp r t"] exI [of _ e]) (simp add: range_map_ops_def)
  qed
qed

section \<open>Properties\<close>

text \<open>C7. The registry is a partition of the address space among nodes: registering a network succeeds
  exactly when it shares no address with a registered one, and then every address of it is looked up as
  its node while all other addresses are looked up as before; a refused registration changes nothing.\<close>

theorem registry_register_correct:
  assumes "range_index ix entries valid" "valid t" "net_canonical net"
  shows "if (\<exists>e\<in>entries t. range_set (fst e) \<inter> net_set net \<noteq> {})
    then registry_register ix t net n = Some (Inl n, t)
    else (\<exists>t'. registry_register ix t net n = Some (Inr (), t') \<and> valid t'
      \<and> (\<forall>a. registry_lookup ix t' a = (if a \<in> net_set net then Some (Some n) else registry_lookup ix t a)))"
proof -
  obtain r where r: "range_of_net net = Some r" "range_set r = net_set net" "net_valid net"
    using assms(3) range_of_net_valid [of net] range_of_net_set [of net] by (auto simp: net_canonical_def)
  note spec = range_index.register_spec [OF assms(1,2) r(3,1), of n, unfolded r(2)]
  have "registry_lookup ix t' a = (if a \<in> net_set net then Some (Some n) else registry_lookup ix t a)"
    if t': "valid t'" "entries t' = insert (r, n) (entries t)" for t' a
  proof (cases "\<exists>e\<in>entries t'. a \<in> range_set (fst e)")
    case True
    then obtain s m where e: "(s, m) \<in> entries t'" "a \<in> range_set s" by force
    note found = range_index.lookup_in [OF assms(1) t'(1) e]
    show ?thesis
    proof (cases "a \<in> net_set net")
      case True
      with range_index.lookup_in [OF assms(1) t'(1), of r n a] t'(2) r(2) show ?thesis by simp
    next
      case False
      then have "(s, m) \<in> entries t" using e t'(2) r(2) by auto
      with range_index.lookup_in [OF assms(1,2) this e(2)] found False show ?thesis by simp
    qed
  next
    case False
    then have "a \<notin> net_set net" using t'(2) r(2) by auto
    moreover have "registry_lookup ix t' a = Some None" "registry_lookup ix t a = Some None"
      by (rule range_index.lookup_out [OF assms(1) t'(1)] range_index.lookup_out [OF assms(1,2)];
          use False t'(2) in auto)+
    ultimately show ?thesis by simp
  qed
  with spec show ?thesis by (auto split: if_splits)
qed

definition demo_nets :: "(address_range \<times> string) list" where
  "demo_nets = [(\<lparr>range_lo = 16, range_hi = 31\<rparr>, ''a'')]"

lemma demo_nets_ok: "rng.map_ok demo_nets"
  by (simp add: demo_nets_def range_ok_def)

lemma demo_net_canonical:
  "net_canonical \<lparr>na_address = 32, na_mask = NetMask 60\<rparr>" "net_canonical \<lparr>na_address = 20, na_mask = NetMask 63\<rparr>"
  by code_simp+

theorem registry_register_correct_witness:
  "rng.map_ok demo_nets \<and> (if (\<exists>e\<in>set demo_nets. range_set (fst e) \<inter> net_set \<lparr>na_address = 32, na_mask = NetMask 60\<rparr> \<noteq> {})
    then registry_register range_map_ops demo_nets \<lparr>na_address = 32, na_mask = NetMask 60\<rparr> ''b'' = Some (Inl ''b'', demo_nets)
    else (\<exists>t'. registry_register range_map_ops demo_nets \<lparr>na_address = 32, na_mask = NetMask 60\<rparr> ''b'' = Some (Inr (), t')
      \<and> rng.map_ok t'
      \<and> (\<forall>a. registry_lookup range_map_ops t' a = (if a \<in> net_set \<lparr>na_address = 32, na_mask = NetMask 60\<rparr>
          then Some (Some ''b'') else registry_lookup range_map_ops demo_nets a))))"
  using registry_register_correct [OF range_map.range_index_axioms demo_nets_ok demo_net_canonical(1), of "''b''"]
    demo_nets_ok by blast

text \<open>The check that the range found is the range sought never fails, since ranges are equal as soon
  as they overlap: unregistering a network that is a proper part of a registered one succeeds and removes
  the whole registered network.\<close>

theorem unregister_part_removes_whole:
  assumes "range_index ix entries valid" "valid t" "(r, n) \<in> entries t" "net_canonical net" "net_set net \<subseteq> range_set r"
  shows "\<exists>t'. registry_unregister ix t net = Some (True, t') \<and> entries t' = entries t - {(r, n)}
    \<and> (\<forall>a\<in>range_set r. registry_lookup ix t' a = Some None)"
proof -
  obtain s where s: "range_of_net net = Some s" "range_set s = net_set net" "net_valid net"
    using assms(4) range_of_net_valid [of net] range_of_net_set [of net] by (auto simp: net_canonical_def)
  have ne: "range_set s \<noteq> {}" using range_of_net_ok [OF s(3,1)] by (simp add: range_set_def range_ok_def)
  have other: "range_set (fst x) \<inter> range_set r = {}" if "x \<in> entries t" "x \<noteq> (r, n)" for x
    using range_index.disjoint_law [OF assms(1,2) that(1) assms(3) that(2)]
      range_index.ok_law [OF assms(1,2) assms(3)] range_index.ok_law [OF assms(1,2), of "fst x" "snd x"] that(1)
    by (simp add: range_cmp_Equal)
  have ex: "\<exists>e\<in>entries t. range_set (fst e) \<inter> range_set s \<noteq> {}"
    by (rule bexI [OF _ assms(3)]) (use assms(5) ne in \<open>auto simp: s(2) Int_absorb1\<close>)
  obtain t' e where t': "registry_unregister ix t net = Some (True, t')" "valid t'" "e \<in> entries t"
    "range_set (fst e) \<inter> range_set s \<noteq> {}" "entries t' = entries t - {e}"
    using range_index.unregister_spec [OF assms(1,2) s(3,1)] unfolding if_P [OF ex] by blast
  have e: "e = (r, n)" using other [OF t'(3)] t'(4) s(2) assms(5) by blast
  have "registry_lookup ix t' a = Some None" if "a \<in> range_set r" for a
  proof (rule range_index.lookup_out [OF assms(1) t'(2)], clarify)
    fix q m assume "(q, m) \<in> entries t'" "a \<in> range_set q"
    then show False using other [of "(q, m)"] that t'(5) e by (simp add: disjoint_iff)
  qed
  with t'(1,5) e show ?thesis by blast
qed

theorem unregister_part_removes_whole_witness:
  "\<exists>t'. registry_unregister range_map_ops demo_nets \<lparr>na_address = 20, na_mask = NetMask 63\<rparr> = Some (True, t')
    \<and> set t' = set demo_nets - {(\<lparr>range_lo = 16, range_hi = 31\<rparr>, ''a'')}
    \<and> (\<forall>a\<in>range_set \<lparr>range_lo = 16, range_hi = 31\<rparr>. registry_lookup range_map_ops t' a = Some None)"
proof (rule unregister_part_removes_whole [OF range_map.range_index_axioms demo_nets_ok _ demo_net_canonical(2)])
  have "range_of_net \<lparr>na_address = 20, na_mask = NetMask 63\<rparr> = Some \<lparr>range_lo = 20, range_hi = 21\<rparr>" by code_simp
  note set = range_of_net_set [OF demo_net_canonical(2) this, symmetric]
  show "net_set \<lparr>na_address = 20, na_mask = NetMask 63\<rparr> \<subseteq> range_set \<lparr>range_lo = 16, range_hi = 31\<rparr>"
    unfolding set by (simp add: range_set_def)
qed (simp add: demo_nets_def)

end
