(* ===== verification/Actor_Context.thy ===== *)
theory Actor_Context
  imports Node_Registry Sys_Msg
begin

text \<open>
  What an actor does through its context: envelopes (\<^verbatim>\<open>core/mm1-core/src/envelope.rs\<close>), the delivery
  of the actor's messages to its forks, receiving, sending, forking, binding networks, starting other
  actors (\<^verbatim>\<open>core/mm1-node/src/runtime/context.rs\<close> and \<^verbatim>\<open>context/impl_context_api.rs\<close>). What is sent is a
  list of effects, and what the registry answers to a send is an argument.
\<close>

section \<open>Envelopes\<close>

definition DEFAULT_TTL :: u8 where "DEFAULT_TTL = 15"

record envelope_header =
  eh_to :: address
  eh_ttl :: u8
  eh_priority :: bool
  eh_no :: u64
  eh_trace_id :: u64

text \<open>The messages the runtime looks at, and those it only carries.\<close>

datatype 'p any_message =
    PingMsg "address option" u64
  | InitAckMsg address
  | SystemMsg system_msg
  | UserMsg 'p

record 'p envelope =
  env_header :: envelope_header
  env_message :: "'p any_message"

definition to_address :: "u64 \<Rightarrow> u64 \<Rightarrow> address \<Rightarrow> envelope_header" where
  "to_address seq_no trace_id to_addr = \<lparr>eh_to = to_addr, eh_ttl = DEFAULT_TTL, eh_priority = False,
     eh_no = seq_no, eh_trace_id = trace_id\<rparr>"

definition with_priority :: "bool \<Rightarrow> envelope_header \<Rightarrow> envelope_header" where
  "with_priority p h = h\<lparr>eh_priority := p\<rparr>"

definition with_ttl :: "u8 \<Rightarrow> envelope_header \<Rightarrow> envelope_header" where
  "with_ttl ttl h = h\<lparr>eh_ttl := ttl\<rparr>"

section \<open>Sending\<close>

datatype send_error_kind = SendInternalError | SendNotFound | SendClosed | SendFull | SendTtlExhausted

datatype 'p ctx_effect =
    TapSend address "'p envelope"
  | TapRecv "'p envelope"
  | SendTo address bool "'p envelope"
  | NotifyFork address
  | PermitDropped node_id
  | SysSendTo address sys_msg
  | Call "unit sys_call"

type_synonym send_answer = "address \<Rightarrow> bool \<Rightarrow> send_error_kind option"

definition send_result :: "send_answer \<Rightarrow> address \<Rightarrow> bool \<Rightarrow> send_error_kind + unit" where
  "send_result answer to_addr priority = (case answer to_addr priority of None \<Rightarrow> Inr () | Some k \<Rightarrow> Inl k)"

definition send_with_ttl :: "send_answer \<Rightarrow> address \<Rightarrow> 'p envelope
    \<Rightarrow> (send_error_kind + unit) \<times> 'p ctx_effect list" where
  "send_with_ttl answer to_addr outbound = (
     let ttl = eh_ttl (env_header outbound); priority = eh_priority (env_header outbound)
     in if ttl = 0 then (Inl SendTtlExhausted, [TapSend to_addr outbound])
        else (send_result answer to_addr priority, [TapSend to_addr outbound,
          SendTo to_addr priority (outbound\<lparr>env_header := with_ttl (ttl - 1) (env_header outbound)\<rparr>)]))"

definition do_send :: "send_answer \<Rightarrow> 'p envelope \<Rightarrow> (send_error_kind + unit) \<times> 'p ctx_effect list" where
  "do_send answer outbound = send_with_ttl answer (eh_to (env_header outbound)) outbound"

definition do_forward :: "send_answer \<Rightarrow> address \<Rightarrow> 'p envelope \<Rightarrow> (send_error_kind + unit) \<times> 'p ctx_effect list" where
  "do_forward answer to_addr outbound = send_with_ttl answer to_addr outbound"

definition do_init_done :: "u64 \<Rightarrow> u64 \<Rightarrow> address option \<Rightarrow> address \<Rightarrow> address option \<times> 'p ctx_effect list" where
  "do_init_done seq_no trace_id ack_to a = (case ack_to of
     None \<Rightarrow> (None, [])
   | Some ack_to_address \<Rightarrow> (None, [SendTo ack_to_address True
       \<lparr>env_header = to_address seq_no trace_id ack_to_address, env_message = InitAckMsg a\<rparr>]))"

section \<open>Delivery to the forks\<close>

record 'p fork_entry =
  fe_priority :: "(address \<times> 'p envelope) list"
  fe_regular :: "(address \<times> 'p envelope \<times> node_id) list"
  fe_last_ping :: "u64 option"

definition fork_entry_default :: "'p fork_entry" where
  "fork_entry_default = \<lparr>fe_priority = [], fe_regular = [], fe_last_ping = None\<rparr>"

type_synonym 'p forks = "address \<rightharpoonup> 'p fork_entry"
type_synonym bound_subnets = "(address_range \<times> address) list"

definition message_to :: "bound_subnets \<Rightarrow> address \<Rightarrow> address" where
  "message_to bound to_addr = (case om_find range_cmp \<lparr>range_lo = to_addr, range_hi = to_addr\<rparr> bound of
     Some (_, fork) \<Rightarrow> fork
   | None \<Rightarrow> to_addr)"

definition notify :: "address \<Rightarrow> address list \<Rightarrow> address list \<times> 'p ctx_effect list" where
  "notify f notified = (if f \<in> set notified then (notified, []) else (f # notified, [NotifyFork f]))"

definition pong :: "u64 \<Rightarrow> u64 \<Rightarrow> address \<Rightarrow> u64 \<Rightarrow> 'p envelope" where
  "pong seq_no trace_id reply_to ping_id = \<lparr>env_header = with_priority True (to_address seq_no trace_id reply_to),
     env_message = PingMsg None ping_id\<rparr>"

fun inlets_priority :: "u64 \<Rightarrow> u64 \<Rightarrow> bound_subnets \<Rightarrow> (address \<times> 'p envelope) list \<Rightarrow> 'p forks \<Rightarrow> address list
    \<Rightarrow> 'p forks \<times> address list \<times> 'p ctx_effect list" where
  "inlets_priority seq_no trace_id bound [] forks notified = (forks, notified, [])"
| "inlets_priority seq_no trace_id bound (m # ms) forks notified = (
     let f = message_to bound (fst m)
     in case forks f of
       None \<Rightarrow> inlets_priority seq_no trace_id bound ms forks notified
     | Some e \<Rightarrow> (case env_message (snd m) of
         PingMsg (Some reply_to) ping_id \<Rightarrow> (
           let (forks', notified', effs) = inlets_priority (seq_no + 1) trace_id bound ms forks notified
           in (forks', notified', SendTo reply_to True (pong seq_no trace_id reply_to ping_id) # effs))
       | PingMsg None ping_id \<Rightarrow> (
           let (notified1, eff) = notify f notified;
               (forks', notified', effs) = inlets_priority seq_no trace_id bound ms
                 (forks(f \<mapsto> e\<lparr>fe_last_ping := Some ping_id\<rparr>)) notified1
           in (forks', notified', eff @ effs))
       | _ \<Rightarrow> (
           let (notified1, eff) = notify f notified;
               (forks', notified', effs) = inlets_priority seq_no trace_id bound ms
                 (forks(f \<mapsto> e\<lparr>fe_priority := fe_priority e @ [m]\<rparr>)) notified1
           in (forks', notified', eff @ effs))))"

fun inlets_regular :: "bound_subnets \<Rightarrow> (address \<times> 'p envelope \<times> node_id) list \<Rightarrow> 'p forks \<Rightarrow> address list
    \<Rightarrow> 'p forks \<times> address list \<times> 'p ctx_effect list" where
  "inlets_regular bound [] forks notified = (forks, notified, [])"
| "inlets_regular bound (m # ms) forks notified = (
     let f = message_to bound (fst m)
     in case forks f of
       None \<Rightarrow> (
         let (forks', notified', effs) = inlets_regular bound ms forks notified
         in (forks', notified', PermitDropped (snd (snd m)) # effs))
     | Some e \<Rightarrow> (
         let (notified1, eff) = notify f notified;
             (forks', notified', effs) = inlets_regular bound ms
               (forks(f \<mapsto> e\<lparr>fe_regular := fe_regular e @ [m]\<rparr>)) notified1
         in (forks', notified', eff @ effs)))"

datatype recv_error_kind = RecvClosed

text \<open>The messages are those the two channels give until they are empty or report that they are closed.\<close>

definition process_inlets :: "u64 \<Rightarrow> u64 \<Rightarrow> bound_subnets \<Rightarrow> (address \<times> 'p envelope) list \<times> bool
    \<Rightarrow> (address \<times> 'p envelope \<times> node_id) list \<times> bool \<Rightarrow> 'p forks
    \<Rightarrow> (recv_error_kind + unit) \<times> 'p forks \<times> 'p ctx_effect list" where
  "process_inlets seq_no trace_id bound rx_priority rx_regular forks = (
     let (forks1, notified1, effs1) = inlets_priority seq_no trace_id bound (fst rx_priority) forks []
     in if snd rx_priority then (Inl RecvClosed, forks1, effs1)
        else let (forks2, notified2, effs2) = inlets_regular bound (fst rx_regular) forks1 notified1
          in (if snd rx_regular then Inl RecvClosed else Inr (), forks2, effs1 @ effs2))"

definition pop_message :: "address \<Rightarrow> 'p forks \<Rightarrow> ('p envelope option \<times> 'p forks \<times> 'p ctx_effect list) panics" where
  "pop_message f forks = do {
     e \<leftarrow> forks f;
     Some (case fe_priority e of
         m # ms \<Rightarrow> (Some (snd m), forks(f \<mapsto> e\<lparr>fe_priority := ms\<rparr>), [TapRecv (snd m)])
       | [] \<Rightarrow> (case fe_regular e of
           m # ms \<Rightarrow> (Some (fst (snd m)), forks(f \<mapsto> e\<lparr>fe_regular := ms\<rparr>),
             [TapRecv (fst (snd m)), PermitDropped (snd (snd m))])
         | [] \<Rightarrow> (None, forks, [])))
   }"

text \<open>One pass of the loop of \<open>recv\<close>; \<^const>\<open>None\<close> as the envelope is waiting for a notification.\<close>

definition recv_pass :: "u64 \<Rightarrow> u64 \<Rightarrow> bound_subnets \<Rightarrow> (address \<times> 'p envelope) list \<times> bool
    \<Rightarrow> (address \<times> 'p envelope \<times> node_id) list \<times> bool \<Rightarrow> address \<Rightarrow> 'p forks
    \<Rightarrow> ((recv_error_kind + 'p envelope option) \<times> 'p forks \<times> 'p ctx_effect list) panics" where
  "recv_pass seq_no trace_id bound rx_priority rx_regular f forks = (
     let (res, forks1, effs1) = process_inlets seq_no trace_id bound rx_priority rx_regular forks
     in case res of
       Inl k \<Rightarrow> Some (Inl k, forks1, effs1)
     | Inr _ \<Rightarrow> map_option (\<lambda>(m, forks2, effs2). (Inr m, forks2, effs1 @ effs2)) (pop_message f forks1))"

section \<open>Pings\<close>

datatype ping_error_kind = PingTimeout | PingSend | PingRecv

definition ping_send :: "send_answer \<Rightarrow> u64 \<Rightarrow> u64 \<Rightarrow> u64 \<Rightarrow> address \<Rightarrow> 'p forks \<Rightarrow> address
    \<Rightarrow> ((ping_error_kind + unit) \<times> 'p ctx_effect list) panics" where
  "ping_send answer seq_no trace_id ping_id this forks a = do {
     _ \<leftarrow> forks this;
     Some (map_sum (\<lambda>_. PingSend) id (send_result answer a True), [SendTo a True
       \<lparr>env_header = with_priority True (to_address seq_no trace_id a), env_message = PingMsg (Some this) ping_id\<rparr>])
   }"

text \<open>What happens at a wake-up of \<open>ping\<close>: \<open>Inr True\<close> is the answer, \<open>Inr False\<close> waiting on.\<close>

definition ping_poll :: "bool \<Rightarrow> u64 \<Rightarrow> u64 \<Rightarrow> u64 \<Rightarrow> bound_subnets \<Rightarrow> (address \<times> 'p envelope) list \<times> bool
    \<Rightarrow> (address \<times> 'p envelope \<times> node_id) list \<times> bool \<Rightarrow> address \<Rightarrow> 'p forks
    \<Rightarrow> ((ping_error_kind + bool) \<times> 'p forks \<times> 'p ctx_effect list) panics" where
  "ping_poll elapsed seq_no trace_id ping_id bound rx_priority rx_regular this forks = (
     if elapsed then Some (Inl PingTimeout, forks, [])
     else let (res, forks1, effs) = process_inlets seq_no trace_id bound rx_priority rx_regular forks
       in case res of
         Inl _ \<Rightarrow> Some (Inl PingRecv, forks1, effs)
       | Inr _ \<Rightarrow> map_option (\<lambda>e. (Inr (fe_last_ping e = Some ping_id), forks1, effs)) (forks1 this))"

section \<open>Forks and bound networks\<close>

datatype fork_error_kind = ForkInternalError | ForkResourceConstraint

record 'p subnet_context =
  sc_pool :: pool_shared
  sc_address :: net_address
  sc_forks :: "'p forks"
  sc_bound :: bound_subnets

definition ctx_fork :: "'p subnet_context \<Rightarrow> ((fork_error_kind + lease) \<times> 'p subnet_context \<times> 'p ctx_effect list) panics" where
  "ctx_fork sc = do {
     (res, pool) \<leftarrow> pool_lease (sc_pool sc) (NetMask 64);
     (case res of
        Inl _ \<Rightarrow> Some (Inl ForkResourceConstraint, sc\<lparr>sc_pool := pool\<rparr>, [])
      | Inr l \<Rightarrow> (let a = na_address (lease_net l)
          in if sc_forks sc a = None
             then Some (Inr l, sc\<lparr>sc_pool := pool, sc_forks := (sc_forks sc)(a \<mapsto> fork_entry_default)\<rparr>,
               [Call (CallForkAdded a)])
             else None))
   }"

datatype bind_error_kind = BindClosed | BindConflict

definition ctx_bind :: "('t, node) index_ops \<Rightarrow> 's semaphore_ops \<Rightarrow> bool \<Rightarrow> node_id \<Rightarrow> nat \<Rightarrow> address \<Rightarrow> net_address
    \<Rightarrow> nat \<Rightarrow> 'p subnet_context \<Rightarrow> 't \<Rightarrow> ('s, 'y, 'p envelope) mailbox
    \<Rightarrow> ((bind_error_kind + unit) \<times> 'p subnet_context \<times> 't \<times> ('s, 'y, 'p envelope) mailbox) panics" where
  "ctx_bind ix sem alive new_id mb_id fork bind_to inbox_size sc networks mb = do {
     address_range \<leftarrow> range_of_net bind_to;
     (case om_find range_cmp address_range (sc_bound sc) of
        Some (k, _) \<Rightarrow> do {
          _ \<leftarrow> net_of_range k;
          Some (Inl BindConflict, sc, networks, mb)
        }
      | None \<Rightarrow>
          if \<not> alive then Some (Inl BindClosed, sc, networks, mb)
          else do {
            let (node, mb') = node_new sem (lease_trusted bind_to) inbox_size new_id mb_id mb;
            (res, networks') \<leftarrow> registry_register ix networks bind_to node;
            Some (case res of
                Inl _ \<Rightarrow> (Inl BindConflict, sc, networks', mb)
              | Inr _ \<Rightarrow> (Inr (), sc\<lparr>sc_bound := om_insert range_cmp address_range fork (sc_bound sc)\<rparr>, networks', mb'))
          })
   }"

fun unbind_all :: "('t, 'n) index_ops \<Rightarrow> address_range list \<Rightarrow> bound_subnets \<Rightarrow> 't \<Rightarrow> (bound_subnets \<times> 't) panics" where
  "unbind_all ix [] bound networks = Some (bound, networks)"
| "unbind_all ix (r # rs) bound networks = do {
     net \<leftarrow> net_of_range r;
     (_, networks') \<leftarrow> registry_unregister ix networks net;
     unbind_all ix rs (om_remove range_cmp r bound) networks'
   }"

text \<open>Dropping a context: its networks are unregistered, its entry is removed, the lease is sent back
  to the container while the actor's mailbox is alive, and the last one unregisters the actor.\<close>

definition ctx_drop :: "('t, 'n) index_ops \<Rightarrow> bool \<Rightarrow> address \<Rightarrow> lease option \<Rightarrow> 'p subnet_context \<Rightarrow> 't
    \<Rightarrow> ('p subnet_context \<times> 't \<times> sys_msg list) panics" where
  "ctx_drop ix alive fork fork_lease sc networks = do {
     (bound, networks1) \<leftarrow> unbind_all ix (map fst (filter (\<lambda>e. snd e = fork) (sc_bound sc))) (sc_bound sc) networks;
     let forks = (sc_forks sc)(fork := None);
     let sent = (case fork_lease of Some l \<Rightarrow> if alive then [ForkDone l] else [] | None \<Rightarrow> []);
     networks2 \<leftarrow> (if forks = Map.empty then map_option snd (registry_unregister ix networks1 (sc_address sc))
       else Some networks1);
     Some (sc\<lparr>sc_bound := bound, sc_forks := forks\<rparr>, networks2, sent)
   }"

section \<open>Starting and stopping other actors\<close>

datatype spawn_error_kind = SpawnInternalError | SpawnResourceConstraint

text \<open>What the runtime answers on the way: whether a spawn may begin, the network leased for the actor,
  its container, and whether its task was accepted.\<close>

record spawn_env =
  sp_permit :: bool
  sp_lease :: "lease option"
  sp_container :: "address option"
  sp_spawned :: bool

definition do_spawn :: "spawn_env \<Rightarrow> spawn_error_kind + address" where
  "do_spawn env = (
     if \<not> sp_permit env then Inl SpawnResourceConstraint
     else case sp_lease env of
       None \<Rightarrow> Inl SpawnResourceConstraint
     | Some _ \<Rightarrow> (case sp_container env of
         None \<Rightarrow> Inl SpawnInternalError
       | Some actor_address \<Rightarrow> if sp_spawned env then Inr actor_address else Inl SpawnResourceConstraint))"

datatype start_error_kind = StartSpawn spawn_error_kind | StartExited | StartTimeout | StartInternalError

datatype 'p start_event = NoInitAck | StartRecvFailed | StartMsg "'p any_message"

definition do_exit :: "address \<Rightarrow> address \<Rightarrow> 'p ctx_effect" where
  "do_exit this peer = SysSendTo peer (Link (LinkExit this peer Terminate))"

definition do_kill :: "address \<Rightarrow> 'p ctx_effect" where
  "do_kill peer = SysSendTo peer Kill"

definition do_link :: "address \<Rightarrow> address \<Rightarrow> 'p ctx_effect" where
  "do_link this peer = Call (CallLink this peer)"

definition do_unlink :: "address \<Rightarrow> address \<Rightarrow> 'p ctx_effect" where
  "do_unlink this peer = Call (CallUnlink this peer)"

definition do_set_trap_exit :: "bool \<Rightarrow> 'p ctx_effect" where
  "do_set_trap_exit enable = Call (CallTrapExit enable)"

definition do_watch :: "address \<Rightarrow> address \<Rightarrow> 'p ctx_effect" where
  "do_watch this peer = Call (CallWatch this peer)"

definition do_unwatch :: "address \<Rightarrow> watch_ref \<Rightarrow> 'p ctx_effect" where
  "do_unwatch this r = Call (CallUnwatch this r)"

definition quit_ok :: "'p ctx_effect" where
  "quit_ok = Call (CallExit (Inr ()))"

definition quit_err :: "string \<Rightarrow> 'p ctx_effect" where
  "quit_err reason = Call (CallExit (Inl (ActorError reason)))"

text \<open>The start of an actor from a fork of its own, which the new actor acknowledges to and is linked to.\<close>

definition ctx_start :: "bool \<Rightarrow> address \<Rightarrow> bool \<Rightarrow> (fork_error_kind + address) \<Rightarrow> spawn_env \<Rightarrow> 'p start_event
    \<Rightarrow> (start_error_kind + address) \<times> 'p ctx_effect list" where
  "ctx_start kill_ok this link forked env event = (case forked of
     Inl _ \<Rightarrow> (Inl StartInternalError, [])
   | Inr fork \<Rightarrow> (case do_spawn env of
       Inl e \<Rightarrow> (Inl (StartSpawn e), [])
     | Inr spawned \<Rightarrow> (case event of
         NoInitAck \<Rightarrow> (Inl (if kill_ok then StartTimeout else StartInternalError), [do_kill spawned])
       | StartRecvFailed \<Rightarrow> (Inl StartInternalError, [])
       | StartMsg (InitAckMsg a) \<Rightarrow> (Inr a, do_unlink fork a # (if link then [do_link this a] else []))
       | StartMsg (SystemMsg (Exited _ _)) \<Rightarrow> (Inl StartExited, [])
       | StartMsg _ \<Rightarrow> (Inl StartInternalError, []))))"

end
