(* ===== verification/Inbox.thy ===== *)
theory Inbox
  imports Actor_Context
begin

text \<open>
  What delivery guarantees: the two loops of \<open>process_inlets\<close> are compared with a description of where
  every message goes, and the permits of the regular lane bound what an actor holds.
\<close>

section \<open>Where messages go\<close>

fun is_ping :: "address \<times> 'p envelope \<Rightarrow> bool" where
  "is_ping m = (case env_message (snd m) of PingMsg _ _ \<Rightarrow> True | _ \<Rightarrow> False)"

definition for_fork :: "bound_subnets \<Rightarrow> address \<Rightarrow> (address \<times> 'a) list \<Rightarrow> (address \<times> 'a) list" where
  "for_fork bound f ms = filter (\<lambda>m. message_to bound (fst m) = f) ms"

text \<open>The answers due to the ping requests for the forks of the actor.\<close>

definition pongs_due :: "bound_subnets \<Rightarrow> address set \<Rightarrow> (address \<times> 'p envelope) list \<Rightarrow> (address \<times> 'p any_message) list" where
  "pongs_due bound forks ms = concat (map (\<lambda>m. case env_message (snd m) of
     PingMsg (Some reply_to) ping_id \<Rightarrow>
       if message_to bound (fst m) \<in> forks then [(reply_to, PingMsg None ping_id)] else []
   | _ \<Rightarrow> []) ms)"

definition sent_by :: "'p ctx_effect list \<Rightarrow> (address \<times> 'p any_message) list" where
  "sent_by effs = concat (map (\<lambda>eff. case eff of SendTo a _ env \<Rightarrow> [(a, env_message env)] | _ \<Rightarrow> []) effs)"

lemma sent_by_simps [simp]:
  "sent_by [] = []" "sent_by (xs @ ys) = sent_by xs @ sent_by ys"
  "sent_by (SendTo a p env # xs) = (a, env_message env) # sent_by xs"
  "sent_by (NotifyFork f # xs) = sent_by xs" "sent_by (PermitDropped i # xs) = sent_by xs"
  by (simp_all add: sent_by_def)

lemma sent_by_notify: "notify f notified = (notified1, eff) \<Longrightarrow> sent_by eff = []"
  by (auto simp: notify_def split: if_splits)

definition fork_grows :: "('p fork_entry \<Rightarrow> 'p fork_entry \<Rightarrow> address \<Rightarrow> bool) \<Rightarrow> 'p forks \<Rightarrow> 'p forks \<Rightarrow> bool" where
  "fork_grows R forks forks' \<longleftrightarrow> dom forks' = dom forks
    \<and> (\<forall>f e. forks f = Some e \<longrightarrow> (\<exists>e'. forks' f = Some e' \<and> R e e' f))"

lemma fork_grows_refl: "(\<And>e f. R e e f) \<Longrightarrow> fork_grows R forks forks"
  by (simp add: fork_grows_def)

lemma fork_grows_mono: "fork_grows R forks forks' \<Longrightarrow> (\<And>e e' f. f \<in> dom forks \<Longrightarrow> R e e' f \<Longrightarrow> R' e e' f) \<Longrightarrow> fork_grows R' forks forks'"
  unfolding fork_grows_def by blast

lemma fork_grows_upd:
  assumes "fork_grows R (forks(f \<mapsto> e1)) forks'" "forks f = Some e" "\<And>e'. R e1 e' f \<Longrightarrow> R' e e' f"
    "\<And>e e' g. g \<noteq> f \<Longrightarrow> R e e' g \<Longrightarrow> R' e e' g"
  shows "fork_grows R' forks forks'"
  unfolding fork_grows_def
proof (intro conjI allI impI)
  show "dom forks' = dom forks" using assms(1,2) by (auto simp: fork_grows_def)
  fix g e0 assume "forks g = Some e0"
  then show "\<exists>e'. forks' g = Some e' \<and> R' e0 e' g"
  proof (cases "g = f")
    case True
    have "(forks(f \<mapsto> e1)) f = Some e1" by simp
    then obtain e' where "forks' f = Some e'" "R e1 e' f" using assms(1) unfolding fork_grows_def by blast
    then show ?thesis using assms(2,3) True \<open>forks g = Some e0\<close> by auto
  next
    case False
    then have "(forks(f \<mapsto> e1)) g = Some e0" using \<open>forks g = Some e0\<close> by simp
    then obtain e' where "forks' g = Some e'" "R e0 e' g" using assms(1) unfolding fork_grows_def by blast
    then show ?thesis using assms(4) [OF False] by blast
  qed
qed

lemma for_fork_simps [simp]:
  "for_fork bound f [] = []"
  "for_fork bound f (m # ms) = (if message_to bound (fst m) = f then [m] else []) @ for_fork bound f ms"
  by (simp_all add: for_fork_def)

lemma pongs_due_simps [simp]:
  "pongs_due bound F [] = []"
  "pongs_due bound F (m # ms) = (case env_message (snd m) of
     PingMsg (Some reply_to) ping_id \<Rightarrow> if message_to bound (fst m) \<in> F then [(reply_to, PingMsg None ping_id)] else []
   | _ \<Rightarrow> []) @ pongs_due bound F ms"
  by (simp_all add: pongs_due_def)

lemma inlets_priority_spec:
  assumes "inlets_priority n t bound ms forks notified = (forks', notified', effs)"
  shows "fork_grows (\<lambda>e e' f. fe_priority e' = fe_priority e @ for_fork bound f (filter (Not \<circ> is_ping) ms)
      \<and> fe_regular e' = fe_regular e) forks forks'
    \<and> sent_by effs = pongs_due bound (dom forks) ms"
  using assms
proof (induction ms arbitrary: n forks notified forks' notified' effs)
  case Nil
  then show ?case by (simp add: fork_grows_refl)
next
  case (Cons m ms)
  let ?f = "message_to bound (fst m)"
  show ?case
  proof (cases "forks ?f")
    case None
    with Cons.prems have "inlets_priority n t bound ms forks notified = (forks', notified', effs)" by simp
    note IH = Cons.IH [OF this]
    show ?thesis
      by (rule conjI, rule fork_grows_mono [OF conjunct1 [OF IH]])
        (use None IH in \<open>auto simp: domIff split: any_message.splits option.splits\<close>)
  next
    case (Some e)
    have dom: "dom (forks(?f \<mapsto> x)) = dom forks" for x using Some by auto
    obtain notified1 and eff :: "'a ctx_effect list" where n: "notify ?f notified = (notified1, eff)" by fastforce
    note nf = n sent_by_notify [OF n]
    consider (request) reply_to i where "env_message (snd m) = PingMsg (Some reply_to) i"
      | (answer) i where "env_message (snd m) = PingMsg None i" | (other) "\<not> is_ping m"
    proof (cases "env_message (snd m)")
      case (PingMsg r i)
      then show ?thesis using that(1,2) by (cases r) simp_all
    qed (use that(3) in simp_all)
    then show ?thesis
    proof cases
      case request
      with Cons.prems Some obtain effs1 where run:
        "inlets_priority (n + 1) t bound ms forks notified = (forks', notified', effs1)"
        "effs = SendTo reply_to True (pong n t reply_to i) # effs1" by (auto simp: Let_def split: prod.splits)
      note IH = Cons.IH [OF run(1)]
      show ?thesis
        by (rule conjI, rule fork_grows_mono [OF conjunct1 [OF IH]])
          (use run(2) request Some IH in \<open>auto simp: pong_def domIff\<close>)
    next
      case answer
      with Cons.prems Some nf obtain effs1 where run:
        "inlets_priority n t bound ms (forks(?f \<mapsto> e\<lparr>fe_last_ping := Some i\<rparr>)) notified1 = (forks', notified', effs1)"
        "effs = eff @ effs1" by (auto simp: Let_def split: prod.splits)
      note IH = Cons.IH [OF run(1), unfolded dom]
      show ?thesis
        by (rule conjI, rule fork_grows_upd [where f = ?f, OF conjunct1 [OF IH] Some])
          (use run(2) answer nf(2) IH in auto)
    next
      case other
      with Cons.prems Some nf obtain effs1 where run:
        "inlets_priority n t bound ms (forks(?f \<mapsto> e\<lparr>fe_priority := fe_priority e @ [m]\<rparr>)) notified1 = (forks', notified', effs1)"
        "effs = eff @ effs1" by (auto simp: Let_def split: prod.splits any_message.splits)
      note IH = Cons.IH [OF run(1), unfolded dom]
      show ?thesis
        by (rule conjI, rule fork_grows_upd [where f = ?f, OF conjunct1 [OF IH] Some])
          (use run(2) other nf(2) IH in \<open>auto split: any_message.splits\<close>)
    qed
  qed
qed

lemma inlets_regular_spec:
  assumes "inlets_regular bound ms forks notified = (forks', notified', effs)"
  shows "fork_grows (\<lambda>e e' f. fe_regular e' = fe_regular e @ for_fork bound f ms
      \<and> fe_priority e' = fe_priority e) forks forks' \<and> sent_by effs = []"
  using assms
proof (induction ms arbitrary: forks notified forks' notified' effs)
  case Nil
  then show ?case by (simp add: fork_grows_refl)
next
  case (Cons m ms)
  let ?f = "message_to bound (fst m)"
  obtain notified1 and eff :: "'a ctx_effect list" where n: "notify ?f notified = (notified1, eff)" by fastforce
  note nf = n sent_by_notify [OF n]
  show ?case
  proof (cases "forks ?f")
    case None
    with Cons.prems obtain effs1 where run: "inlets_regular bound ms forks notified = (forks', notified', effs1)"
      "effs = PermitDropped (snd (snd m)) # effs1" by (auto split: prod.splits)
    note IH = Cons.IH [OF run(1)]
    show ?thesis
      by (rule conjI, rule fork_grows_mono [OF conjunct1 [OF IH]]) (use None IH run(2) in \<open>auto simp: domIff\<close>)
  next
    case (Some e)
    with Cons.prems nf obtain effs1 where run:
      "inlets_regular bound ms (forks(?f \<mapsto> e\<lparr>fe_regular := fe_regular e @ [m]\<rparr>)) notified1 = (forks', notified', effs1)"
      "effs = eff @ effs1" by (auto simp: Let_def split: prod.splits)
    note IH = Cons.IH [OF run(1)]
    show ?thesis
      by (rule conjI, rule fork_grows_upd [where f = ?f, OF conjunct1 [OF IH] Some]) (use run(2) nf(2) IH in auto)
  qed
qed

text \<open>C6. Processing the inlets puts every message where it belongs: into each fork's inboxes go exactly
  the messages addressed to it or to a network it has bound, in the order of their lane; pings never
  enter an inbox, and every ping request to a fork of the actor is answered, in order, and nothing else is
  sent.\<close>

theorem process_inlets_delivers:
  fixes forks :: "'p forks"
  assumes "process_inlets n t bound (ps, False) (rs, False) forks = (res, forks', effs)"
  shows "res = Inr () \<and> dom forks' = dom forks
    \<and> (\<forall>f e. forks f = Some e \<longrightarrow> (\<exists>e'. forks' f = Some e'
        \<and> fe_priority e' = fe_priority e @ for_fork bound f (filter (Not \<circ> is_ping) ps)
        \<and> fe_regular e' = fe_regular e @ for_fork bound f rs))
    \<and> sent_by effs = pongs_due bound (dom forks) ps"
proof -
  obtain forks1 notified1 and effs1 :: "'p ctx_effect list" where
    1: "inlets_priority n t bound ps forks [] = (forks1, notified1, effs1)" by (metis prod_cases3)
  obtain notified2 effs2 where 2: "inlets_regular bound rs forks1 notified1 = (forks', notified2, effs2)"
    "res = Inr ()" "effs = effs1 @ effs2"
    using assms 1 by (auto simp: process_inlets_def split: prod.splits)
  note p = inlets_priority_spec [OF 1] and r = inlets_regular_spec [OF 2(1)]
  have "\<exists>e'. forks' f = Some e' \<and> fe_priority e' = fe_priority e @ for_fork bound f (filter (Not \<circ> is_ping) ps)
      \<and> fe_regular e' = fe_regular e @ for_fork bound f rs" if "forks f = Some e" for f e
    using p r that unfolding fork_grows_def by (metis (no_types, lifting))
  then show ?thesis using p r 2(2,3) by (auto simp: fork_grows_def)
qed

definition demo_msg :: "nat \<Rightarrow> nat envelope" where
  "demo_msg i = \<lparr>env_header = to_address 0 0 1, env_message = UserMsg i\<rparr>"

definition demo_ping :: "nat envelope" where
  "demo_ping = \<lparr>env_header = to_address 0 0 1, env_message = PingMsg (Some 9) 77\<rparr>"

definition demo_bound :: bound_subnets where
  "demo_bound = [(\<lparr>range_lo = 16, range_hi = 31\<rparr>, 2)]"

definition demo_forks :: "nat forks" where
  "demo_forks = [1 \<mapsto> fork_entry_default, 2 \<mapsto> fork_entry_default]"

theorem process_inlets_delivers_witness:
  "\<exists>forks' effs. process_inlets 0 0 demo_bound ([(1, demo_ping), (20, demo_msg 1)], False) ([(1, demo_msg 2, 0)], False) demo_forks
      = (Inr (), forks', effs) \<and> dom forks' = dom demo_forks
    \<and> (\<forall>f e. demo_forks f = Some e \<longrightarrow> (\<exists>e'. forks' f = Some e'
        \<and> fe_priority e' = fe_priority e @ for_fork demo_bound f (filter (Not \<circ> is_ping) [(1, demo_ping), (20, demo_msg 1)])
        \<and> fe_regular e' = fe_regular e @ for_fork demo_bound f [(1, demo_msg 2, 0)]))
    \<and> sent_by effs = pongs_due demo_bound (dom demo_forks) [(1, demo_ping), (20, demo_msg 1)]"
proof -
  obtain res forks' effs where run: "process_inlets 0 0 demo_bound ([(1, demo_ping), (20, demo_msg 1)], False)
    ([(1, demo_msg 2, 0)], False) demo_forks = (res, forks', effs)" by (metis prod_cases3)
  from process_inlets_delivers [OF this] run show ?thesis by auto
qed

section \<open>The bound on regular messages\<close>






definition through :: "node_id \<Rightarrow> (address \<times> 'p envelope \<times> node_id) list \<Rightarrow> nat" where
  "through i ms = length (filter (\<lambda>m. snd (snd m) = i) ms)"



definition dropped :: "node_id \<Rightarrow> 'p ctx_effect list \<Rightarrow> nat" where
  "dropped i effs = length (filter (\<lambda>eff. eff = PermitDropped i) effs)"

lemma through_simps [simp]:
  "through i [] = 0" "through i (m # ms) = (if snd (snd m) = i then 1 else 0) + through i ms"
  "through i (xs @ ys) = through i xs + through i ys"
  by (simp_all add: through_def)

lemma dropped_simps [simp]:
  "dropped i [] = 0" "dropped i (xs @ ys) = dropped i xs + dropped i ys"
  "dropped i (eff # xs) = (if eff = PermitDropped i then 1 else 0) + dropped i xs"
  by (simp_all add: dropped_def)













end
