(* ===== verification/Task_Registry.thy ===== *)
theory Task_Registry
  imports Sys_Msg Restart_Intensity
begin

text \<open>
  The registry of the tasks that run containers, \<^verbatim>\<open>core/mm1-node/src/runtime/task_registry.rs\<close>, and the
  shutdown of a node, \<^verbatim>\<open>runtime/rt_api.rs\<close>. Every operation holds the mutex, so each is one step; a task is
  tracked from the moment its spawn is accepted until its completion guard is dropped, however it ends.
\<close>

section \<open>The registry\<close>

record task_registry =
  tr_closing :: bool
  tr_shutdown :: bool
  tr_next_task_id :: u64
  tr_pending_spawns :: nat
  tr_tasks :: "u64 \<rightharpoonup> address"

definition task_registry_new :: task_registry where
  "task_registry_new = \<lparr>tr_closing = False, tr_shutdown = False, tr_next_task_id = 0, tr_pending_spawns = 0,
     tr_tasks = Map.empty\<rparr>"

definition reserve_spawn :: "task_registry \<Rightarrow> bool \<times> task_registry" where
  "reserve_spawn s = (
     if tr_closing s then (False, s) else (True, s\<lparr>tr_pending_spawns := tr_pending_spawns s + 1\<rparr>))"

definition tasks_close :: "task_registry \<Rightarrow> task_registry" where
  "tasks_close s = s\<lparr>tr_closing := True, tr_shutdown := True\<rparr>"

definition one_spawn_less :: "task_registry \<Rightarrow> task_registry panics" where
  "one_spawn_less s = (if tr_pending_spawns s = 0 then None else Some (s\<lparr>tr_pending_spawns := tr_pending_spawns s - 1\<rparr>))"

text \<open>The result is the tracked task, or that the spawn was rejected. \<open>started\<close> is whether the task was
  still there to take the signal to start.\<close>

definition spawn_on :: "bool \<Rightarrow> address \<Rightarrow> task_registry \<Rightarrow> (u64 option \<times> bool \<times> task_registry) panics" where
  "spawn_on started a s = (
     if tr_closing s then map_option (\<lambda>s'. (None, False, s')) (one_spawn_less s)
     else do {
       let task_id = tr_next_task_id s;
       assert_that (tr_tasks s task_id = None);
       s' \<leftarrow> one_spawn_less (s\<lparr>tr_next_task_id := task_id + 1, tr_tasks := (tr_tasks s)(task_id \<mapsto> a)\<rparr>);
       Some (Some task_id, started, s')
     })"

definition permit_drop :: "bool \<Rightarrow> task_registry \<Rightarrow> task_registry panics" where
  "permit_drop pending s = (if pending then one_spawn_less s else Some s)"

definition guard_drop :: "u64 \<Rightarrow> task_registry \<Rightarrow> bool \<times> task_registry" where
  "guard_drop task_id s = (tr_tasks s task_id \<noteq> None, s\<lparr>tr_tasks := (tr_tasks s)(task_id := None)\<rparr>)"

definition tasks_is_empty :: "task_registry \<Rightarrow> bool" where
  "tasks_is_empty s \<longleftrightarrow> tr_pending_spawns s = 0 \<and> tr_tasks s = Map.empty"

text \<open>Waiting: the registry as it is found at each notification, and as it is when the deadline passes.\<close>

fun wait_for_empty :: "task_registry list \<Rightarrow> task_registry \<Rightarrow> bool" where
  "wait_for_empty [] at_deadline = tasks_is_empty at_deadline"
| "wait_for_empty (s # woken) at_deadline = (if tasks_is_empty s then True else wait_for_empty woken at_deadline)"

section \<open>Shutdown of a node\<close>

datatype shutdown_effect = TasksClosed | SysKill address | TasksAborted

text \<open>The addresses of the tasks are taken from the registry when the first wait has ended.\<close>

definition rt_shutdown :: "bool \<Rightarrow> address list \<Rightarrow> bool \<Rightarrow> shutdown_effect list" where
  "rt_shutdown emptied addresses emptied_after_kill = TasksClosed # (
     if emptied then []
     else map SysKill addresses @ (if emptied_after_kill then [] else [TasksAborted]))"

section \<open>Tasks and permits of a node\<close>

record task_world =
  tw_registry :: task_registry
  tw_permits :: nat
  tw_running :: "u64 set"

inductive task_step :: "task_world \<Rightarrow> task_world \<Rightarrow> bool" where
  step_reserve: "reserve_spawn (tw_registry w) = (True, s) \<Longrightarrow>
    task_step w (w\<lparr>tw_registry := s, tw_permits := tw_permits w + 1\<rparr>)"
| step_spawn: "0 < tw_permits w \<Longrightarrow> spawn_on started a (tw_registry w) = Some (Some task_id, ok, s) \<Longrightarrow>
    task_step w (w\<lparr>tw_registry := s, tw_permits := tw_permits w - 1, tw_running := insert task_id (tw_running w)\<rparr>)"
| step_rejected: "0 < tw_permits w \<Longrightarrow> spawn_on started a (tw_registry w) = Some (None, ok, s) \<Longrightarrow>
    task_step w (w\<lparr>tw_registry := s, tw_permits := tw_permits w - 1\<rparr>)"
| step_permit: "0 < tw_permits w \<Longrightarrow> permit_drop True (tw_registry w) = Some s \<Longrightarrow>
    task_step w (w\<lparr>tw_registry := s, tw_permits := tw_permits w - 1\<rparr>)"
| step_done: "task_id \<in> tw_running w \<Longrightarrow> guard_drop task_id (tw_registry w) = (removed, s) \<Longrightarrow>
    task_step w (w\<lparr>tw_registry := s, tw_running := tw_running w - {task_id}\<rparr>)"
| step_close: "task_step w (w\<lparr>tw_registry := tasks_close (tw_registry w)\<rparr>)"

inductive_cases task_stepE: "task_step w w'"

inductive task_steps :: "task_world \<Rightarrow> task_world \<Rightarrow> bool" where
  steps_refl: "task_steps w w"
| steps_next: "task_steps w w' \<Longrightarrow> task_step w' w'' \<Longrightarrow> task_steps w w''"

definition task_world_new :: task_world where
  "task_world_new = \<lparr>tw_registry = task_registry_new, tw_permits = 0, tw_running = {}\<rparr>"

definition tw_inv :: "task_world \<Rightarrow> bool" where
  "tw_inv w \<longleftrightarrow> tr_pending_spawns (tw_registry w) = tw_permits w \<and> tw_running w = dom (tr_tasks (tw_registry w))
    \<and> tr_shutdown (tw_registry w) = tr_closing (tw_registry w)"

lemma spawn_on_cases:
  assumes "spawn_on started a s = Some (res, ok, s')"
  shows "tr_pending_spawns s' + 1 = tr_pending_spawns s \<and> tr_closing s' = tr_closing s \<and> tr_shutdown s' = tr_shutdown s
    \<and> (case res of None \<Rightarrow> tr_closing s \<and> \<not> ok \<and> tr_tasks s' = tr_tasks s
        | Some i \<Rightarrow> \<not> tr_closing s \<and> ok = started \<and> tr_tasks s i = None \<and> tr_tasks s' = (tr_tasks s)(i \<mapsto> a))"
  using assms by (auto simp: spawn_on_def one_spawn_less_def assert_that_def Let_def split: if_splits option.splits)

lemma task_step_inv: "task_step w w' \<Longrightarrow> tw_inv w \<Longrightarrow> tw_inv w'"
proof (erule task_stepE, goal_cases)
  case (1 s)
  then show ?case by (auto simp: tw_inv_def reserve_spawn_def split: if_splits)
next
  case (2 started a task_id ok s)
  from spawn_on_cases [OF 2(4)] 2 show ?case by (auto simp: tw_inv_def)
next
  case (3 started a ok s)
  from spawn_on_cases [OF 3(4)] 3 show ?case by (auto simp: tw_inv_def)
next
  case (4 s)
  then show ?case by (auto simp: tw_inv_def permit_drop_def one_spawn_less_def split: if_splits)
next
  case (5 task_id removed s)
  then show ?case by (auto simp: tw_inv_def guard_drop_def split: if_splits)
next
  case 6
  then show ?case by (simp add: tw_inv_def tasks_close_def)
qed

lemma task_steps_inv: "task_steps w w' \<Longrightarrow> tw_inv w \<Longrightarrow> tw_inv w'"
  by (induction rule: task_steps.induct) (auto intro: task_step_inv)

lemma task_step_closed:
  assumes "task_step w w'" "tr_closing (tw_registry w)"
  shows "tr_closing (tw_registry w') \<and> tw_running w' \<subseteq> tw_running w \<and> tw_permits w' \<le> tw_permits w"
  using assms(1)
proof cases
  case (step_reserve s)
  then show ?thesis using assms(2) by (simp add: reserve_spawn_def)
next
  case (step_spawn started a task_id ok s)
  then show ?thesis using spawn_on_cases [OF step_spawn(3)] assms(2) by simp
next
  case (step_rejected started a ok s)
  then show ?thesis using spawn_on_cases [OF step_rejected(3)] assms(2) by simp
qed (use assms(2) in \<open>auto simp: permit_drop_def one_spawn_less_def guard_drop_def tasks_close_def split: if_splits\<close>)

lemma task_steps_closed:
  "task_steps w w' \<Longrightarrow> tr_closing (tw_registry w) \<Longrightarrow>
    tr_closing (tw_registry w') \<and> tw_running w' \<subseteq> tw_running w \<and> tw_permits w' \<le> tw_permits w"
proof (induction rule: task_steps.induct)
  case (steps_next w w' w'')
  then show ?case using task_step_closed [OF steps_next(2)] by auto
qed simp

section \<open>Property\<close>

text \<open>C8. Closing the registry of tasks is final: however the spawns under way, finishing tasks and further
  closes are interleaved with it, after the close no task starts and no permit is given out; the count of
  pending spawns never underflows, and the registry reports empty exactly when no permit is outstanding and
  no task runs, so that a node that waits for it misses no task and waits for none that has ended.\<close>

theorem task_registry_close_final:
  assumes "task_steps task_world_new w" "tr_closing (tw_registry w)" "task_steps w w'"
  shows "tw_running w' \<subseteq> tw_running w \<and> tw_permits w' \<le> tw_permits w
    \<and> \<not> fst (reserve_spawn (tw_registry w'))
    \<and> (0 < tw_permits w' \<longrightarrow> (\<exists>s. spawn_on started a (tw_registry w') = Some (None, False, s)))
    \<and> (0 < tw_permits w' \<longrightarrow> permit_drop True (tw_registry w') \<noteq> None)
    \<and> (tasks_is_empty (tw_registry w') \<longleftrightarrow> tw_permits w' = 0 \<and> tw_running w' = {})"
proof -
  have "tw_inv task_world_new" by (simp add: tw_inv_def task_world_new_def task_registry_new_def)
  then have "tw_inv w'" using task_steps_inv assms(1,3) by blast
  moreover note task_steps_closed [OF assms(3,2)]
  ultimately show ?thesis
    by (auto simp: tw_inv_def tasks_is_empty_def reserve_spawn_def spawn_on_def permit_drop_def one_spawn_less_def)
qed

theorem task_registry_close_final_witness:
  "\<exists>w w'. task_steps task_world_new w \<and> tr_closing (tw_registry w) \<and> task_steps w w' \<and> tw_permits w = 1
    \<and> tw_running w' \<subseteq> tw_running w \<and> tw_permits w' \<le> tw_permits w
    \<and> \<not> fst (reserve_spawn (tw_registry w'))
    \<and> (0 < tw_permits w' \<longrightarrow> (\<exists>s. spawn_on True 5 (tw_registry w') = Some (None, False, s)))
    \<and> (0 < tw_permits w' \<longrightarrow> permit_drop True (tw_registry w') \<noteq> None)
    \<and> (tasks_is_empty (tw_registry w') \<longleftrightarrow> tw_permits w' = 0 \<and> tw_running w' = {})"
proof -
  let ?w0 = task_world_new
  let ?w1 = "?w0\<lparr>tw_registry := snd (reserve_spawn (tw_registry ?w0)), tw_permits := tw_permits ?w0 + 1\<rparr>"
  let ?w2 = "?w1\<lparr>tw_registry := tasks_close (tw_registry ?w1)\<rparr>"
  have "task_step ?w0 ?w1"
    by (rule step_reserve) (simp add: reserve_spawn_def task_world_new_def task_registry_new_def)
  then have reach: "task_steps ?w0 ?w2" by (blast intro: steps_refl steps_next step_close)
  have "tr_closing (tw_registry ?w2)" by (simp add: tasks_close_def)
  from task_registry_close_final [OF reach this steps_refl, of True 5] reach this show ?thesis
    by (intro exI [of _ ?w2]) (simp add: steps_refl, simp add: task_world_new_def)
qed

end
