(* ===== verification/Ask.thy ===== *)
theory Ask
  imports Actor_Context Proto Restart_Intensity
begin

text \<open>
  Requests and replies, \<^verbatim>\<open>libs/mm1-ask/src/ask.rs\<close>: the wait for the response of a request, which sets
  unrelated messages aside and puts them back, and the reply. What the context receives until the timeout
  is an argument. The orderly stop of another actor, \<open>Stop::shutdown\<close> of
  \<^verbatim>\<open>core/mm1-core/src/context/stop.rs\<close>, waits in the same way.
\<close>

datatype ('q, 'r, 'o) ask_payload =
    AskRequest request_header 'q
  | AskResponse response_header 'r
  | OtherPayload 'o

type_synonym ('q, 'r, 'o) ask_envelope = "('q, 'r, 'o) ask_payload envelope"

datatype ask_error_kind = AskSend send_error_kind | AskRecv recv_error_kind | AskFork fork_error_kind | AskTimeout | AskCast

text \<open>How receiving ends when the response has not come.\<close>

datatype ask_end = AskElapsed | AskRecvFailed recv_error_kind

definition cast_response :: "('q, 'r, 'o) ask_envelope \<Rightarrow> (response_header \<times> 'r) option" where
  "cast_response env = (case env_message env of
     UserMsg (AskResponse header payload) \<Rightarrow> Some (header, payload)
   | _ \<Rightarrow> None)"

fun ask_wait :: "u64 \<Rightarrow> ('q, 'r, 'o) ask_envelope list \<Rightarrow> ask_end
    \<Rightarrow> (ask_error_kind + 'r) \<times> ('q, 'r, 'o) ask_envelope list" where
  "ask_wait request_id [] AskElapsed = (Inl AskTimeout, [])"
| "ask_wait request_id [] (AskRecvFailed k) = (Inl (AskRecv k), [])"
| "ask_wait request_id (env # envs) ending = (case cast_response env of
     Some (header, payload) \<Rightarrow>
       if resp_id header = request_id then (Inr payload, [])
       else ask_wait request_id envs ending
   | None \<Rightarrow> (let (res, bystanders) = ask_wait request_id envs ending in (res, env # bystanders)))"

definition ask_impl :: "send_answer \<Rightarrow> u64 \<Rightarrow> u64 \<Rightarrow> u64 \<Rightarrow> address \<Rightarrow> address \<Rightarrow> 'q
    \<Rightarrow> ('q, 'r, 'o) ask_envelope list \<Rightarrow> ask_end
    \<Rightarrow> (ask_error_kind + 'r) \<times> ('q, 'r, 'o) ask_payload ctx_effect list" where
  "ask_impl answer seq_no trace_id request_id reply_to server request received end = (
     let request_envelope = \<lparr>env_header = to_address seq_no trace_id server,
           env_message = UserMsg (AskRequest \<lparr>req_id = request_id, req_reply_to = reply_to\<rparr> request)\<rparr>;
         (sent, effs) = do_send answer request_envelope
     in case sent of
       Inl k \<Rightarrow> (Inl (AskSend k), effs)
     | Inr _ \<Rightarrow> (
         let (outcome, bystanders) = ask_wait request_id received end
         in (outcome, effs @ concat (map (\<lambda>b. snd (do_forward answer reply_to b)) bystanders))))"

definition reply :: "send_answer \<Rightarrow> u64 \<Rightarrow> u64 \<Rightarrow> request_header \<Rightarrow> 'r
    \<Rightarrow> (send_error_kind + unit) \<times> ('q, 'r, 'o) ask_payload ctx_effect list" where
  "reply answer seq_no trace_id to_header response = do_send answer
     \<lparr>env_header = with_priority True (to_address seq_no trace_id (req_reply_to to_header)),
      env_message = UserMsg (AskResponse \<lparr>resp_id = req_id to_header\<rparr> response)\<rparr>"

section \<open>Stopping an actor\<close>

datatype shutdown_error_kind = ShutdownInternalError | ShutdownFork fork_error_kind | ShutdownRecv recv_error_kind

text \<open>What happens while the stop waits: a message, a failed receive, or the end of the timeout.\<close>

datatype 'p stop_event = StopMsg "'p any_message" | StopRecvFailed recv_error_kind | StopElapsed

fun shutdown_wait :: "address \<Rightarrow> watch_ref \<Rightarrow> 'p stop_event list
    \<Rightarrow> (shutdown_error_kind + unit) option \<times> 'p ctx_effect list" where
  "shutdown_wait peer r [] = (None, [])"
| "shutdown_wait peer r (StopRecvFailed k # evs) = (Some (Inl (ShutdownRecv k)), [])"
| "shutdown_wait peer r (StopElapsed # evs) = (let (res, effs) = shutdown_wait peer r evs in (res, do_kill peer # effs))"
| "shutdown_wait peer r (StopMsg m # evs) = (case m of
     SystemMsg (Down p q normal_exit) \<Rightarrow>
       if q = r \<and> p = peer then (Some (Inr ()), []) else shutdown_wait peer r evs
   | _ \<Rightarrow> shutdown_wait peer r evs)"

definition ctx_shutdown :: "address \<Rightarrow> (fork_error_kind + address) \<Rightarrow> address \<Rightarrow> watch_ref \<Rightarrow> 'p stop_event list
    \<Rightarrow> (shutdown_error_kind + unit) option \<times> 'p ctx_effect list" where
  "ctx_shutdown this forked peer r evs = (case forked of
     Inl k \<Rightarrow> (Some (Inl (ShutdownFork k)), [])
   | Inr fork \<Rightarrow> (
       let (res, effs) = shutdown_wait peer r evs
       in (res, [do_watch fork peer, do_exit this peer] @ effs)))"

section \<open>What an ask returns and keeps\<close>

definition is_response :: "('q, 'r, 'o) ask_envelope \<Rightarrow> bool" where
  "is_response env \<longleftrightarrow> cast_response env \<noteq> None"


definition forwarded :: "address \<Rightarrow> 'p ctx_effect list \<Rightarrow> 'p envelope list" where
  "forwarded a effs = concat (map (\<lambda>eff. case eff of SendTo b _ env \<Rightarrow> if b = a then [env] else [] | _ \<Rightarrow> []) effs)"

lemma forwarded_simps [simp]:
  "forwarded a [] = []" "forwarded a (xs @ ys) = forwarded a xs @ forwarded a ys"
  "forwarded a (SendTo b p env # xs) = (if b = a then [env] else []) @ forwarded a xs"
  "forwarded a (TapSend b env # xs) = forwarded a xs"
  by (simp_all add: forwarded_def)

definition age :: "'p envelope \<Rightarrow> 'p envelope" where
  "age env = env\<lparr>env_header := with_ttl (eh_ttl (env_header env) - 1) (env_header env)\<rparr>"

lemma forwarded_forward:
  "forwarded a (snd (do_forward answer a env)) = (if eh_ttl (env_header env) = 0 then [] else [age env])"
  by (simp add: do_forward_def send_with_ttl_def Let_def age_def)




definition demo_other :: "(nat, nat, nat) ask_envelope" where
  "demo_other = \<lparr>env_header = to_address 0 0 1, env_message = UserMsg (OtherPayload 7)\<rparr>"


text \<open>The same message set aside by one ask after the other, each of which times out.\<close>

fun after_asks :: "address \<Rightarrow> address \<Rightarrow> nat \<Rightarrow> (nat, nat, nat) ask_envelope \<Rightarrow> (nat, nat, nat) ask_envelope option" where
  "after_asks self server 0 env = Some env"
| "after_asks self server (Suc k) env =
     (case forwarded self (snd (ask_impl (\<lambda>_ _. None) 0 0 1 self server 0 [env] AskElapsed)) of
        [env'] \<Rightarrow> after_asks self server k env'
      | _ \<Rightarrow> None)"

text \<open>Putting a message back costs one of its time to live: a message that is not a response survives as
  many asks as its time to live allows and is destroyed by the next one.\<close>

theorem ask_destroys_old_bystander:
  assumes "\<not> is_response env" "server \<noteq> self"
  shows "after_asks self server k env = None \<longleftrightarrow> unat (eh_ttl (env_header env)) < k"
  using assms
proof (induction k arbitrary: env)
  case (Suc k)
  have wait: "ask_wait 1 [env] AskElapsed = (Inl AskTimeout, [env])"
    using Suc.prems(1) by (cases "cast_response env") (auto simp: is_response_def)
  have fwd: "forwarded self (snd (ask_impl (\<lambda>_ _. None) 0 0 1 self server 0 [env] AskElapsed))
    = (if eh_ttl (env_header env) = 0 then [] else [age env])"
    using Suc.prems(2) wait
    by (simp add: ask_impl_def do_send_def send_with_ttl_def send_result_def to_address_def DEFAULT_TTL_def Let_def
        forwarded_forward)
  show ?case
  proof (cases "eh_ttl (env_header env) = 0")
    case False
    have "\<not> is_response (age env)" using Suc.prems(1) by (simp add: is_response_def cast_response_def age_def)
    note IH = Suc.IH [OF this Suc.prems(2)]
    have "unat (eh_ttl (env_header (age env))) = unat (eh_ttl (env_header env)) - 1"
      using False unat_minus_one [of "eh_ttl (env_header env)"] by (simp add: age_def with_ttl_def)
    moreover have "0 < unat (eh_ttl (env_header env))" using False by (simp add: unat_gt_0)
    moreover have "after_asks self server (Suc k) env = after_asks self server k (age env)" using False fwd by simp
    ultimately show ?thesis using IH by (simp only:) linarith
  qed (simp add: fwd)
qed simp

theorem ask_destroys_old_bystander_witness:
  "after_asks 1 2 16 demo_other = None \<longleftrightarrow> unat (eh_ttl (env_header demo_other)) < 16"
  by (rule ask_destroys_old_bystander) (simp_all add: is_response_def cast_response_def demo_other_def)

end
