(* ===== verification/Exact_Map.thy ===== *)
theory Exact_Map
  imports Ordered_Map
begin

text \<open>
  Ordered maps whose comparison calls only equal keys equal, and the lexicographic comparison of
  tuples that \<open>derive(Ord)\<close> and the standard library's tuples use. Such a map is a finite map: its
  operations are those of \<^const>\<open>map_of\<close>. The comparison of address ranges has that form on any set of
  ranges no two of which overlap.
\<close>

lemma minus_key:
  assumes "distinct (map fst m)" "map_of m k = Some v"
  shows "set m - {x. fst x = k} = set m - {(k, v)}"
proof -
  have "fst x = k \<longleftrightarrow> x = (k, v)" if "x \<in> set m" for x
    using that eq_key_imp_eq_value [OF assms(1) _ map_of_SomeD [OF assms(2)]] by (metis fst_conv prod.collapse)
  then show ?thesis by blast
qed

locale exact_order = key_order +
  assumes exact_law: "ok a \<Longrightarrow> ok b \<Longrightarrow> c a b = Equal \<Longrightarrow> a = b"
begin

lemma equal_iff: "ok a \<Longrightarrow> ok b \<Longrightarrow> c a b = Equal \<longleftrightarrow> a = b"
  using exact_law refl_law by blast

lemma map_ok_distinct: "map_ok m \<Longrightarrow> distinct (map fst m)"
proof (induction m)
  case (Cons x m)
  then have "fst x \<notin> fst ` set m" using refl_law [of "fst x"] by auto
  with Cons show ?case by simp
qed simp

lemma find_map_of: "map_ok m \<Longrightarrow> ok k \<Longrightarrow> om_find c k m = map_option (Pair k) (map_of m k)"
proof (cases "om_find c k m")
  case None
  assume ok: "map_ok m" "ok k"
  then have "k \<notin> fst ` set m" using find_None [OF ok] None refl_law [of k] by auto
  then show ?thesis using None by (simp add: map_of_eq_None_iff [symmetric])
next
  case (Some e)
  assume ok: "map_ok m" "ok k"
  have "e \<in> set m" "c k (fst e) = Equal" using find_Some [OF Some] by auto
  moreover have "ok (fst e)" using ok(1) \<open>e \<in> set m\<close> by (auto simp: map_ok_def)
  ultimately have "fst e = k" using exact_law ok(2) by metis
  then have "map_of m k = Some (snd e)"
    using \<open>e \<in> set m\<close> map_ok_distinct [OF ok(1)] by (metis map_of_eq_Some_iff prod.collapse)
  then show ?thesis using Some \<open>fst e = k\<close> by (metis option.simps(9) prod.collapse)
qed

lemma set_map_of: "map_ok m \<Longrightarrow> (k, v) \<in> set m \<longleftrightarrow> map_of m k = Some v"
  by (simp add: map_ok_distinct)

lemma insert_occupied:
  assumes "map_ok m" "ok k" "om_find c k m = Some e"
  shows "set (om_insert c k v m) = insert (k, v) (set m - {e}) \<and> map_ok (om_insert c k v m)"
  using assms
proof (induction m)
  case (Cons x m)
  obtain k' v' where x: "x = (k', v')" by (cases x)
  have x_notin: "x \<notin> set m" using Cons.prems x refl_law [of k'] by auto
  show ?case
  proof (cases "c k k'")
    case Equal
    then have "k' = k" using Cons.prems x exact_law by auto
    then show ?thesis using Cons.prems x Equal x_notin by auto
  next
    case Greater
    then have e: "om_find c k m = Some e" using Cons.prems x by simp
    then have "e \<in> set m" using find_Some by blast
    with Greater Cons e x x_notin greater_less [of k k'] show ?thesis by auto
  qed (use Cons.prems x in simp)
qed simp

lemma insert_map_of:
  assumes "map_ok m" "ok k"
  shows "map_ok (om_insert c k v m)" "map_of (om_insert c k v m) = (map_of m)(k \<mapsto> v)"
proof -
  have ins: "map_ok (om_insert c k v m)
      \<and> set (om_insert c k v m) = insert (k, v) (set m - {x. fst x = k})"
  proof (cases "om_find c k m")
    case None
    then have "k \<notin> fst ` set m" using find_map_of [OF assms] by (simp add: map_of_eq_None_iff)
    then have "set m - {x. fst x = k} = set m" by auto
    then show ?thesis using insert_vacant [OF assms None] by simp
  next
    case (Some e)
    then have "map_of m k = Some (snd e)" "fst e = k" using find_map_of [OF assms] by auto
    then have "set m - {x. fst x = k} = set m - {e}"
      using minus_key [OF map_ok_distinct [OF assms(1)]] by (metis prod.collapse)
    then show ?thesis using insert_occupied [OF assms Some] by simp
  qed
  show ok: "map_ok (om_insert c k v m)" using ins by simp
  show "map_of (om_insert c k v m) = (map_of m)(k \<mapsto> v)"
  proof (rule ext)
    fix k'
    have "map_of (om_insert c k v m) k' = Some w \<longleftrightarrow> ((map_of m)(k \<mapsto> v)) k' = Some w" for w
      using ins set_map_of [OF ok, of k' w, symmetric] set_map_of [OF assms(1), of k' w, symmetric] by auto
    then show "map_of (om_insert c k v m) k' = ((map_of m)(k \<mapsto> v)) k'" by (metis option.exhaust)
  qed
qed

lemma remove_map_of:
  assumes "map_ok m" "ok k"
  shows "map_ok (om_remove c k m)" "map_of (om_remove c k m) = (map_of m)(k := None)"
proof -
  have rem: "map_ok (om_remove c k m) \<and> set (om_remove c k m) = set m - {x. fst x = k}"
  proof (cases "om_find c k m")
    case None
    then have "k \<notin> fst ` set m" using find_map_of [OF assms] by (simp add: map_of_eq_None_iff)
    then have "set m - {x. fst x = k} = set m" by auto
    then show ?thesis using remove_absent [OF assms None] assms(1) by simp
  next
    case (Some e)
    then have "map_of m k = Some (snd e)" "fst e = k" using find_map_of [OF assms] by auto
    then have "set m - {x. fst x = k} = set m - {e}"
      using minus_key [OF map_ok_distinct [OF assms(1)]] by (metis prod.collapse)
    then show ?thesis using remove_found [OF assms Some] by simp
  qed
  show ok: "map_ok (om_remove c k m)" using rem by simp
  show "map_of (om_remove c k m) = (map_of m)(k := None)"
  proof (rule ext)
    fix k'
    have "map_of (om_remove c k m) k' = Some w \<longleftrightarrow> ((map_of m)(k := None)) k' = Some w" for w
      using rem set_map_of [OF ok, of k' w, symmetric] set_map_of [OF assms(1), of k' w, symmetric] by auto
    then show "map_of (om_remove c k m) k' = ((map_of m)(k := None)) k'" by (metis option.exhaust)
  qed
qed

end

interpretation lin: exact_order cmp "\<lambda>_. True"
  by unfold_locales (auto simp: cmp_def split: if_splits)

section \<open>Tuples\<close>

fun lex_cmp :: "('a \<Rightarrow> 'a \<Rightarrow> ordering) \<Rightarrow> ('b \<Rightarrow> 'b \<Rightarrow> ordering) \<Rightarrow> 'a \<times> 'b \<Rightarrow> 'a \<times> 'b \<Rightarrow> ordering" where
  "lex_cmp c d (a, b) (a', b') = (case c a a' of Equal \<Rightarrow> d b b' | order \<Rightarrow> order)"

lemma lex_exact:
  assumes "exact_order c okc" "exact_order d okd"
  shows "exact_order (lex_cmp c d) (\<lambda>k. okc (fst k) \<and> okd (snd k))"
proof -
  note c = exact_order.axioms(1) [OF assms(1)] and d = exact_order.axioms(1) [OF assms(2)]
  note c_eq = exact_order.equal_iff [OF assms(1)] and d_eq = exact_order.equal_iff [OF assms(2)]
  show ?thesis
  proof (unfold_locales, goal_cases)
    case (1 a b)
    then show ?case
      using key_order.reverse_law [OF c, of "fst a" "fst b"] key_order.reverse_law [OF d, of "snd a" "snd b"]
      by (cases a; cases b) (auto split: ordering.splits)
  next
    case (2 a b e)
    then show ?case
      using key_order.trans_law [OF c, of "fst a" "fst b" "fst e"] key_order.trans_law [OF d, of "snd a" "snd b" "snd e"]
        c_eq [of "fst a" "fst b"] c_eq [of "fst b" "fst e"] c_eq [of "fst a" "fst e"]
      by (cases a; cases b; cases e) (auto split: ordering.splits)
  next
    case (3 a)
    then show ?case using key_order.refl_law [OF c] key_order.refl_law [OF d] by (cases a) auto
  next
    case (4 a b)
    then show ?case using c_eq [of "fst a" "fst b"] d_eq [of "snd a" "snd b"]
      by (cases a; cases b) (auto split: ordering.splits)
  qed
qed

section \<open>Ranges that do not overlap\<close>

definition separate_ranges :: "address_range set \<Rightarrow> bool" where
  "separate_ranges R \<longleftrightarrow> (\<forall>r\<in>R. range_ok r) \<and> (\<forall>r\<in>R. \<forall>s\<in>R. r \<noteq> s \<longrightarrow> range_set r \<inter> range_set s = {})"

lemma separate_exact:
  assumes "separate_ranges R"
  shows "exact_order range_cmp (\<lambda>r. r \<in> R)"
proof (unfold_locales, goal_cases)
  have ok: "range_ok r" if "r \<in> R" for r using assms that unfolding separate_ranges_def by blast
  {
    case (1 a b)
    show ?case using range_cmp_reverse [OF ok ok, OF 1] .
  next
    case (2 a b d)
    show ?case using range_cmp_Less_trans [OF ok ok ok, OF 2] .
  next
    case (3 a)
    show ?case using rng.refl_law [OF ok, OF 3] .
  next
    case (4 a b)
    then have "range_set a \<inter> range_set b \<noteq> {}" using range_cmp_Equal [OF ok ok, of a b] by simp
    then show ?case using assms 4 unfolding separate_ranges_def by blast
  }
qed

end
