(* ===== verification/Slot_Map.thy ===== *)
theory Slot_Map
  imports Prelude "HOL-Library.AList"
begin

text \<open>
  The slot maps of the crate \<open>slotmap\<close>, which several components keep their entries in. The crate is
  a parameter: the record of the operations the components call, with what its documentation
  promises in \<open>slot_laws\<close>. An insertion returns a key that no entry has. Indexing an absent key
  panics, which the components write out with \<open>sm_get\<close>.
\<close>

record ('t, 'k, 'v) slot_ops =
  sm_new :: 't
  sm_get :: "'t \<Rightarrow> 'k \<Rightarrow> 'v option"
  sm_insert :: "'t \<Rightarrow> 'v \<Rightarrow> 'k \<times> 't"
  sm_put :: "'t \<Rightarrow> 'k \<Rightarrow> 'v \<Rightarrow> 't"
  sm_remove :: "'t \<Rightarrow> 'k \<Rightarrow> 't"
  sm_iter :: "'t \<Rightarrow> ('k \<times> 'v) list"

definition slot_laws :: "('t, 'k, 'v) slot_ops \<Rightarrow> bool" where
  "slot_laws sm \<longleftrightarrow>
     sm_get sm (sm_new sm) = Map.empty
   \<and> (\<forall>t v k t'. sm_insert sm t v = (k, t') \<longrightarrow> sm_get sm t k = None \<and> sm_get sm t' = (sm_get sm t)(k \<mapsto> v))
   \<and> (\<forall>t k v. sm_get sm t k \<noteq> None \<longrightarrow> sm_get sm (sm_put sm t k v) = (sm_get sm t)(k \<mapsto> v))
   \<and> (\<forall>t k. sm_get sm (sm_remove sm t k) = (sm_get sm t)(k := None))
   \<and> (\<forall>t. distinct (map fst (sm_iter sm t)) \<and> map_of (sm_iter sm t) = sm_get sm t)"

lemma slot_new: "slot_laws sm \<Longrightarrow> sm_get sm (sm_new sm) = Map.empty"
  by (simp add: slot_laws_def)

lemma slot_insert:
  assumes "slot_laws sm" "sm_insert sm t v = (k, t')"
  shows "sm_get sm t k = None" "sm_get sm t' = (sm_get sm t)(k \<mapsto> v)"
  using assms unfolding slot_laws_def by blast+

lemma slot_put: "slot_laws sm \<Longrightarrow> sm_get sm t k = Some w \<Longrightarrow> sm_get sm (sm_put sm t k v) = (sm_get sm t)(k \<mapsto> v)"
  unfolding slot_laws_def by (metis option.distinct(1))

lemma slot_remove: "slot_laws sm \<Longrightarrow> sm_get sm (sm_remove sm t k) = (sm_get sm t)(k := None)"
  by (simp add: slot_laws_def)

lemma slot_iter:
  assumes "slot_laws sm"
  shows "(k, v) \<in> set (sm_iter sm t) \<longleftrightarrow> sm_get sm t k = Some v" "distinct (map fst (sm_iter sm t))"
proof -
  have "distinct (map fst (sm_iter sm t))" "map_of (sm_iter sm t) = sm_get sm t"
    using assms unfolding slot_laws_def by blast+
  then show "(k, v) \<in> set (sm_iter sm t) \<longleftrightarrow> sm_get sm t k = Some v" "distinct (map fst (sm_iter sm t))"
    by (metis map_of_eq_Some_iff)+
qed

section \<open>An instance\<close>

text \<open>Keys counted up, as an instance of the laws.\<close>

definition counted_slots :: "(nat \<times> (nat \<times> 'v) list, nat, 'v) slot_ops" where
  "counted_slots = \<lparr>sm_new = (0, []),
     sm_get = (\<lambda>t k. if k < fst t then map_of (snd t) k else None),
     sm_insert = (\<lambda>t v. (fst t, Suc (fst t), (fst t, v) # filter (\<lambda>e. fst e < fst t) (snd t))),
     sm_put = (\<lambda>t k v. (fst t, AList.update k v (snd t))),
     sm_remove = (\<lambda>t k. (fst t, AList.delete k (snd t))),
     sm_iter = (\<lambda>t. AList.clearjunk (filter (\<lambda>e. fst e < fst t) (snd t)))\<rparr>"

lemma map_of_filter_below: "map_of (filter (\<lambda>e. fst e < n) m) k = (if k < n then map_of m k else None)"
  by (induction m) auto

lemma counted_slots_laws: "slot_laws counted_slots"
  unfolding slot_laws_def counted_slots_def
  by (auto simp: fun_eq_iff map_of_filter_below update_conv' delete_conv' map_of_clearjunk distinct_clearjunk split: if_splits)

end
