(* ===== verification/Route_Registry.thy ===== *)
theory Route_Registry
  imports Exact_Map Slot_Map "HOL-Library.Option_ord"
begin

text \<open>
  The table of routes to other nodes, \<^verbatim>\<open>components/mm1-multinode/src/route_registry.rs\<close>: routes in a
  slot map, with one index by gateway and one by destination and metric. A route leads messages of one
  type for one network through a gateway; a gateway \<open>None\<close> is the node itself. The hash that spreads
  destinations over equally good routes is a parameter.
\<close>

section \<open>The table\<close>

type_synonym route_metric = u8

definition MAX_CANDIDATES :: nat where
  "MAX_CANDIDATES = 4"

record 'm route_entry =
  re_message :: 'm
  re_dst_net :: net_address
  re_gw :: "address option"
  re_metric :: route_metric

type_synonym 'm gw_key = "address option \<times> address_range \<times> 'm"
type_synonym 'm dst_key = "address_range \<times> 'm \<times> route_metric"

record ('t, 'k, 'm) route_registry =
  rr_entries :: 't
  rr_by_gw :: "('m gw_key \<times> 'k) list"
  rr_by_dst :: "('m dst_key \<times> 'k list) list"

datatype set_route_error = Conflict net_address
datatype find_route_error = NoRoute

definition gw_cmp :: "'m::linorder gw_key \<Rightarrow> 'm gw_key \<Rightarrow> ordering" where
  "gw_cmp = lex_cmp cmp (lex_cmp range_cmp cmp)"

definition dst_cmp :: "'m::linorder dst_key \<Rightarrow> 'm dst_key \<Rightarrow> ordering" where
  "dst_cmp = lex_cmp range_cmp (lex_cmp cmp cmp)"

definition route_registry_default :: "('t, 'k, 'm route_entry) slot_ops \<Rightarrow> ('t, 'k, 'm) route_registry" where
  "route_registry_default sm = \<lparr>rr_entries = sm_new sm, rr_by_gw = [], rr_by_dst = []\<rparr>"

section \<open>Reading the table\<close>

definition all_routes :: "('t, 'k, 'm route_entry) slot_ops \<Rightarrow> ('t, 'k, 'm) route_registry
    \<Rightarrow> ('m \<times> net_address \<times> address option \<times> route_metric) list" where
  "all_routes sm rr = map (\<lambda>(_, e). (re_message e, re_dst_net e, re_gw e, re_metric e)) (sm_iter sm (rr_entries rr))"

definition all_routes_by_gw :: "('t, 'k, 'm route_entry) slot_ops \<Rightarrow> address \<Rightarrow> ('t, 'k, 'm) route_registry
    \<Rightarrow> ('m \<times> net_address \<times> route_metric) list" where
  "all_routes_by_gw sm sought_gw rr = map (\<lambda>(_, e). (re_message e, re_dst_net e, re_metric e))
     (filter (\<lambda>(_, e). re_gw e = Some sought_gw) (sm_iter sm (rr_entries rr)))"

text \<open>\<open>default_key\<close> is \<open>LocalTypeKey::default()\<close>, the null key of the slot map of message types.\<close>

definition range_is_net :: "net_address \<Rightarrow> ('m dst_key \<times> 'k list) option \<Rightarrow> bool panics" where
  "range_is_net net found = (case found of
     None \<Rightarrow> Some False
   | Some ((r, _), _) \<Rightarrow> map_option (\<lambda>n. n = net) (net_of_range r))"

definition contains_net :: "'m::linorder \<Rightarrow> net_address \<Rightarrow> ('t, 'k, 'm) route_registry \<Rightarrow> bool panics" where
  "contains_net default_key net rr = do {
     r \<leftarrow> range_of_net net;
     let probe_key = (r, default_key, 0);
     below \<leftarrow> range_is_net net (om_last_below dst_cmp probe_key (rr_by_dst rr));
     if below then Some True
     else range_is_net net (om_first_from dst_cmp probe_key (rr_by_dst rr))
   }"

definition find_route :: "('t, 'k, 'm::linorder route_entry) slot_ops \<Rightarrow> (address \<Rightarrow> nat) \<Rightarrow> 'm \<Rightarrow> address
    \<Rightarrow> ('t, 'k, 'm) route_registry \<Rightarrow> (find_route_error + address option \<times> route_metric) panics" where
  "find_route sm hash message dst_addr rr = do {
     r \<leftarrow> range_of_address dst_addr;
     (case om_first_from dst_cmp (r, message, 0) (rr_by_dst rr) of
        None \<Rightarrow> Some (Inl NoRoute)
      | Some ((_, m, _), keys) \<Rightarrow>
          if m \<noteq> message then Some (Inl NoRoute)
          else do {
            let candidates = take MAX_CANDIDATES keys;
            assert_that (candidates \<noteq> []);
            let selected_key = candidates ! (hash dst_addr mod length candidates);
            selected_route \<leftarrow> sm_get sm (rr_entries rr) selected_key;
            Some (Inr (re_gw selected_route, re_metric selected_route))
          })
   }"

section \<open>Changing the table\<close>

text \<open>The key of \<open>BTreeMap::entry\<close>: the one of the map where it has one that compares equal.\<close>

definition entry_key :: "('k \<Rightarrow> 'k \<Rightarrow> ordering) \<Rightarrow> 'k \<Rightarrow> ('k \<times> 'v) list \<Rightarrow> 'k" where
  "entry_key c k m = (case om_find c k m of None \<Rightarrow> k | Some (k', _) \<Rightarrow> k')"

definition add_to_dst :: "'m::linorder dst_key \<Rightarrow> 'k \<Rightarrow> ('m dst_key \<times> 'k list) list \<Rightarrow> ('m dst_key \<times> 'k list) list" where
  "add_to_dst dst key by_dst = om_insert dst_cmp dst
     (hset_insert key (case om_find dst_cmp dst by_dst of None \<Rightarrow> [] | Some (_, keys) \<Rightarrow> keys)) by_dst"

definition remove_from_dst :: "'m::linorder dst_key \<Rightarrow> 'k \<Rightarrow> ('m dst_key \<times> 'k list) list
    \<Rightarrow> ('m dst_key \<times> 'k list) list panics" where
  "remove_from_dst dst key by_dst = (case om_find dst_cmp dst by_dst of
     None \<Rightarrow> None
   | Some (_, keys) \<Rightarrow> do {
       let (existed_before, keys') = hset_remove key keys;
       assert_that existed_before;
       Some (if keys' = [] then om_remove dst_cmp dst by_dst else om_insert dst_cmp dst keys' by_dst)
     })"

definition change_metric :: "('t, 'k, 'm::linorder route_entry) slot_ops \<Rightarrow> 'm \<Rightarrow> address_range \<Rightarrow> route_metric \<Rightarrow> 'k
    \<Rightarrow> ('t, 'k, 'm) route_registry \<Rightarrow> ((set_route_error + route_metric option) \<times> ('t, 'k, 'm) route_registry) panics" where
  "change_metric sm message dst new_metric key rr = do {
     e \<leftarrow> sm_get sm (rr_entries rr) key;
     let old_metric = re_metric e;
     if new_metric = old_metric then Some (Inr (Some old_metric), rr)
     else do {
       by_dst \<leftarrow> remove_from_dst (dst, message, old_metric) key
         (add_to_dst (dst, message, new_metric) key (rr_by_dst rr));
       Some (Inr (Some old_metric), rr\<lparr>
         rr_entries := sm_put sm (rr_entries rr) key (e\<lparr>re_metric := new_metric\<rparr>), rr_by_dst := by_dst\<rparr>)
     }
   }"

definition add_route :: "('t, 'k, 'm::linorder route_entry) slot_ops \<Rightarrow> 'm \<Rightarrow> net_address \<Rightarrow> address_range \<Rightarrow> address option
    \<Rightarrow> route_metric \<Rightarrow> ('t, 'k, 'm) route_registry
    \<Rightarrow> ((set_route_error + route_metric option) \<times> ('t, 'k, 'm) route_registry) panics" where
  "add_route sm message dst_net dst gw new_metric rr = (
     let (key, entries) = sm_insert sm (rr_entries rr)
           \<lparr>re_message = message, re_dst_net = dst_net, re_gw = gw, re_metric = new_metric\<rparr>;
         by_gw = om_insert gw_cmp (gw, dst, message) key (rr_by_gw rr);
         newly_added = (case om_find dst_cmp (dst, message, new_metric) (rr_by_dst rr) of
           None \<Rightarrow> True | Some (_, keys) \<Rightarrow> key \<notin> set keys)
     in do {
       assert_that newly_added;
       Some (Inr None, \<lparr>rr_entries = entries, rr_by_gw = by_gw,
         rr_by_dst = add_to_dst (dst, message, new_metric) key (rr_by_dst rr)\<rparr>)
     })"

definition drop_route :: "('t, 'k, 'm::linorder route_entry) slot_ops \<Rightarrow> 'm \<Rightarrow> address_range \<Rightarrow> address option \<Rightarrow> 'k
    \<Rightarrow> ('t, 'k, 'm) route_registry \<Rightarrow> ((set_route_error + route_metric option) \<times> ('t, 'k, 'm) route_registry) panics" where
  "drop_route sm message dst gw key rr = do {
     e \<leftarrow> sm_get sm (rr_entries rr) key;
     let old_metric = re_metric e;
     by_dst \<leftarrow> remove_from_dst (dst, message, old_metric) key (rr_by_dst rr);
     Some (Inr (Some old_metric), \<lparr>rr_entries = sm_remove sm (rr_entries rr) key,
       rr_by_gw = om_remove gw_cmp (gw, dst, message) (rr_by_gw rr), rr_by_dst = by_dst\<rparr>)
   }"

definition dst_conflict :: "'m::linorder \<Rightarrow> net_address \<Rightarrow> address_range \<Rightarrow> route_metric option
    \<Rightarrow> ('t, 'k, 'm) route_registry \<Rightarrow> net_address option panics" where
  "dst_conflict message dst_net dst set_metric rr = (case set_metric of
     None \<Rightarrow> Some None
   | Some new_metric \<Rightarrow> do {
       existing_address \<leftarrow> net_of_range (fst (entry_key dst_cmp (dst, message, new_metric) (rr_by_dst rr)));
       Some (if existing_address \<noteq> dst_net then Some existing_address else None)
     })"

definition set_route :: "('t, 'k, 'm::linorder route_entry) slot_ops \<Rightarrow> 'm \<Rightarrow> net_address \<Rightarrow> address option
    \<Rightarrow> route_metric option \<Rightarrow> ('t, 'k, 'm) route_registry
    \<Rightarrow> ((set_route_error + route_metric option) \<times> ('t, 'k, 'm) route_registry) panics" where
  "set_route sm message dst_net gw set_metric rr = do {
     dst \<leftarrow> range_of_net dst_net;
     conflict \<leftarrow> dst_conflict message dst_net dst set_metric rr;
     (case conflict of
        Some existing_address \<Rightarrow> Some (Inl (Conflict existing_address), rr)
      | None \<Rightarrow> do {
          existing_address \<leftarrow> net_of_range (fst (snd (entry_key gw_cmp (gw, dst, message) (rr_by_gw rr))));
          if existing_address \<noteq> dst_net then Some (Inl (Conflict existing_address), rr)
          else (case (set_metric, om_find gw_cmp (gw, dst, message) (rr_by_gw rr)) of
              (None, None) \<Rightarrow> Some (Inr None, rr)
            | (Some new_metric, Some (_, key)) \<Rightarrow> change_metric sm message dst new_metric key rr
            | (Some new_metric, None) \<Rightarrow> add_route sm message dst_net dst gw new_metric rr
            | (None, Some (_, key)) \<Rightarrow> drop_route sm message dst gw key rr)
        })
   }"

section \<open>Networks that do not overlap\<close>

definition separate_nets :: "net_address set \<Rightarrow> bool" where
  "separate_nets U \<longleftrightarrow> (\<forall>n\<in>U. net_canonical n) \<and> (\<forall>m\<in>U. \<forall>n\<in>U. m \<noteq> n \<longrightarrow> net_set m \<inter> net_set n = {})"

definition net_range :: "net_address \<Rightarrow> address_range" where
  "net_range n = the (range_of_net n)"

lemma separate_netsD:
  assumes "separate_nets U"
  shows "n \<in> U \<Longrightarrow> net_canonical n" "m \<in> U \<Longrightarrow> n \<in> U \<Longrightarrow> m \<noteq> n \<Longrightarrow> net_set m \<inter> net_set n = {}"
  using assms unfolding separate_nets_def by blast+

lemma canonical_range:
  assumes "net_canonical n"
  shows "range_of_net n = Some (net_range n)" "net_of_range (net_range n) = Some n"
    "range_set (net_range n) = net_set n" "range_ok (net_range n)"
proof -
  obtain r where r: "range_of_net n = Some r"
    using assms range_of_net_valid by (auto simp: net_canonical_def)
  then show "range_of_net n = Some (net_range n)" by (simp add: net_range_def)
  then show "net_of_range (net_range n) = Some n" "range_set (net_range n) = net_set n" "range_ok (net_range n)"
    using assms net_range_net range_of_net_set range_of_net_ok by (auto simp: net_canonical_def)
qed

lemma canonical_range_inj: "net_canonical m \<Longrightarrow> net_canonical n \<Longrightarrow> net_range m = net_range n \<longleftrightarrow> m = n"
  using canonical_range(2) by (metis option.inject)

lemma separate_net_ranges:
  assumes "separate_nets U"
  shows "separate_ranges (net_range ` U)"
proof -
  have "range_set (net_range m) \<inter> range_set (net_range n) = {}"
    if "m \<in> U" "n \<in> U" "net_range m \<noteq> net_range n" for m n
    using that separate_netsD [OF assms] canonical_range(3) by metis
  moreover have "range_ok (net_range n)" if "n \<in> U" for n
    using that separate_netsD(1) [OF assms] canonical_range(4) by blast
  ultimately show ?thesis unfolding separate_ranges_def by blast
qed

lemma gw_exact:
  assumes "separate_nets U"
  shows "exact_order (gw_cmp :: 'm::linorder gw_key \<Rightarrow> _) (\<lambda>k. fst (snd k) \<in> net_range ` U)"
  using lex_exact [OF lin.exact_order_axioms
      lex_exact [OF separate_exact [OF separate_net_ranges [OF assms]] lin.exact_order_axioms]]
  unfolding gw_cmp_def by simp

lemma dst_exact:
  assumes "separate_nets U"
  shows "exact_order (dst_cmp :: 'm::linorder dst_key \<Rightarrow> _) (\<lambda>k. fst k \<in> net_range ` U)"
  using lex_exact [OF separate_exact [OF separate_net_ranges [OF assms]]
      lex_exact [OF lin.exact_order_axioms lin.exact_order_axioms]]
  unfolding dst_cmp_def by simp

section \<open>The indexes and the entries agree\<close>

definition gw_of :: "'m route_entry \<Rightarrow> 'm gw_key" where
  "gw_of e = (re_gw e, net_range (re_dst_net e), re_message e)"

definition dst_of :: "'m route_entry \<Rightarrow> 'm dst_key" where
  "dst_of e = (net_range (re_dst_net e), re_message e, re_metric e)"

definition keys_at :: "('d \<rightharpoonup> 'k list) \<Rightarrow> 'd \<Rightarrow> 'k list" where
  "keys_at D d = (case D d of None \<Rightarrow> [] | Some ks \<Rightarrow> ks)"

definition index_inv :: "net_address set \<Rightarrow> ('k \<rightharpoonup> 'm route_entry) \<Rightarrow> ('m gw_key \<rightharpoonup> 'k) \<Rightarrow> ('m dst_key \<rightharpoonup> 'k list) \<Rightarrow> bool" where
  "index_inv U E G D \<longleftrightarrow>
     (\<forall>k e. E k = Some e \<longrightarrow> re_dst_net e \<in> U)
   \<and> (\<forall>g k. G g = Some k \<longleftrightarrow> (\<exists>e. E k = Some e \<and> gw_of e = g))
   \<and> (\<forall>d k. k \<in> set (keys_at D d) \<longleftrightarrow> (\<exists>e. E k = Some e \<and> dst_of e = d))
   \<and> (\<forall>d. D d \<noteq> Some [] \<and> distinct (keys_at D d))"

lemma index_invD:
  assumes "index_inv U E G D"
  shows "E k = Some e \<Longrightarrow> re_dst_net e \<in> U" "G g = Some k \<longleftrightarrow> (\<exists>e. E k = Some e \<and> gw_of e = g)"
    "k \<in> set (keys_at D d) \<longleftrightarrow> (\<exists>e. E k = Some e \<and> dst_of e = d)" "D d \<noteq> Some []" "distinct (keys_at D d)"
  using assms unfolding index_inv_def by blast+

definition add_at :: "'d \<Rightarrow> 'k \<Rightarrow> ('d \<rightharpoonup> 'k list) \<Rightarrow> 'd \<rightharpoonup> 'k list" where
  "add_at d k D = D(d \<mapsto> hset_insert k (keys_at D d))"

definition remove_at :: "'d \<Rightarrow> 'k \<Rightarrow> ('d \<rightharpoonup> 'k list) \<Rightarrow> 'd \<rightharpoonup> 'k list" where
  "remove_at d k D = D(d := (if removeAll k (keys_at D d) = [] then None else Some (removeAll k (keys_at D d))))"

lemma keys_at_add [simp]: "keys_at (add_at d k D) d' = (if d' = d then hset_insert k (keys_at D d) else keys_at D d')"
  by (simp add: add_at_def keys_at_def)

lemma keys_at_remove [simp]: "keys_at (remove_at d k D) d' = (if d' = d then removeAll k (keys_at D d) else keys_at D d')"
  by (simp add: remove_at_def keys_at_def)

lemma add_at_nonempty: "D d' \<noteq> Some [] \<Longrightarrow> add_at d k D d' \<noteq> Some []"
  by (auto simp: add_at_def hset_insert_def)

lemma remove_at_nonempty: "D d' \<noteq> Some [] \<Longrightarrow> remove_at d k D d' \<noteq> Some []"
  by (auto simp: remove_at_def)

lemma index_add:
  assumes "index_inv U E G D" "E k = None" "re_dst_net e \<in> U" "G (gw_of e) = None"
  shows "index_inv U (E(k \<mapsto> e)) (G(gw_of e \<mapsto> k)) (add_at (dst_of e) k D)"
proof -
  note D = index_invD [OF assms(1)]
  have "(G(gw_of e \<mapsto> k)) g = Some k' \<longleftrightarrow> (\<exists>e'. (E(k \<mapsto> e)) k' = Some e' \<and> gw_of e' = g)" for g k'
    using D(2) [of g k'] D(2) [of g k] D(2) [of "gw_of e" k'] assms(2,4) by auto
  moreover have "k' \<in> set (keys_at (add_at (dst_of e) k D) d)
      \<longleftrightarrow> (\<exists>e'. (E(k \<mapsto> e)) k' = Some e' \<and> dst_of e' = d)" for k' d
    using D(3) [of k' d] D(3) [of k d] assms(2) by auto
  moreover have "distinct (keys_at (add_at (dst_of e) k D) d)" "add_at (dst_of e) k D d \<noteq> Some []" for d
    by (simp_all add: hset_insert_distinct D(4,5) add_at_nonempty)
  moreover have "re_dst_net e' \<in> U" if "(E(k \<mapsto> e)) k' = Some e'" for k' e'
    using that D(1) assms(3) by (auto split: if_splits)
  ultimately show ?thesis unfolding index_inv_def by blast
qed

lemma index_drop:
  assumes "index_inv U E G D" "E k = Some e"
  shows "index_inv U (E(k := None)) (G(gw_of e := None)) (remove_at (dst_of e) k D)"
proof -
  note D = index_invD [OF assms(1)]
  have "(G(gw_of e := None)) g = Some k' \<longleftrightarrow> (\<exists>e'. (E(k := None)) k' = Some e' \<and> gw_of e' = g)" for g k'
    using D(2) [of g k'] D(2) [of "gw_of e" k'] D(2) [of "gw_of e" k] assms(2) by auto
  moreover have "k' \<in> set (keys_at (remove_at (dst_of e) k D) d)
      \<longleftrightarrow> (\<exists>e'. (E(k := None)) k' = Some e' \<and> dst_of e' = d)" for k' d
    using D(3) [of k' d] assms(2) by auto
  moreover have "distinct (keys_at (remove_at (dst_of e) k D) d)" "remove_at (dst_of e) k D d \<noteq> Some []" for d
    by (simp_all add: distinct_removeAll D(4,5) remove_at_nonempty)
  moreover have "re_dst_net e' \<in> U" if "(E(k := None)) k' = Some e'" for k' e'
    using that D(1) by (auto split: if_splits)
  ultimately show ?thesis unfolding index_inv_def by blast
qed

lemma index_change:
  assumes "index_inv U E G D" "E k = Some e" "x \<noteq> re_metric e"
  shows "index_inv U (E(k \<mapsto> e\<lparr>re_metric := x\<rparr>)) G
    (remove_at (dst_of e) k (add_at (dst_of (e\<lparr>re_metric := x\<rparr>)) k D))"
proof -
  note D = index_invD [OF assms(1)]
  let ?e = "e\<lparr>re_metric := x\<rparr>"
  have new: "dst_of ?e \<noteq> dst_of e" "gw_of ?e = gw_of e" "re_dst_net ?e = re_dst_net e"
    using assms(3) by (simp_all add: dst_of_def gw_of_def)
  have "G g = Some k' \<longleftrightarrow> (\<exists>e'. (E(k \<mapsto> ?e)) k' = Some e' \<and> gw_of e' = g)" for g k'
    using D(2) [of g k'] assms(2) new(2) by (cases "k' = k") simp_all
  moreover have "k' \<in> set (keys_at (remove_at (dst_of e) k (add_at (dst_of ?e) k D)) d)
      \<longleftrightarrow> (\<exists>e'. (E(k \<mapsto> ?e)) k' = Some e' \<and> dst_of e' = d)" for k' d
    using D(3) [of k' d] assms(2) new(1) by (cases "k' = k") auto
  moreover have "distinct (keys_at (remove_at (dst_of e) k (add_at (dst_of ?e) k D)) d)"
      "remove_at (dst_of e) k (add_at (dst_of ?e) k D) d \<noteq> Some []" for d
    by (simp_all add: distinct_removeAll hset_insert_distinct D(4,5) remove_at_nonempty add_at_nonempty)
  moreover have "re_dst_net e' \<in> U" if "(E(k \<mapsto> ?e)) k' = Some e'" for k' e'
    using that D(1) assms(2) new(3) by (auto split: if_splits)
  ultimately show ?thesis unfolding index_inv_def by blast
qed

abbreviation gw_map_ok :: "net_address set \<Rightarrow> ('m::linorder gw_key \<times> 'k) list \<Rightarrow> bool" where
  "gw_map_ok U \<equiv> key_order.map_ok gw_cmp (\<lambda>k. fst (snd k) \<in> net_range ` U)"

abbreviation dst_map_ok :: "net_address set \<Rightarrow> ('m::linorder dst_key \<times> 'k list) list \<Rightarrow> bool" where
  "dst_map_ok U \<equiv> key_order.map_ok dst_cmp (\<lambda>k. fst k \<in> net_range ` U)"

definition rr_inv :: "('t, 'k, 'm::linorder route_entry) slot_ops \<Rightarrow> net_address set \<Rightarrow> ('t, 'k, 'm) route_registry \<Rightarrow> bool" where
  "rr_inv sm U rr \<longleftrightarrow> gw_map_ok U (rr_by_gw rr) \<and> dst_map_ok U (rr_by_dst rr)
     \<and> index_inv U (sm_get sm (rr_entries rr)) (map_of (rr_by_gw rr)) (map_of (rr_by_dst rr))"

lemma map_ok_Nil: "exact_order c ok \<Longrightarrow> key_order.map_ok c ok []"
  by (rule key_order.map_ok_simps) (rule exact_order.axioms(1))

lemma rr_inv_default:
  assumes "slot_laws sm" "separate_nets U"
  shows "rr_inv sm U (route_registry_default sm)"
  using map_ok_Nil [OF gw_exact [OF assms(2)]] map_ok_Nil [OF dst_exact [OF assms(2)]] slot_new [OF assms(1)]
  by (simp add: rr_inv_def route_registry_default_def index_inv_def keys_at_def)

lemma keys_at_find:
  assumes "separate_nets U" "dst_map_ok U m" "fst d \<in> net_range ` U"
  shows "(case om_find dst_cmp d m of None \<Rightarrow> [] | Some (_, keys) \<Rightarrow> keys) = keys_at (map_of m) d"
  using exact_order.find_map_of [OF dst_exact [OF assms(1)] assms(2,3)]
  by (simp add: keys_at_def split: option.splits)

lemma add_to_dst_map:
  assumes "separate_nets U" "dst_map_ok U m" "fst d \<in> net_range ` U"
  shows "dst_map_ok U (add_to_dst d k m)" "map_of (add_to_dst d k m) = add_at d k (map_of m)"
  using exact_order.insert_map_of [OF dst_exact [OF assms(1)] assms(2,3)]
  by (simp_all add: add_to_dst_def keys_at_find [OF assms] add_at_def)

lemma remove_from_dst_map:
  assumes "separate_nets U" "dst_map_ok U m" "fst d \<in> net_range ` U" "k \<in> set (keys_at (map_of m) d)"
  shows "\<exists>m'. remove_from_dst d k m = Some m' \<and> dst_map_ok U m' \<and> map_of m' = remove_at d k (map_of m)"
proof -
  note ex = dst_exact [OF assms(1)]
  obtain ks where ks: "map_of m d = Some ks" "k \<in> set ks" "keys_at (map_of m) d = ks"
    using assms(4) by (cases "map_of m d") (simp_all add: keys_at_def)
  then have "om_find dst_cmp d m = Some (d, ks)" using exact_order.find_map_of [OF ex assms(2,3)] by simp
  then show ?thesis
    using ks exact_order.insert_map_of [OF ex assms(2,3)] exact_order.remove_map_of [OF ex assms(2,3)]
    by (auto simp: remove_from_dst_def hset_remove_def remove_at_def)
qed

section \<open>The table as a map\<close>

text \<open>The table as its readers see it: the metric of the route for a message type, a network and a
  gateway.\<close>

definition routes :: "('t, 'k, 'm route_entry) slot_ops \<Rightarrow> ('t, 'k, 'm) route_registry
    \<Rightarrow> ('m \<times> net_address \<times> address option) \<rightharpoonup> route_metric" where
  "routes sm rr = map_of (map (\<lambda>(message, dst_net, gw, metric). ((message, dst_net, gw), metric)) (all_routes sm rr))"

definition route_of :: "'m route_entry \<Rightarrow> 'm \<times> net_address \<times> address option" where
  "route_of e = (re_message e, re_dst_net e, re_gw e)"

lemma routes_alt: "routes sm rr = map_of (map (\<lambda>(_, e). (route_of e, re_metric e)) (sm_iter sm (rr_entries rr)))"
  by (simp add: routes_def all_routes_def route_of_def comp_def split_def)

lemma route_gw_unique:
  assumes "index_inv U E G D" "separate_nets U" "E k = Some e" "E k' = Some e'"
  shows "route_of e = route_of e' \<longleftrightarrow> k = k'" "gw_of e = gw_of e' \<longleftrightarrow> k = k'"
proof -
  have "net_canonical (re_dst_net e)" "net_canonical (re_dst_net e')"
    using index_invD(1) [OF assms(1)] assms(3,4) separate_netsD(1) [OF assms(2)] by blast+
  then have "gw_of e = gw_of e' \<longleftrightarrow> route_of e = route_of e'"
    using canonical_range_inj by (auto simp: gw_of_def route_of_def)
  moreover show "gw_of e = gw_of e' \<longleftrightarrow> k = k'"
    using index_invD(2) [OF assms(1)] assms(3,4) by (metis option.inject)
  ultimately show "route_of e = route_of e' \<longleftrightarrow> k = k'" by simp
qed

lemma routes_iff:
  assumes "slot_laws sm" "separate_nets U" "rr_inv sm U rr"
  shows "routes sm rr t = Some x
    \<longleftrightarrow> (\<exists>k e. sm_get sm (rr_entries rr) k = Some e \<and> route_of e = t \<and> re_metric e = x)" (is "_ \<longleftrightarrow> ?ex x")
proof -
  have ix: "index_inv U (sm_get sm (rr_entries rr)) (map_of (rr_by_gw rr)) (map_of (rr_by_dst rr))"
    using assms(3) by (simp add: rr_inv_def)
  have 1: "?ex y" if "routes sm rr t = Some y" for y
  proof -
    have "(t, y) \<in> set (map (\<lambda>(_, e). (route_of e, re_metric e)) (sm_iter sm (rr_entries rr)))"
      using that map_of_SomeD unfolding routes_alt by fastforce
    then show ?thesis using slot_iter(1) [OF assms(1)] by fastforce
  qed
  have 2: "routes sm rr t \<noteq> None" if "?ex x"
  proof -
    have "t \<in> fst ` set (map (\<lambda>(_, e). (route_of e, re_metric e)) (sm_iter sm (rr_entries rr)))"
      using that slot_iter(1) [OF assms(1)] by force
    then show ?thesis unfolding routes_alt by (simp add: map_of_eq_None_iff)
  qed
  have 3: "x = y" if "?ex x" "?ex y" for y
    using that route_gw_unique(1) [OF ix assms(2)] by (metis option.inject)
  show ?thesis
  proof
    assume ex: "?ex x"
    then obtain y where y: "routes sm rr t = Some y" using 2 by blast
    with 3 [OF ex 1 [OF y]] show "routes sm rr t = Some x" by simp
  qed (rule 1)
qed

lemma routes_eqI:
  assumes "slot_laws sm" "separate_nets U" "rr_inv sm U rr"
    and "\<And>t x. (\<exists>k e. sm_get sm (rr_entries rr) k = Some e \<and> route_of e = t \<and> re_metric e = x) \<longleftrightarrow> A t = Some x"
  shows "routes sm rr = A"
proof (rule ext)
  fix t
  have "routes sm rr t = Some x \<longleftrightarrow> A t = Some x" for x
    using routes_iff [OF assms(1-3)] assms(4) by blast
  then show "routes sm rr t = A t" by (metis option.exhaust)
qed

section \<open>Changes of the table\<close>

lemma rr_invD:
  assumes "rr_inv sm U rr"
  shows "gw_map_ok U (rr_by_gw rr)" "dst_map_ok U (rr_by_dst rr)"
    "index_inv U (sm_get sm (rr_entries rr)) (map_of (rr_by_gw rr)) (map_of (rr_by_dst rr))"
  using assms by (simp_all add: rr_inv_def)

lemma entry_key_exact:
  assumes "exact_order c ok" "key_order.map_ok c ok m" "ok k"
  shows "entry_key c k m = k"
  using exact_order.find_map_of [OF assms] by (simp add: entry_key_def split: option.splits)

lemma ex_entry_upd:
  "(\<exists>k' e'. (E(k := v)) k' = Some e' \<and> P e')
    \<longleftrightarrow> (\<exists>e'. v = Some e' \<and> P e') \<or> (\<exists>k' e'. k' \<noteq> k \<and> E k' = Some e' \<and> P e')"
  by (metis fun_upd_other fun_upd_same)

lemma routes_upd:
  assumes "slot_laws sm" "separate_nets U" "rr_inv sm U rr" "rr_inv sm U rr'"
    "sm_get sm (rr_entries rr') = (sm_get sm (rr_entries rr))(k := v)"
    "\<And>k' e'. sm_get sm (rr_entries rr) k' = Some e' \<Longrightarrow> route_of e' = t \<longleftrightarrow> k' = k"
    "\<And>e. v = Some e \<Longrightarrow> route_of e = t"
  shows "routes sm rr' = (routes sm rr)(t := map_option re_metric v)"
proof (rule routes_eqI [OF assms(1,2,4)])
  fix u x
  show "(\<exists>k e. sm_get sm (rr_entries rr') k = Some e \<and> route_of e = u \<and> re_metric e = x)
      \<longleftrightarrow> ((routes sm rr)(t := map_option re_metric v)) u = Some x"
  proof (cases "u = t")
    case True
    then show ?thesis using assms(6,7) unfolding assms(5) ex_entry_upd by auto
  next
    case False
    then have "(\<exists>k' e. k' \<noteq> k \<and> sm_get sm (rr_entries rr) k' = Some e \<and> route_of e = u \<and> re_metric e = x)
        \<longleftrightarrow> routes sm rr u = Some x"
      using routes_iff [OF assms(1-3), of u x] assms(6) by blast
    then show ?thesis using False assms(7) unfolding assms(5) ex_entry_upd by auto
  qed
qed

lemma add_route_ok:
  assumes "slot_laws sm" "separate_nets U" "rr_inv sm U rr" "net \<in> U"
    "map_of (rr_by_gw rr) (gw, net_range net, message) = None"
  shows "routes sm rr (message, net, gw) = None
    \<and> (\<exists>rr'. add_route sm message net (net_range net) gw x rr = Some (Inr None, rr')
      \<and> rr_inv sm U rr' \<and> routes sm rr' = (routes sm rr)((message, net, gw) \<mapsto> x))"
proof -
  let ?e = "\<lparr>re_message = message, re_dst_net = net, re_gw = gw, re_metric = x\<rparr>"
  let ?d = "(net_range net, message, x)" and ?g = "(gw, net_range net, message)"
  note inv = rr_invD [OF assms(3)]
  obtain k t where ins: "sm_insert sm (rr_entries rr) ?e = (k, t)" by fastforce
  note slot = slot_insert [OF assms(1) ins]
  have of_e: "dst_of ?e = ?d" "gw_of ?e = ?g" by (simp_all add: dst_of_def gw_of_def)
  have in_U: "net_range net \<in> net_range ` U" using assms(4) by simp
  let ?rr = "\<lparr>rr_entries = t, rr_by_gw = om_insert gw_cmp ?g k (rr_by_gw rr), rr_by_dst = add_to_dst ?d k (rr_by_dst rr)\<rparr>"
  have fresh: "k \<notin> set (keys_at (map_of (rr_by_dst rr)) ?d)"
    using index_invD(3) [OF inv(3)] slot(1) by simp
  have new: "add_route sm message net (net_range net) gw x rr = Some (Inr None, ?rr)"
    using fresh exact_order.find_map_of [OF dst_exact [OF assms(2)] inv(2), of ?d] in_U
    by (simp add: add_route_def ins keys_at_def split: option.splits)
  have inv': "rr_inv sm U ?rr"
    using index_add [OF inv(3) slot(1), of ?e] assms(4,5) slot(2) add_to_dst_map [OF assms(2) inv(2), of ?d k]
      exact_order.insert_map_of [OF gw_exact [OF assms(2)] inv(1), of ?g k] in_U
    by (simp add: rr_inv_def of_e)
  have old: "route_of e \<noteq> (message, net, gw)" if "sm_get sm (rr_entries rr) k' = Some e" for k' e
    using that index_invD(2) [OF inv(3)] assms(5) by (metis gw_of_def option.distinct(1) prod.inject route_of_def)
  have "routes sm ?rr = (routes sm rr)((message, net, gw) := map_option re_metric (Some ?e))"
  proof (rule routes_upd [OF assms(1-3) inv'])
    show "route_of e' = (message, net, gw) \<longleftrightarrow> k' = k" if "sm_get sm (rr_entries rr) k' = Some e'" for k' e'
      using that old slot(1) by auto
  qed (simp_all add: slot(2) route_of_def)
  moreover have "routes sm rr (message, net, gw) = None"
    using routes_iff [OF assms(1-3)] old by (metis option.exhaust)
  ultimately show ?thesis using new inv' by auto
qed

lemma gw_entry:
  assumes "slot_laws sm" "separate_nets U" "rr_inv sm U rr" "net \<in> U"
    "map_of (rr_by_gw rr) (gw, net_range net, message) = Some k"
  obtains e where "sm_get sm (rr_entries rr) k = Some e" "gw_of e = (gw, net_range net, message)"
    "route_of e = (message, net, gw)" "dst_of e = (net_range net, message, re_metric e)"
    "routes sm rr (message, net, gw) = Some (re_metric e)"
    "k \<in> set (keys_at (map_of (rr_by_dst rr)) (net_range net, message, re_metric e))"
    "\<And>k' e'. sm_get sm (rr_entries rr) k' = Some e' \<Longrightarrow> route_of e' = (message, net, gw) \<longleftrightarrow> k' = k"
proof -
  note inv = rr_invD [OF assms(3)]
  obtain e where e: "sm_get sm (rr_entries rr) k = Some e" "gw_of e = (gw, net_range net, message)"
    using assms(5) index_invD(2) [OF inv(3)] by blast
  have "re_dst_net e = net"
    using e(2) index_invD(1) [OF inv(3) e(1)] assms(4) separate_netsD(1) [OF assms(2)] canonical_range_inj
    by (auto simp: gw_of_def)
  then have of_e: "route_of e = (message, net, gw)" "dst_of e = (net_range net, message, re_metric e)"
    using e(2) by (auto simp: route_of_def gw_of_def dst_of_def)
  have "k \<in> set (keys_at (map_of (rr_by_dst rr)) (net_range net, message, re_metric e))"
    using index_invD(3) [OF inv(3)] e(1) of_e(2) by metis
  moreover have "routes sm rr (message, net, gw) = Some (re_metric e)"
    using routes_iff [OF assms(1-3)] e(1) of_e(1) by blast
  moreover have "route_of e' = (message, net, gw) \<longleftrightarrow> k' = k" if "sm_get sm (rr_entries rr) k' = Some e'" for k' e'
    using route_gw_unique(1) [OF inv(3) assms(2) e(1) that] of_e(1) by metis
  ultimately show ?thesis using that e of_e by blast
qed

lemma drop_route_ok:
  assumes "slot_laws sm" "separate_nets U" "rr_inv sm U rr" "net \<in> U"
    "map_of (rr_by_gw rr) (gw, net_range net, message) = Some k"
  shows "\<exists>rr'. drop_route sm message (net_range net) gw k rr = Some (Inr (routes sm rr (message, net, gw)), rr')
      \<and> rr_inv sm U rr' \<and> routes sm rr' = (routes sm rr)((message, net, gw) := None)"
proof -
  note inv = rr_invD [OF assms(3)]
  obtain e where e: "sm_get sm (rr_entries rr) k = Some e" "gw_of e = (gw, net_range net, message)"
    "dst_of e = (net_range net, message, re_metric e)" "routes sm rr (message, net, gw) = Some (re_metric e)"
    "k \<in> set (keys_at (map_of (rr_by_dst rr)) (net_range net, message, re_metric e))"
    and only: "\<And>k' e'. sm_get sm (rr_entries rr) k' = Some e' \<Longrightarrow> route_of e' = (message, net, gw) \<longleftrightarrow> k' = k"
    using gw_entry [OF assms] by metis
  have in_U: "net_range net \<in> net_range ` U" using assms(4) by simp
  obtain m' where m': "remove_from_dst (net_range net, message, re_metric e) k (rr_by_dst rr) = Some m'" "dst_map_ok U m'"
      "map_of m' = remove_at (net_range net, message, re_metric e) k (map_of (rr_by_dst rr))"
    using remove_from_dst_map [OF assms(2) inv(2) _ e(5)] in_U by auto
  let ?rr = "\<lparr>rr_entries = sm_remove sm (rr_entries rr) k,
    rr_by_gw = om_remove gw_cmp (gw, net_range net, message) (rr_by_gw rr), rr_by_dst = m'\<rparr>"
  have inv': "rr_inv sm U ?rr"
    using index_drop [OF inv(3) e(1)] m' slot_remove [OF assms(1)] in_U e(2,3)
      exact_order.remove_map_of [OF gw_exact [OF assms(2)] inv(1), of "(gw, net_range net, message)"]
    by (simp add: rr_inv_def)
  have "routes sm ?rr = (routes sm rr)((message, net, gw) := None)"
    using routes_upd [OF assms(1-3) inv', of k None "(message, net, gw)"] by (simp add: slot_remove [OF assms(1)] only)
  then show ?thesis using inv' e(1,4) m'(1) by (simp add: drop_route_def)
qed

lemma change_metric_ok:
  assumes "slot_laws sm" "separate_nets U" "rr_inv sm U rr" "net \<in> U"
    "map_of (rr_by_gw rr) (gw, net_range net, message) = Some k"
  shows "\<exists>rr'. change_metric sm message (net_range net) x k rr = Some (Inr (routes sm rr (message, net, gw)), rr')
      \<and> rr_inv sm U rr' \<and> routes sm rr' = (routes sm rr)((message, net, gw) \<mapsto> x)"
proof -
  note inv = rr_invD [OF assms(3)]
  obtain e where e: "sm_get sm (rr_entries rr) k = Some e" "route_of e = (message, net, gw)"
    "dst_of e = (net_range net, message, re_metric e)" "routes sm rr (message, net, gw) = Some (re_metric e)"
    "k \<in> set (keys_at (map_of (rr_by_dst rr)) (net_range net, message, re_metric e))"
    and only: "\<And>k' e'. sm_get sm (rr_entries rr) k' = Some e' \<Longrightarrow> route_of e' = (message, net, gw) \<longleftrightarrow> k' = k"
    using gw_entry [OF assms] by metis
  show ?thesis
  proof (cases "x = re_metric e")
    case True
    then have "routes sm rr = (routes sm rr)((message, net, gw) \<mapsto> x)" using e(4) by auto
    then show ?thesis using True e(1,4) assms(3) by (auto simp: change_metric_def)
  next
    case False
    let ?e = "e\<lparr>re_metric := x\<rparr>" and ?d = "(net_range net, message, re_metric e)" and ?d' = "(net_range net, message, x)"
    have in_U: "net_range net \<in> net_range ` U" using assms(4) by simp
    note add = add_to_dst_map [OF assms(2) inv(2), of ?d' k, simplified, OF in_U]
    have "k \<in> set (keys_at (map_of (add_to_dst ?d' k (rr_by_dst rr))) ?d)" using e(5) False by (simp add: add(2))
    then obtain m' where m': "remove_from_dst ?d k (add_to_dst ?d' k (rr_by_dst rr)) = Some m'" "dst_map_ok U m'"
        "map_of m' = remove_at ?d k (add_at ?d' k (map_of (rr_by_dst rr)))"
      using remove_from_dst_map [OF assms(2) add(1)] in_U add(2) by (metis fst_conv)
    let ?rr = "rr\<lparr>rr_entries := sm_put sm (rr_entries rr) k ?e, rr_by_dst := m'\<rparr>"
    have of_e: "dst_of ?e = ?d'" "route_of ?e = (message, net, gw)" using e(2,3) by (auto simp: dst_of_def route_of_def)
    have inv': "rr_inv sm U ?rr"
      using index_change [OF inv(3) e(1) False] m' slot_put [OF assms(1) e(1)] inv(1) e(3) of_e(1)
      by (simp add: rr_inv_def)
    have "routes sm ?rr = (routes sm rr)((message, net, gw) := map_option re_metric (Some ?e))"
      by (rule routes_upd [OF assms(1-3) inv']) (auto simp: slot_put [OF assms(1) e(1)] only of_e(2))
    then show ?thesis using inv' e(1,4) m'(1) False by (simp add: change_metric_def)
  qed
qed

lemma set_route_ok:
  assumes "slot_laws sm" "separate_nets U" "rr_inv sm U rr" "net \<in> U"
  shows "\<exists>rr'. set_route sm message net gw metric rr = Some (Inr (routes sm rr (message, net, gw)), rr')
      \<and> rr_inv sm U rr' \<and> routes sm rr' = (routes sm rr)((message, net, gw) := metric)"
proof -
  note inv = rr_invD [OF assms(3)] and net = canonical_range [OF separate_netsD(1) [OF assms(2,4)]]
  note gw = gw_exact [OF assms(2)] and dst = dst_exact [OF assms(2)]
  let ?g = "(gw, net_range net, message)"
  have no_conflict: "dst_conflict message net (net_range net) metric rr = Some None"
    using entry_key_exact [OF dst inv(2)] assms(4) by (auto simp: dst_conflict_def net(2) split: option.splits)
  have found: "om_find gw_cmp ?g (rr_by_gw rr) = map_option (Pair ?g) (map_of (rr_by_gw rr) ?g)"
    using exact_order.find_map_of [OF gw inv(1), of ?g] assms(4) by simp
  have set_route: "set_route sm message net gw metric rr = (case (metric, map_of (rr_by_gw rr) ?g) of
      (None, None) \<Rightarrow> Some (Inr None, rr)
    | (Some x, Some key) \<Rightarrow> change_metric sm message (net_range net) x key rr
    | (Some x, None) \<Rightarrow> add_route sm message net (net_range net) gw x rr
    | (None, Some key) \<Rightarrow> drop_route sm message (net_range net) gw key rr)"
    using entry_key_exact [OF gw inv(1), of ?g] assms(4)
    by (simp add: set_route_def net no_conflict found split: option.splits)
  show ?thesis
  proof (cases "map_of (rr_by_gw rr) ?g")
    case None
    note add = add_route_ok [OF assms None]
    show ?thesis
    proof (cases metric)
      case (Some x)
      then show ?thesis using add None set_route by simp
    next
      case None
      have "routes sm rr = (routes sm rr)((message, net, gw) := None)" using add by auto
      then show ?thesis using None \<open>map_of (rr_by_gw rr) ?g = None\<close> add set_route assms(3) by auto
    qed
  next
    case (Some key)
    then show ?thesis
      using set_route drop_route_ok [OF assms Some] change_metric_ok [OF assms Some] by (cases metric) simp_all
  qed
qed

end
