(* ===== verification/Route_Props.thy ===== *)
theory Route_Props
  imports Route_Registry
begin

text \<open>
  What the table of routes guarantees: over networks that do not overlap it is a map from message
  type, network and gateway to a metric, the search for a route finds one with the lowest metric, and
  \<open>contains_net\<close> says whether there is a route at all. Outside of these conditions the search may
  answer with a route to another network, and overlapping networks are refused only by chance.
\<close>

section \<open>Searching the index by destination\<close>

lemma find_first_sorted:
  "sorted_wrt P xs \<Longrightarrow> y \<in> set xs \<Longrightarrow> Q y \<Longrightarrow> \<exists>e. find Q xs = Some e \<and> Q e \<and> e \<in> set xs \<and> (e = y \<or> P e y)"
  by (induction xs) auto

lemma dst_cmp_simp:
  "dst_cmp (r, m, x) (r', m', x') = (case range_cmp r r' of
     Equal \<Rightarrow> (case cmp m m' of Equal \<Rightarrow> cmp x x' | order \<Rightarrow> order) | order \<Rightarrow> order)"
  by (simp add: dst_cmp_def split: ordering.splits)

lemma by_dst_entry:
  assumes "separate_nets U" "rr_inv sm U rr" "((r, m, x), ks) \<in> set (rr_by_dst rr)"
  obtains n where "n \<in> U" "r = net_range n" "range_ok r" "map_of (rr_by_dst rr) (r, m, x) = Some ks"
proof -
  note ok = rr_invD(2) [OF assms(2)] and ex = dst_exact [OF assms(1)]
  have "map_of (rr_by_dst rr) (r, m, x) = Some ks"
    using exact_order.set_map_of [OF ex ok] assms(3) by blast
  moreover have "r \<in> net_range ` U"
    using ok assms(3) unfolding key_order.map_ok_def [OF exact_order.axioms(1) [OF ex]] by force
  ultimately show ?thesis
    using that canonical_range(4) separate_netsD(1) [OF assms(1)] by blast
qed

lemma by_dst_sorted:
  assumes "separate_nets U" "rr_inv sm U rr"
  shows "sorted_wrt (\<lambda>x y. dst_cmp (fst x) (fst y) = Less) (rr_by_dst rr)"
  using rr_invD(2) [OF assms(2)]
  unfolding key_order.map_ok_def [OF exact_order.axioms(1) [OF dst_exact [OF assms(1)]]] om_sorted_def by blast

lemma range_equal_same:
  assumes "separate_nets U" "r \<in> net_range ` U" "r' \<in> net_range ` U" "range_cmp r r' = Equal"
  shows "r = r'"
  using exact_order.exact_law [OF separate_exact [OF separate_net_ranges [OF assms(1)]]] assms(2-4) by blast

lemma point_cmp:
  assumes "range_ok r" "a \<in> range_set r"
  shows "range_cmp \<lparr>range_lo = a, range_hi = a\<rparr> r = Equal"
    "range_ok r' \<Longrightarrow> range_cmp r' r = Less \<Longrightarrow> range_cmp \<lparr>range_lo = a, range_hi = a\<rparr> r' = Greater"
  using assms point_range_cmp range_cmp_Less [of r' r] range_cmp_Greater [of "\<lparr>range_lo = a, range_hi = a\<rparr>" r']
  by (auto simp: range_set_def range_ok_def)

lemma first_from_route:
  assumes "separate_nets U" "rr_inv sm U rr" "((r, message, y), ks) \<in> set (rr_by_dst rr)" "a \<in> range_set r"
  shows "\<exists>x ks'. om_first_from dst_cmp (\<lparr>range_lo = a, range_hi = a\<rparr>, message, 0) (rr_by_dst rr) = Some ((r, message, x), ks')
    \<and> x \<le> y \<and> map_of (rr_by_dst rr) (r, message, x) = Some ks'"
proof -
  let ?p = "(\<lparr>range_lo = a, range_hi = a\<rparr>, message, 0 :: route_metric)"
  obtain n where n: "n \<in> U" "r = net_range n" "range_ok r" using by_dst_entry [OF assms(1-3)] by metis
  have "dst_cmp ?p (r, message, y) \<noteq> Greater"
    by (simp add: dst_cmp_simp point_cmp(1) [OF n(3) assms(4)] cmp_def word_neq_0_conv)
  then obtain r' m' x ks' where e: "find (\<lambda>e. dst_cmp ?p (fst e) \<noteq> Greater) (rr_by_dst rr) = Some ((r', m', x), ks')"
      "dst_cmp ?p (r', m', x) \<noteq> Greater" "((r', m', x), ks') \<in> set (rr_by_dst rr)"
      "(r', m', x) = (r, message, y) \<or> dst_cmp (r', m', x) (r, message, y) = Less"
    using find_first_sorted [OF by_dst_sorted [OF assms(1,2)] assms(3), of "\<lambda>e. dst_cmp ?p (fst e) \<noteq> Greater"] by fastforce
  obtain n' where n': "n' \<in> U" "r' = net_range n'" "range_ok r'" "map_of (rr_by_dst rr) (r', m', x) = Some ks'"
    using by_dst_entry [OF assms(1,2) e(3)] by metis
  have "range_cmp r' r \<noteq> Less" using e(2) point_cmp(2) [OF n(3) assms(4) n'(3)] by (auto simp: dst_cmp_simp)
  moreover have "range_cmp r' r \<noteq> Greater"
    using e(4) point_cmp(1) [OF n(3) assms(4)] rng.refl_law [OF n(3)] by (auto simp: dst_cmp_simp split: ordering.splits)
  ultimately have "range_cmp r' r = Equal" by (cases "range_cmp r' r") auto
  then have r': "r' = r" using range_equal_same [OF assms(1)] n(1,2) n'(1,2) by blast
  have "cmp message m' \<noteq> Greater" using e(2) point_cmp(1) [OF n(3) assms(4)] by (auto simp: dst_cmp_simp r' split: ordering.splits)
  then have "m' = message \<and> x \<le> y"
    using e(4) rng.refl_law [OF n(3)] by (auto simp: dst_cmp_simp r' cmp_def split: ordering.splits if_splits)
  then show ?thesis using e(1) n'(4) r' unfolding om_first_from_def by simp
qed

lemma route_in_dst:
  assumes "slot_laws sm" "separate_nets U" "rr_inv sm U rr"
  shows "routes sm rr (message, net, gw) = Some x \<Longrightarrow> net \<in> U
      \<and> (\<exists>ks. ((net_range net, message, x), ks) \<in> set (rr_by_dst rr))"
    and "((r, message, x), ks) \<in> set (rr_by_dst rr) \<Longrightarrow> k \<in> set ks
      \<Longrightarrow> \<exists>e. sm_get sm (rr_entries rr) k = Some e \<and> re_metric e = x \<and> re_dst_net e \<in> U \<and> r = net_range (re_dst_net e)
        \<and> routes sm rr (message, re_dst_net e, re_gw e) = Some x"
proof -
  note inv = rr_invD [OF assms(3)]
  show "net \<in> U \<and> (\<exists>ks. ((net_range net, message, x), ks) \<in> set (rr_by_dst rr))"
    if route: "routes sm rr (message, net, gw) = Some x"
  proof -
    obtain k e where e: "sm_get sm (rr_entries rr) k = Some e" "route_of e = (message, net, gw)" "re_metric e = x"
      using route routes_iff [OF assms] by blast
    then have "k \<in> set (keys_at (map_of (rr_by_dst rr)) (net_range net, message, x))"
      using index_invD(3) [OF inv(3)] by (auto simp: dst_of_def route_of_def)
    then have "\<exists>ks. map_of (rr_by_dst rr) (net_range net, message, x) = Some ks"
      by (cases "map_of (rr_by_dst rr) (net_range net, message, x)") (simp_all add: keys_at_def)
    then show ?thesis using index_invD(1) [OF inv(3) e(1)] e(2) map_of_SomeD by (fastforce simp: route_of_def)
  qed
  show "\<exists>e. sm_get sm (rr_entries rr) k = Some e \<and> re_metric e = x \<and> re_dst_net e \<in> U \<and> r = net_range (re_dst_net e)
        \<and> routes sm rr (message, re_dst_net e, re_gw e) = Some x"
    if "((r, message, x), ks) \<in> set (rr_by_dst rr)" "k \<in> set ks"
  proof -
    have "map_of (rr_by_dst rr) (r, message, x) = Some ks"
      using by_dst_entry [OF assms(2,3) that(1)] by metis
    then have "k \<in> set (keys_at (map_of (rr_by_dst rr)) (r, message, x))" using that(2) by (simp add: keys_at_def)
    then obtain e where e: "sm_get sm (rr_entries rr) k = Some e" "dst_of e = (r, message, x)"
      using index_invD(3) [OF inv(3)] by blast
    moreover have "route_of e = (message, re_dst_net e, re_gw e)" "re_metric e = x"
      using e(2) by (simp_all add: route_of_def dst_of_def)
    ultimately show ?thesis
      using index_invD(1) [OF inv(3) e(1)] routes_iff [OF assms] by (auto simp: dst_of_def)
  qed
qed

lemma find_route_ok:
  assumes "slot_laws sm" "separate_nets U" "rr_inv sm U rr"
    "routes sm rr (message, net, gw) = Some y" "a \<in> net_set net"
  shows "\<exists>gw x. find_route sm hash message a rr = Some (Inr (gw, x)) \<and> routes sm rr (message, net, gw) = Some x \<and> x \<le> y"
proof -
  note inv = rr_invD [OF assms(3)]
  obtain ks where ks: "net \<in> U" "((net_range net, message, y), ks) \<in> set (rr_by_dst rr)"
    using route_in_dst(1) [OF assms(1-4)] by blast
  note net = canonical_range [OF separate_netsD(1) [OF assms(2) ks(1)]]
  obtain x ks' where x: "om_first_from dst_cmp (\<lparr>range_lo = a, range_hi = a\<rparr>, message, 0) (rr_by_dst rr)
      = Some ((net_range net, message, x), ks')" "x \<le> y" "map_of (rr_by_dst rr) (net_range net, message, x) = Some ks'"
    using first_from_route [OF assms(2,3) ks(2), of a] assms(5) unfolding net(3) by blast
  let ?cands = "take MAX_CANDIDATES ks'"
  have "ks' \<noteq> []" using index_invD(4) [OF inv(3)] x(3) by metis
  then have "?cands \<noteq> []" by (simp add: MAX_CANDIDATES_def)
  then have "?cands ! (hash a mod length ?cands) \<in> set ?cands"
    by (meson length_greater_0_conv mod_less_divisor nth_mem)
  then have "?cands ! (hash a mod length ?cands) \<in> set ks'" by (rule in_set_takeD)
  from route_in_dst(2) [OF assms(1-3) map_of_SomeD [OF x(3)] this]
  obtain e where e: "sm_get sm (rr_entries rr) (?cands ! (hash a mod length ?cands)) = Some e" "re_metric e = x"
      "re_dst_net e \<in> U" "net_range net = net_range (re_dst_net e)" "routes sm rr (message, re_dst_net e, re_gw e) = Some x"
    by blast
  have "re_dst_net e = net"
    using e(3,4) canonical_range_inj ks(1) separate_netsD(1) [OF assms(2)] by metis
  then show ?thesis using x(1,2) e(1,2,5) \<open>?cands \<noteq> []\<close> by (simp add: find_route_def)
qed

lemma probe_finds:
  fixes default_key
  assumes "separate_nets U" "rr_inv sm U rr" "net \<in> U" "((net_range net, m, x), ks) \<in> set (rr_by_dst rr)"
  defines "p \<equiv> (net_range net, default_key, 0 :: route_metric)"
  shows "(\<exists>d ks. om_last_below dst_cmp p (rr_by_dst rr) = Some ((net_range net, d), ks))
    \<or> (\<exists>d ks. om_first_from dst_cmp p (rr_by_dst rr) = Some ((net_range net, d), ks))"
proof -
  note ok = canonical_range(4) [OF separate_netsD(1) [OF assms(1,3)]]
  show ?thesis
  proof (cases "dst_cmp p (net_range net, m, x) = Greater")
    case True
    have "sorted_wrt (\<lambda>x y. dst_cmp (fst y) (fst x) = Less) (rev (rr_by_dst rr))"
      using by_dst_sorted [OF assms(1,2)] by (simp add: sorted_wrt_rev)
    from find_first_sorted [OF this, of "((net_range net, m, x), ks)" "\<lambda>e. dst_cmp p (fst e) = Greater"] assms(4) True
    obtain r' m' x' ks' where e: "om_last_below dst_cmp p (rr_by_dst rr) = Some ((r', m', x'), ks')" "((r', m', x'), ks') \<in> set (rr_by_dst rr)"
        "dst_cmp p (r', m', x') = Greater" "((r', m', x'), ks') = ((net_range net, m, x), ks) \<or> dst_cmp (net_range net, m, x) (r', m', x') = Less"
      unfolding om_last_below_def by fastforce
    then have "range_cmp (net_range net) r' = Equal" using rng.refl_law [OF ok] by (auto simp: dst_cmp_simp p_def split: ordering.splits)
    then have "r' = net_range net" using range_equal_same [OF assms(1)] by_dst_entry [OF assms(1,2) e(2)] assms(3) by (metis imageI)
    then show ?thesis using e(1) by blast
  next
    case False
    from find_first_sorted [OF by_dst_sorted [OF assms(1,2)] assms(4), of "\<lambda>e. dst_cmp p (fst e) \<noteq> Greater"] False
    obtain r' m' x' ks' where e: "om_first_from dst_cmp p (rr_by_dst rr) = Some ((r', m', x'), ks')" "((r', m', x'), ks') \<in> set (rr_by_dst rr)"
        "dst_cmp p (r', m', x') \<noteq> Greater" "((r', m', x'), ks') = ((net_range net, m, x), ks) \<or> dst_cmp (r', m', x') (net_range net, m, x) = Less"
      unfolding om_first_from_def by fastforce
    obtain n' where n': "n' \<in> U" "r' = net_range n'" "range_ok r'" using by_dst_entry [OF assms(1,2) e(2)] by metis
    have "range_cmp (net_range net) r' = Equal"
      using e(3,4) rng.refl_law [OF ok] range_cmp_reverse [OF ok n'(3)]
      by (auto simp: dst_cmp_simp p_def split: ordering.splits)
    then have "r' = net_range net" using range_equal_same [OF assms(1)] n' assms(3) by (metis imageI)
    then show ?thesis using e(1) by blast
  qed
qed

lemma contains_net_ok:
  assumes "slot_laws sm" "separate_nets U" "rr_inv sm U rr" "net \<in> U"
  shows "contains_net default_key net rr = Some (\<exists>message gw x. routes sm rr (message, net, gw) = Some x)"
proof -
  note net = canonical_range [OF separate_netsD(1) [OF assms(2,4)]]
  let ?r = "net_range net" and ?D = "rr_by_dst rr" and ?p = "(net_range net, default_key, 0 :: route_metric)"
  have at: "range_is_net net e = Some (\<exists>d ks. e = Some ((?r, d), ks))" if e: "\<And>x. e = Some x \<Longrightarrow> x \<in> set ?D" for e
  proof (cases e)
    case (Some x)
    obtain r m y ks where x: "x = ((r, m, y), ks)" by (metis prod.collapse)
    obtain n where n: "n \<in> U" "r = net_range n" using by_dst_entry [OF assms(2,3)] e [OF Some] x by metis
    then have "net_canonical n" "net_canonical net" using separate_netsD(1) [OF assms(2)] assms(4) by blast+
    then have "net_of_range r = Some n" "n = net \<longleftrightarrow> r = ?r"
      using n(2) canonical_range(2) canonical_range_inj by metis+
    then show ?thesis using Some x by (auto simp: range_is_net_def)
  qed (simp add: range_is_net_def)
  have mem: "e \<in> set ?D" if "om_last_below dst_cmp ?p ?D = Some e \<or> om_first_from dst_cmp ?p ?D = Some e" for e
    using that unfolding om_last_below_def om_first_from_def by (metis find_SomeD set_rev)
  have contains: "contains_net default_key net rr = Some ((\<exists>d ks. om_last_below dst_cmp ?p ?D = Some ((?r, d), ks))
      \<or> (\<exists>d ks. om_first_from dst_cmp ?p ?D = Some ((?r, d), ks)))"
    using at [of "om_last_below dst_cmp ?p ?D"] at [of "om_first_from dst_cmp ?p ?D"] mem
    by (simp add: contains_net_def net(1) Let_def)
  have some: "(\<exists>d ks. ((?r, d), ks) \<in> set ?D) \<longleftrightarrow> (\<exists>message gw x. routes sm rr (message, net, gw) = Some x)"
  proof
    assume "\<exists>d ks. ((?r, d), ks) \<in> set ?D"
    then obtain m x ks where k: "((?r, m, x), ks) \<in> set ?D" by auto
    moreover have "ks \<noteq> []"
      using by_dst_entry [OF assms(2,3) k] index_invD(4) [OF rr_invD(3) [OF assms(3)]] by metis
    then obtain key where "key \<in> set ks" by (cases ks) auto
    ultimately show "\<exists>message gw x. routes sm rr (message, net, gw) = Some x"
      using route_in_dst(2) [OF assms(1-3)] canonical_range_inj separate_netsD(1) [OF assms(2)] assms(4) by metis
  qed (use route_in_dst(1) [OF assms(1-3)] in blast)
  have "(\<exists>d ks. om_last_below dst_cmp ?p ?D = Some ((?r, d), ks))
      \<or> (\<exists>d ks. om_first_from dst_cmp ?p ?D = Some ((?r, d), ks)) \<longleftrightarrow> (\<exists>d ks. ((?r, d), ks) \<in> set ?D)"
  proof
    assume "\<exists>d ks. ((?r, d), ks) \<in> set ?D"
    then obtain m x ks where "((?r, m, x), ks) \<in> set ?D" by auto
    then show "(\<exists>d ks. om_last_below dst_cmp ?p ?D = Some ((?r, d), ks))
      \<or> (\<exists>d ks. om_first_from dst_cmp ?p ?D = Some ((?r, d), ks))"
      by (rule probe_finds [OF assms(2-4)])
  qed (use mem in blast)
  then show ?thesis using contains some by simp
qed

section \<open>Sequences of updates\<close>

type_synonym 'm route_update = "'m \<times> net_address \<times> address option \<times> route_metric option"

fun set_routes :: "('t, 'k, 'm::linorder route_entry) slot_ops \<Rightarrow> 'm route_update list \<Rightarrow> ('t, 'k, 'm) route_registry
    \<Rightarrow> ('t, 'k, 'm) route_registry panics" where
  "set_routes sm [] rr = Some rr"
| "set_routes sm ((message, net, gw, metric) # us) rr = do {
     (_, rr') \<leftarrow> set_route sm message net gw metric rr;
     set_routes sm us rr'
   }"

fun updated :: "'m route_update list \<Rightarrow> ('m \<times> net_address \<times> address option \<rightharpoonup> route_metric)
    \<Rightarrow> 'm \<times> net_address \<times> address option \<rightharpoonup> route_metric" where
  "updated [] A = A"
| "updated ((message, net, gw, metric) # us) A = updated us (A((message, net, gw) := metric))"

lemma set_routes_ok:
  assumes "slot_laws sm" "separate_nets U" "rr_inv sm U rr" "fst ` snd ` set us \<subseteq> U"
  shows "\<exists>rr'. set_routes sm us rr = Some rr' \<and> rr_inv sm U rr' \<and> routes sm rr' = updated us (routes sm rr)"
  using assms(3,4)
proof (induction us arbitrary: rr)
  case (Cons u us)
  obtain m n g x where u: "u = (m, n, g, x)" by (cases u) auto
  then have "n \<in> U" using Cons.prems(2) by simp
  from set_route_ok [OF assms(1,2) Cons.prems(1) this, of m g x]
  obtain rr' where rr': "set_route sm m n g x rr = Some (Inr (routes sm rr (m, n, g)), rr')" "rr_inv sm U rr'"
    "routes sm rr' = (routes sm rr)((m, n, g) := x)" by blast
  from Cons.IH [OF rr'(2), unfolded rr'(3)] Cons.prems(2) rr'(1) u show ?case by (simp del: fun_upd_apply)
qed simp

lemma routes_default:
  assumes "slot_laws sm"
  shows "routes sm (route_registry_default sm) = Map.empty"
proof -
  have "e \<notin> set (sm_iter sm (sm_new sm))" for e
    using slot_iter(1) [OF assms, of "fst e" "snd e" "sm_new sm"] slot_new [OF assms] by simp
  then have "sm_iter sm (sm_new sm) = []" by (metis list.set_intros(1) neq_Nil_conv)
  then show ?thesis by (simp add: routes_alt route_registry_default_def)
qed

lemma reach_routes:
  assumes "slot_laws sm" "separate_nets U" "fst ` snd ` set us \<subseteq> U"
  obtains rr where "set_routes sm us (route_registry_default sm) = Some rr" "rr_inv sm U rr"
    "routes sm rr = updated us Map.empty"
  using set_routes_ok [OF assms(1,2) rr_inv_default [OF assms(1,2)] assms(3)]
  unfolding routes_default [OF assms(1)] by blast

text \<open>C13. Over networks that do not overlap, with their host bits zero, the table of routes is a map from
  message type, network and gateway to a metric. Whatever routes have been set and removed before,
  setting a route never panics and never reports a conflict, returns the metric the route had,
  changes this route only, and afterwards \<open>contains_net\<close> tells whether the network has a route.\<close>

theorem set_route_refines:
  assumes "slot_laws sm" "separate_nets U" "fst ` snd ` set us \<subseteq> U" "net \<in> U"
  shows "\<exists>rr rr'. set_routes sm us (route_registry_default sm) = Some rr
    \<and> routes sm rr = updated us Map.empty
    \<and> set_route sm message net gw metric rr = Some (Inr (updated us Map.empty (message, net, gw)), rr')
    \<and> routes sm rr' = (updated us Map.empty)((message, net, gw) := metric)
    \<and> contains_net default_key net rr' = Some (\<exists>m g x. routes sm rr' (m, net, g) = Some x)"
proof -
  obtain rr where rr: "set_routes sm us (route_registry_default sm) = Some rr" "rr_inv sm U rr"
    "routes sm rr = updated us Map.empty"
    by (rule reach_routes [OF assms(1-3)])
  from set_route_ok [OF assms(1,2) rr(2) assms(4), of message gw metric]
  obtain rr' where rr': "set_route sm message net gw metric rr = Some (Inr (routes sm rr (message, net, gw)), rr')"
    "rr_inv sm U rr'" "routes sm rr' = (routes sm rr)((message, net, gw) := metric)" by blast
  show ?thesis
    by (rule exI [of _ rr], rule exI [of _ rr']) (use rr rr'(1,3) contains_net_ok [OF assms(1,2) rr'(2) assms(4)] in simp)
qed

text \<open>The search for a route finds one whenever the table has a route of the message type to a
  network that holds the address: it leads to that network, and no route to it has a lower metric,
  whichever of the equally good ones the hash picks.\<close>

theorem find_route_lowest:
  assumes "slot_laws sm" "separate_nets U" "fst ` snd ` set us \<subseteq> U"
    "updated us Map.empty (message, net, gw) = Some y" "a \<in> net_set net"
  shows "\<exists>rr gw' x. set_routes sm us (route_registry_default sm) = Some rr
    \<and> find_route sm hash message a rr = Some (Inr (gw', x))
    \<and> updated us Map.empty (message, net, gw') = Some x
    \<and> (\<forall>g z. updated us Map.empty (message, net, g) = Some z \<longrightarrow> x \<le> z)"
proof -
  obtain rr where rr: "set_routes sm us (route_registry_default sm) = Some rr" "rr_inv sm U rr"
    "routes sm rr = updated us Map.empty"
    by (rule reach_routes [OF assms(1-3)])
  note found = find_route_ok [OF assms(1,2) rr(2) _ assms(5), of message _ _ hash, unfolded rr(3)]
  obtain gw' x where "find_route sm hash message a rr = Some (Inr (gw', x))" "updated us Map.empty (message, net, gw') = Some x"
    using found [OF assms(4)] by blast
  moreover have "x \<le> z" if "updated us Map.empty (message, net, g) = Some z" for g z
    using found [OF that] calculation(1) by auto
  ultimately show ?thesis using rr(1) by blast
qed

text \<open>C39. The search does not look whether the network of the entry it finds holds the address. In a table
  with one route, a message for any address below that network is sent through its gateway.\<close>

theorem find_route_foreign_network:
  assumes "slot_laws sm" "net_canonical net" "a < na_address net"
  shows "\<exists>rr. set_route sm message net gw (Some x) (route_registry_default sm) = Some (Inr None, rr)
    \<and> a \<notin> net_set net \<and> find_route sm hash message a rr = Some (Inr (gw, x))"
proof -
  note net = canonical_range [OF assms(2)]
  let ?e = "\<lparr>re_message = message, re_dst_net = net, re_gw = gw, re_metric = x\<rparr>"
  obtain k t where ins: "sm_insert sm (sm_new sm) ?e = (k, t)" by fastforce
  note slot = slot_insert [OF assms(1) ins]
  have lo: "range_lo (net_range net) = na_address net"
    using net(1) assms(2) by (simp add: net_canonical_def range_of_net_valid net_range_def)
  then have "a \<notin> range_set (net_range net)" using assms(3) by (simp add: range_set_def not_le)
  moreover have "range_cmp \<lparr>range_lo = a, range_hi = a\<rparr> (net_range net) = Less"
    using range_cmp_Less [OF _ net(4), of "\<lparr>range_lo = a, range_hi = a\<rparr>"] assms(3) lo by (simp add: range_ok_def)
  ultimately show ?thesis
    using slot(2) by (simp add: net set_route_def dst_conflict_def entry_key_def route_registry_default_def
        add_route_def ins add_to_dst_def hset_insert_def find_route_def om_first_from_def dst_cmp_simp MAX_CANDIDATES_def)
qed

section \<open>Examples\<close>

definition route_net :: "u64 \<Rightarrow> net_address" where
  "route_net a = \<lparr>na_address = a, na_mask = NetMask 56\<rparr>"

definition route_part :: net_address where
  "route_part = \<lparr>na_address = 0xF10, na_mask = NetMask 60\<rparr>"

lemma route_nets: "separate_nets {route_net 0xA00, route_net 0xB00}"
proof -
  have c: "net_canonical (route_net 0xA00)" "net_canonical (route_net 0xB00)" by code_simp+
  have r: "range_of_net (route_net 0xA00) = Some \<lparr>range_lo = 0xA00, range_hi = 0xAFF\<rparr>"
    "range_of_net (route_net 0xB00) = Some \<lparr>range_lo = 0xB00, range_hi = 0xBFF\<rparr>" by code_simp+
  have "net_set (route_net 0xA00) \<inter> net_set (route_net 0xB00) = {}"
    unfolding range_of_net_set [OF c(1) r(1), symmetric] range_of_net_set [OF c(2) r(2), symmetric]
    by (simp add: range_set_def)
  then show ?thesis using c by (auto simp: separate_nets_def)
qed

definition route_slots :: "(nat \<times> (nat \<times> nat route_entry) list, nat, nat route_entry) slot_ops" where
  "route_slots = counted_slots"

lemma route_slots_laws: "slot_laws route_slots"
  unfolding route_slots_def by (rule counted_slots_laws)

definition route_updates :: "nat route_update list" where
  "route_updates = [(7, route_net 0xA00, Some 1, Some 3), (7, route_net 0xA00, Some 2, Some 1), (7, route_net 0xB00, None, Some 0)]"

lemma route_updates_nets: "fst ` snd ` set route_updates \<subseteq> {route_net 0xA00, route_net 0xB00}"
  by (simp add: route_updates_def)

theorem set_route_refines_witness:
  "\<exists>rr rr'. set_routes route_slots route_updates (route_registry_default route_slots) = Some rr
    \<and> routes route_slots rr = updated route_updates Map.empty
    \<and> set_route route_slots 7 (route_net 0xA00) (Some 2) None rr
        = Some (Inr (updated route_updates Map.empty (7, route_net 0xA00, Some 2)), rr')
    \<and> routes route_slots rr' = (updated route_updates Map.empty)((7, route_net 0xA00, Some 2) := None)
    \<and> contains_net 0 (route_net 0xA00) rr' = Some (\<exists>m g x. routes route_slots rr' (m, route_net 0xA00, g) = Some x)"
  by (rule set_route_refines [OF route_slots_laws route_nets route_updates_nets]) simp

theorem find_route_lowest_witness:
  "\<exists>rr gw' x. set_routes route_slots route_updates (route_registry_default route_slots) = Some rr
    \<and> find_route route_slots unat 7 0xA42 rr = Some (Inr (gw', x))
    \<and> updated route_updates Map.empty (7, route_net 0xA00, gw') = Some x
    \<and> (\<forall>g z. updated route_updates Map.empty (7, route_net 0xA00, g) = Some z \<longrightarrow> x \<le> z)"
proof (rule find_route_lowest [OF route_slots_laws route_nets route_updates_nets])
  show "updated route_updates Map.empty (7, route_net 0xA00, Some 1) = Some 3"
    by (simp add: route_updates_def route_net_def)
  have "net_canonical (route_net 0xA00)" "range_of_net (route_net 0xA00) = Some \<lparr>range_lo = 0xA00, range_hi = 0xAFF\<rparr>"
    by code_simp+
  from range_of_net_set [OF this, symmetric] show "0xA42 \<in> net_set (route_net 0xA00)" by (simp add: range_set_def)
qed

theorem find_route_foreign_network_witness:
  "\<exists>rr. set_route route_slots 7 (route_net 0xB00) (Some 1) (Some 2) (route_registry_default route_slots) = Some (Inr None, rr)
    \<and> 0xA00 \<notin> net_set (route_net 0xB00) \<and> find_route route_slots unat 7 0xA00 rr = Some (Inr (Some 1, 2))"
  by (rule find_route_foreign_network [OF route_slots_laws]; code_simp)

lemma route_part_within: "net_set route_part \<subseteq> net_set (route_net 0xF00)"
proof -
  have nets: "net_canonical (route_net 0xF00)" "net_canonical route_part" by code_simp+
  have r: "range_of_net (route_net 0xF00) = Some \<lparr>range_lo = 0xF00, range_hi = 0xFFF\<rparr>"
    "range_of_net route_part = Some \<lparr>range_lo = 0xF10, range_hi = 0xF1F\<rparr>"
    by code_simp+
  show ?thesis
    unfolding range_of_net_set [OF nets(1) r(1), symmetric] range_of_net_set [OF nets(2) r(2), symmetric]
    by (simp add: range_set_def)
qed

text \<open>Whether a network that overlaps another one is refused depends on the metric: with the metric of
  the route to the larger network it is a conflict, with another metric both routes are in the table.\<close>

lemma set_route_overlap_by_metric:
  "map_option fst (set_routes route_slots [(0, (route_net 0xF00), Some 1, Some 1)] (route_registry_default route_slots)
      \<bind> set_route route_slots 0 route_part (Some 2) (Some 1)) = Some (Inl (Conflict (route_net 0xF00)))"
  "map_option fst (set_routes route_slots [(0, (route_net 0xF00), Some 1, Some 1)] (route_registry_default route_slots)
      \<bind> set_route route_slots 0 route_part (Some 2) (Some 2)) = Some (Inr None)"
  by code_simp+

end
