(* ===== verification/Timer.thy ===== *)
theory Timer
  imports Slot_Map Ask "HOL-Library.Product_Lexorder"
begin

text \<open>
  One-shot timers, \<^verbatim>\<open>components/mm1-timer/src/v1.rs\<close>: the loop that keeps messages until their time, and
  the two requests of its clients. The slot map of the entries is a parameter; the answers of the context to
  what the loop sends are an argument, in the order it sends. An iteration is one event; the loop ends with the
  first send that fails.
\<close>

section \<open>The loop\<close>

record ('t, 'k) timer_state =
  ts_entries :: 't
  ts_ordered :: "(instant \<times> 'k) list"

record 'm timer_entry =
  te_at :: instant
  te_message :: 'm

datatype ('k, 'm) timer_event =
    TimeEv instant
  | ScheduleEv request_header instant 'm
  | CancelEv request_header 'k
  | RecvErrorEv recv_error_kind
  | UnexpectedEv

datatype ('k, 'm) timer_effect =
    ScheduledOneshot request_header 'k
  | CanceledOneshot request_header "'m option"
  | SendOneshot address 'm

datatype timer_stop = TimerRecv recv_error_kind | TimerSend send_error_kind

type_synonym ('t, 'k, 'm) timer_result = "(timer_stop + ('t, 'k) timer_state) \<times> ('k, 'm) timer_effect list"

definition timer_new :: "('t, 'k, 'm timer_entry) slot_ops \<Rightarrow> ('t, 'k) timer_state" where
  "timer_new sm = \<lparr>ts_entries = sm_new sm, ts_ordered = []\<rparr>"

text \<open>A send followed by \<open>?\<close>: an error ends the loop, after the send.\<close>

definition timer_send :: "send_error_kind option \<Rightarrow> ('k, 'm) timer_effect \<Rightarrow> ('t, 'k) timer_state \<Rightarrow> ('t, 'k, 'm) timer_result" where
  "timer_send answer eff s = (case answer of Some k \<Rightarrow> Inl (TimerSend k) | None \<Rightarrow> Inr s, [eff])"

text \<open>The messages whose time has come, from the first.\<close>

fun timer_fire :: "('t, 'k, 'm timer_entry) slot_ops \<Rightarrow> (nat \<Rightarrow> send_error_kind option) \<Rightarrow> address \<Rightarrow> instant
    \<Rightarrow> (instant \<times> 'k) list \<Rightarrow> 't \<Rightarrow> ('t, 'k, 'm) timer_result panics" where
  "timer_fire sm answer receiver_addr now [] t = Some (Inr \<lparr>ts_entries = t, ts_ordered = []\<rparr>, [])"
| "timer_fire sm answer receiver_addr now ((at_time, key) # rest) t = (
     if now < at_time then Some (Inr \<lparr>ts_entries = t, ts_ordered = (at_time, key) # rest\<rparr>, [])
     else do {
       e \<leftarrow> sm_get sm t key;
       let t' = sm_remove sm t key;
       (case answer 0 of
          Some k \<Rightarrow> Some (Inl (TimerSend k), [SendOneshot receiver_addr (te_message e)])
        | None \<Rightarrow> do {
            (res, effs) \<leftarrow> timer_fire sm (\<lambda>i. answer (Suc i)) receiver_addr now rest t';
            Some (res, SendOneshot receiver_addr (te_message e) # effs)
          })
     })"

fun timer_step :: "('t, 'k::linorder, 'm timer_entry) slot_ops \<Rightarrow> (nat \<Rightarrow> send_error_kind option) \<Rightarrow> address
    \<Rightarrow> ('t, 'k) timer_state \<Rightarrow> ('k, 'm) timer_event \<Rightarrow> ('t, 'k, 'm) timer_result panics" where
  "timer_step sm answer receiver_addr s (RecvErrorEv reason) = Some (Inl (TimerRecv reason), [])"
| "timer_step sm answer receiver_addr s UnexpectedEv = Some (Inr s, [])"
| "timer_step sm answer receiver_addr s (ScheduleEv header at_time message) = (
     let (key, t) = sm_insert sm (ts_entries s) \<lparr>te_at = at_time, te_message = message\<rparr>
     in Some (timer_send (answer 0) (ScheduledOneshot header key)
          \<lparr>ts_entries = t, ts_ordered = btree_insert (at_time, key) (ts_ordered s)\<rparr>))"
| "timer_step sm answer receiver_addr s (CancelEv header key) = Some (case sm_get sm (ts_entries s) key of
     Some e \<Rightarrow> timer_send (answer 0) (CanceledOneshot header (Some (te_message e)))
       \<lparr>ts_entries = sm_remove sm (ts_entries s) key, ts_ordered = removeAll (te_at e, key) (ts_ordered s)\<rparr>
   | None \<Rightarrow> timer_send (answer 0) (CanceledOneshot header None) s)"
| "timer_step sm answer receiver_addr s (TimeEv now) =
     timer_fire sm answer receiver_addr now (ts_ordered s) (ts_entries s)"

fun timer_run :: "('t, 'k::linorder, 'm timer_entry) slot_ops \<Rightarrow> address
    \<Rightarrow> ((nat \<Rightarrow> send_error_kind option) \<times> ('k, 'm) timer_event) list \<Rightarrow> ('t, 'k) timer_state \<Rightarrow> ('t, 'k, 'm) timer_result panics" where
  "timer_run sm receiver_addr [] s = Some (Inr s, [])"
| "timer_run sm receiver_addr ((answer, ev) # evs) s = do {
     (res, effs) \<leftarrow> timer_step sm answer receiver_addr s ev;
     (case res of
        Inl err \<Rightarrow> Some (Inl err, effs)
      | Inr s' \<Rightarrow> do {
          (res', effs') \<leftarrow> timer_run sm receiver_addr evs s';
          Some (res', effs @ effs')
        })
   }"

section \<open>Clients\<close>

text \<open>\<open>schedule_once_at\<close>, \<open>schedule_once_after\<close> and \<open>cancel\<close> are asks to the loop; \<open>asked\<close> is the outcome of the ask.\<close>

datatype timer_error = TimerFork fork_error_kind | TimerAsk ask_error_kind

definition schedule_once_at :: "(instant \<Rightarrow> 'm \<Rightarrow> ask_error_kind + 'k) \<Rightarrow> instant \<Rightarrow> 'm \<Rightarrow> timer_error + 'k" where
  "schedule_once_at asked at_time message = map_sum TimerAsk id (asked at_time message)"

definition schedule_once_after :: "(instant \<Rightarrow> 'm \<Rightarrow> ask_error_kind + 'k) \<Rightarrow> instant \<Rightarrow> nat \<Rightarrow> 'm \<Rightarrow> timer_error + 'k" where
  "schedule_once_after asked now after message = schedule_once_at asked (now + after) message"

definition timer_cancel :: "('k \<Rightarrow> ask_error_kind + 'm option) \<Rightarrow> 'k \<Rightarrow> timer_error + 'm option" where
  "timer_cancel asked key = map_sum TimerAsk id (asked key)"

section \<open>What is pending\<close>

definition pending :: "('t, 'k, 'm timer_entry) slot_ops \<Rightarrow> ('t, 'k) timer_state \<Rightarrow> 'k \<rightharpoonup> 'm timer_entry" where
  "pending sm s = sm_get sm (ts_entries s)"

definition due :: "('k::linorder \<rightharpoonup> 'm timer_entry) \<Rightarrow> instant \<Rightarrow> (instant \<times> 'k) list" where
  "due p now = sorted_list_of_set {(at_time, k). at_time \<le> now \<and> (\<exists>e. p k = Some e \<and> te_at e = at_time)}"

definition timer_inv :: "('t, 'k::linorder, 'm timer_entry) slot_ops \<Rightarrow> ('t, 'k) timer_state \<Rightarrow> bool" where
  "timer_inv sm s \<longleftrightarrow> sorted (ts_ordered s) \<and> distinct (ts_ordered s)
     \<and> set (ts_ordered s) = {(at_time, k). \<exists>e. pending sm s k = Some e \<and> te_at e = at_time}"

lemma timer_inv_iff:
  "timer_inv sm s \<longleftrightarrow> sorted (ts_ordered s) \<and> distinct (ts_ordered s)
     \<and> (\<forall>at_time k. (at_time, k) \<in> set (ts_ordered s) \<longleftrightarrow> (\<exists>e. sm_get sm (ts_entries s) k = Some e \<and> te_at e = at_time))"
  unfolding timer_inv_def pending_def by auto

lemma timer_inv_parts [simp]: "timer_inv sm \<lparr>ts_entries = ts_entries s, ts_ordered = ts_ordered s\<rparr> \<longleftrightarrow> timer_inv sm s"
  by (simp add: timer_inv_iff)

lemma timer_inv_new: "slot_laws sm \<Longrightarrow> timer_inv sm (timer_new sm)"
  by (simp add: timer_inv_iff timer_new_def slot_new)

lemma timer_inv_insert:
  assumes "slot_laws sm" "timer_inv sm s" "sm_insert sm (ts_entries s) e = (k, t)"
  shows "timer_inv sm \<lparr>ts_entries = t, ts_ordered = btree_insert (te_at e, k) (ts_ordered s)\<rparr>"
  using assms(2) slot_insert [OF assms(1,3)]
  by (auto simp: timer_inv_iff btree_insert_sorted btree_insert_distinct)

lemma timer_inv_remove:
  assumes "slot_laws sm" "timer_inv sm s" "sm_get sm (ts_entries s) k = Some e"
  shows "timer_inv sm \<lparr>ts_entries = sm_remove sm (ts_entries s) k, ts_ordered = removeAll (te_at e, k) (ts_ordered s)\<rparr>"
  using assms(2,3) by (auto simp: timer_inv_iff slot_remove [OF assms(1)] sorted_removeAll distinct_removeAll)

section \<open>Firing\<close>

lemma sorted_due:
  fixes os :: "(instant \<times> 'k::linorder) list"
  assumes "sorted (x # os)" "now < fst x"
  shows "filter (\<lambda>y. fst y \<le> now) (x # os) = []" "filter (\<lambda>y. now < fst y) (x # os) = x # os"
proof -
  have "now < fst y" if "y \<in> set (x # os)" for y
    using that assms by (auto simp: less_eq_prod_def)
  then show "filter (\<lambda>y. fst y \<le> now) (x # os) = []" "filter (\<lambda>y. now < fst y) (x # os) = x # os"
    unfolding filter_empty_conv filter_id_conv by (simp_all add: not_le)
qed

lemma due_ordered:
  assumes "timer_inv sm s"
  shows "due (pending sm s) now = filter (\<lambda>y. fst y \<le> now) (ts_ordered s)"
proof -
  have "{(at_time, k). at_time \<le> now \<and> (\<exists>e. pending sm s k = Some e \<and> te_at e = at_time)}
      = set (filter (\<lambda>y. fst y \<le> now) (ts_ordered s))"
    using assms by (auto simp: timer_inv_def)
  moreover have "sorted (filter (\<lambda>y. fst y \<le> now) (ts_ordered s))" "distinct (filter (\<lambda>y. fst y \<le> now) (ts_ordered s))"
    using assms by (simp_all add: timer_inv_def sorted_wrt_filter)
  ultimately show ?thesis unfolding due_def
    by (metis sorted_list_of_set.idem_if_sorted_distinct)
qed

definition fired :: "('t, 'k::linorder, 'm timer_entry) slot_ops \<Rightarrow> address \<Rightarrow> instant \<Rightarrow> 't \<Rightarrow> (instant \<times> 'k) list
    \<Rightarrow> ('t, 'k) timer_state \<Rightarrow> ('k, 'm) timer_effect list \<Rightarrow> bool" where
  "fired sm receiver now t os s effs \<longleftrightarrow> timer_inv sm s \<and> ts_ordered s = filter (\<lambda>y. now < fst y) os
     \<and> pending sm s = sm_get sm t |` (snd ` set (ts_ordered s))
     \<and> effs = map (\<lambda>y. SendOneshot receiver (te_message (the (sm_get sm t (snd y))))) (filter (\<lambda>y. fst y \<le> now) os)"

lemma fired_none:
  assumes "timer_inv sm \<lparr>ts_entries = t, ts_ordered = os\<rparr>" "os = [] \<or> now < fst (hd os)"
  shows "fired sm receiver now t os \<lparr>ts_entries = t, ts_ordered = os\<rparr> []"
proof -
  have later: "filter (\<lambda>y. now < fst y) os = os" "filter (\<lambda>y. fst y \<le> now) os = []"
    using assms sorted_due [of "hd os" "tl os" now] by (cases os; simp add: timer_inv_def)+
  have "sm_get sm t k = None" if "k \<notin> snd ` set os" for k
    using that assms(1) unfolding timer_inv_iff by (cases "sm_get sm t k") force+
  then have "sm_get sm t = sm_get sm t |` (snd ` set os)" by (auto simp: restrict_map_def fun_eq_iff)
  then show ?thesis using assms(1) later by (simp add: fired_def pending_def)
qed

lemma timer_inv_tail:
  assumes "slot_laws sm" "timer_inv sm \<lparr>ts_entries = t, ts_ordered = (a, k) # os\<rparr>"
  obtains e where "sm_get sm t k = Some e" "te_at e = a" "k \<notin> snd ` set os"
    "timer_inv sm \<lparr>ts_entries = sm_remove sm t k, ts_ordered = os\<rparr>"
proof -
  have ordered: "(a', k') \<in> set ((a, k) # os) \<longleftrightarrow> (\<exists>e. sm_get sm t k' = Some e \<and> te_at e = a')" for a' k'
    using assms(2) by (simp add: timer_inv_iff)
  obtain e where e: "sm_get sm t k = Some e" "te_at e = a" using ordered [of a k] by auto
  have "(a', k) \<notin> set os" for a'
    using ordered [of a' k] e assms(2) by (auto simp: timer_inv_iff)
  then have k: "k \<notin> snd ` set os" by auto
  have "(a, k) \<notin> set os" using k by force
  then have "removeAll (a, k) ((a, k) # os) = os" by (simp add: removeAll_id)
  then show ?thesis using that e k timer_inv_remove [OF assms(1,2), of k e] by simp
qed

lemma timer_fire_ok:
  assumes "slot_laws sm" "timer_inv sm \<lparr>ts_entries = t, ts_ordered = os\<rparr>"
  shows "\<exists>res effs. timer_fire sm answer receiver now os t = Some (res, effs)
    \<and> (\<forall>s. res = Inr s \<longrightarrow> fired sm receiver now t os s effs) \<and> ((\<forall>i. answer i = None) \<longrightarrow> (\<exists>s. res = Inr s))"
  using assms(2)
proof (induction os arbitrary: t answer)
  case Nil
  then show ?case using fired_none by fastforce
next
  case (Cons x os)
  obtain a k where x: "x = (a, k)" by (cases x)
  show ?case
  proof (cases "now < a")
    case True
    then show ?thesis using fired_none [OF Cons.prems] x by auto
  next
    case False
    obtain e where e: "sm_get sm t k = Some e" "te_at e = a" "k \<notin> snd ` set os"
        "timer_inv sm \<lparr>ts_entries = sm_remove sm t k, ts_ordered = os\<rparr>"
      using timer_inv_tail [OF assms(1) Cons.prems [unfolded x]] by blast
    have tail: "fired sm receiver now t (x # os) s (SendOneshot receiver (te_message e) # effs)"
      if "fired sm receiver now (sm_remove sm t k) os s effs" for s effs
    proof -
      have "(sm_get sm t)(k := None) |` (snd ` set (ts_ordered s)) = sm_get sm t |` (snd ` set (ts_ordered s))"
        using that e(3) by (auto simp: fired_def restrict_map_def fun_eq_iff)
      moreover have "te_message (the (((sm_get sm t)(k := None)) (snd y))) = te_message (the (sm_get sm t (snd y)))"
        if "y \<in> set os" for y using that e(3) by auto
      ultimately show ?thesis using that False e(1) x by (simp add: fired_def slot_remove [OF assms(1)])
    qed
    show ?thesis
    proof (cases "answer 0")
      case None
      obtain res effs where res: "timer_fire sm (\<lambda>i. answer (Suc i)) receiver now os (sm_remove sm t k) = Some (res, effs)"
          "\<forall>s. res = Inr s \<longrightarrow> fired sm receiver now (sm_remove sm t k) os s effs"
          "(\<forall>i. answer (Suc i) = None) \<longrightarrow> (\<exists>s. res = Inr s)"
        using Cons.IH [OF e(4), of "\<lambda>i. answer (Suc i)"] by blast
      then show ?thesis using None False e(1) x tail by (auto simp: Let_def)
    qed (use False e(1) x in \<open>auto simp: Let_def\<close>)
  qed
qed

lemma timer_step_inv:
  assumes "slot_laws sm" "timer_inv sm s"
  shows "\<exists>res. timer_step sm answer receiver s ev = Some res"
    and "timer_step sm answer receiver s ev = Some (Inr s', effs) \<Longrightarrow> timer_inv sm s'"
proof -
  have inv: "timer_inv sm \<lparr>ts_entries = ts_entries s, ts_ordered = ts_ordered s\<rparr>" using assms(2) by simp
  show "\<exists>res. timer_step sm answer receiver s ev = Some res"
  proof (cases ev)
    case (TimeEv now)
    then show ?thesis using timer_fire_ok [OF assms(1) inv, of answer receiver now] by auto
  qed (simp_all add: split_def Let_def)
  show "timer_inv sm s'" if "timer_step sm answer receiver s ev = Some (Inr s', effs)"
  proof (cases ev)
    case (TimeEv now)
    then show ?thesis using that timer_fire_ok [OF assms(1) inv, of answer receiver now] by (auto simp: fired_def)
  next
    case (ScheduleEv h a m)
    obtain k t where ins: "sm_insert sm (ts_entries s) \<lparr>te_at = a, te_message = m\<rparr> = (k, t)" by fastforce
    then show ?thesis using that ScheduleEv timer_inv_insert [OF assms ins]
      by (auto simp: timer_send_def split: option.splits)
  next
    case (CancelEv h k)
    then show ?thesis using that timer_inv_remove [OF assms, of k] assms(2)
      by (auto simp: timer_send_def split: option.splits)
  qed (use that assms(2) in auto)
qed

lemma timer_run_inv:
  "slot_laws sm \<Longrightarrow> timer_inv sm s \<Longrightarrow> timer_run sm receiver evs s = Some (Inr s', effs) \<Longrightarrow> timer_inv sm s'"
proof (induction evs arbitrary: s effs)
  case (Cons x evs)
  obtain answer ev where x: "x = (answer, ev)" by (cases x)
  from Cons.prems(3) obtain s1 effs1 effs2 where "timer_step sm answer receiver s ev = Some (Inr s1, effs1)"
    "timer_run sm receiver evs s1 = Some (Inr s', effs2)"
    by (auto simp: x split: bind_splits sum.splits)
  then show ?case using Cons.IH Cons.prems(1,2) timer_step_inv(2) by blast
qed simp



text \<open>C16. The timer is a map from keys to messages with their times. Whatever has been scheduled, cancelled
  and fired before, no event panics; scheduling answers with a key that no pending message has; cancelling
  answers with the message that is still pending under the key and removes it; and when time has come to an
  instant, the messages due by then are sent, each once and in the order of their times, and only they leave
  the map.\<close>

theorem timer_correct:
  assumes "slot_laws sm" "timer_run sm receiver evs (timer_new sm) = Some (Inr s, effs)"
  shows "timer_step sm answer receiver s ev \<noteq> None
    \<and> (\<exists>s' k. timer_step sm (\<lambda>_. None) receiver s (ScheduleEv h a m) = Some (Inr s', [ScheduledOneshot h k])
        \<and> pending sm s k = None \<and> pending sm s' = (pending sm s)(k \<mapsto> \<lparr>te_at = a, te_message = m\<rparr>))
    \<and> (\<exists>s'. timer_step sm (\<lambda>_. None) receiver s (CancelEv h key)
          = Some (Inr s', [CanceledOneshot h (map_option te_message (pending sm s key))])
        \<and> pending sm s' = (pending sm s)(key := None))
    \<and> (\<exists>s'. timer_step sm (\<lambda>_. None) receiver s (TimeEv now)
          = Some (Inr s', map (\<lambda>(_, k). SendOneshot receiver (te_message (the (pending sm s k)))) (due (pending sm s) now))
        \<and> pending sm s' = pending sm s |` {k. \<exists>e. pending sm s k = Some e \<and> now < te_at e})"
proof (intro conjI)
  have inv: "timer_inv sm s" using timer_run_inv [OF assms(1) timer_inv_new [OF assms(1)] assms(2)] .
  show "timer_step sm answer receiver s ev \<noteq> None" using timer_step_inv(1) [OF assms(1) inv] by auto
  obtain k t where ins: "sm_insert sm (ts_entries s) \<lparr>te_at = a, te_message = m\<rparr> = (k, t)" by fastforce
  then show "\<exists>s' k. timer_step sm (\<lambda>_. None) receiver s (ScheduleEv h a m) = Some (Inr s', [ScheduledOneshot h k])
      \<and> pending sm s k = None \<and> pending sm s' = (pending sm s)(k \<mapsto> \<lparr>te_at = a, te_message = m\<rparr>)"
    using slot_insert [OF assms(1) ins] by (simp add: timer_send_def pending_def)
  show "\<exists>s'. timer_step sm (\<lambda>_. None) receiver s (CancelEv h key)
        = Some (Inr s', [CanceledOneshot h (map_option te_message (pending sm s key))])
      \<and> pending sm s' = (pending sm s)(key := None)"
    by (cases "sm_get sm (ts_entries s) key")
      (auto simp: timer_send_def pending_def slot_remove [OF assms(1)] fun_upd_idem)
  from timer_fire_ok [OF assms(1), of "ts_entries s" "ts_ordered s" "\<lambda>_. None" receiver now] inv
  obtain s' effs' where fire: "timer_fire sm (\<lambda>_. None) receiver now (ts_ordered s) (ts_entries s) = Some (Inr s', effs')"
      "fired sm receiver now (ts_entries s) (ts_ordered s) s' effs'" by auto
  have "snd ` set (filter (\<lambda>y. now < fst y) (ts_ordered s)) = {k. \<exists>e. pending sm s k = Some e \<and> now < te_at e}"
    using inv by (force simp: timer_inv_def)
  then show "\<exists>s'. timer_step sm (\<lambda>_. None) receiver s (TimeEv now)
        = Some (Inr s', map (\<lambda>(_, k). SendOneshot receiver (te_message (the (pending sm s k)))) (due (pending sm s) now))
      \<and> pending sm s' = pending sm s |` {k. \<exists>e. pending sm s k = Some e \<and> now < te_at e}"
    using fire unfolding due_ordered [OF inv] by (simp add: fired_def pending_def split_def)
qed


section \<open>Examples\<close>

definition timer_slots :: "(nat \<times> (nat \<times> nat timer_entry) list, nat, nat timer_entry) slot_ops" where
  "timer_slots = counted_slots"

definition timer_header :: request_header where
  "timer_header = \<lparr>req_id = 1, req_reply_to = 2\<rparr>"

definition timer_demo :: "((nat \<Rightarrow> send_error_kind option) \<times> (nat, nat) timer_event) list" where
  "timer_demo = map (Pair (\<lambda>_. None)) [ScheduleEv timer_header 30 103, ScheduleEv timer_header 10 101,
     ScheduleEv timer_header 20 102, CancelEv timer_header 1, UnexpectedEv]"

definition timer_demo_state :: "(nat \<times> (nat \<times> nat timer_entry) list, nat) timer_state" where
  "timer_demo_state = \<lparr>ts_entries = (3, [(2, \<lparr>te_at = 20, te_message = 102\<rparr>), (0, \<lparr>te_at = 30, te_message = 103\<rparr>)]),
     ts_ordered = [(20, 2), (30, 0)]\<rparr>"

lemma timer_slots_laws: "slot_laws timer_slots"
  unfolding timer_slots_def by (rule counted_slots_laws)

lemma timer_demo_run: "\<exists>effs. timer_run timer_slots 9 timer_demo (timer_new timer_slots) = Some (Inr timer_demo_state, effs)"
proof -
  have "map_option fst (timer_run timer_slots 9 timer_demo (timer_new timer_slots)) = Some (Inr timer_demo_state)"
    by code_simp
  then show ?thesis by (cases "timer_run timer_slots 9 timer_demo (timer_new timer_slots)") auto
qed

theorem timer_correct_witness:
  "timer_step timer_slots (\<lambda>_. Some SendNotFound) 9 timer_demo_state (TimeEv 25) \<noteq> None
    \<and> (\<exists>s' k. timer_step timer_slots (\<lambda>_. None) 9 timer_demo_state (ScheduleEv timer_header 5 104)
          = Some (Inr s', [ScheduledOneshot timer_header k])
        \<and> pending timer_slots timer_demo_state k = None
        \<and> pending timer_slots s' = (pending timer_slots timer_demo_state)(k \<mapsto> \<lparr>te_at = 5, te_message = 104\<rparr>))
    \<and> (\<exists>s'. timer_step timer_slots (\<lambda>_. None) 9 timer_demo_state (CancelEv timer_header 2)
          = Some (Inr s', [CanceledOneshot timer_header (map_option te_message (pending timer_slots timer_demo_state 2))])
        \<and> pending timer_slots s' = (pending timer_slots timer_demo_state)(2 := None))
    \<and> (\<exists>s'. timer_step timer_slots (\<lambda>_. None) 9 timer_demo_state (TimeEv 25)
          = Some (Inr s', map (\<lambda>(_, k). SendOneshot 9 (te_message (the (pending timer_slots timer_demo_state k))))
              (due (pending timer_slots timer_demo_state) 25))
        \<and> pending timer_slots s' = pending timer_slots timer_demo_state
            |` {k. \<exists>e. pending timer_slots timer_demo_state k = Some e \<and> 25 < te_at e})"
proof -
  obtain effs where "timer_run timer_slots 9 timer_demo (timer_new timer_slots) = Some (Inr timer_demo_state, effs)"
    using timer_demo_run by blast
  then show ?thesis by (rule timer_correct [OF timer_slots_laws])
qed


end
