(* ===== verification/Uniform_Sup.thy ===== *)
theory Uniform_Sup
  imports Mixed_Sup Ask Slot_Map
begin

text \<open>
  The supervisor of children of one kind, \<^verbatim>\<open>components/mm1-sup/src/uniform.rs\<close> and
  \<^verbatim>\<open>uniform/sup_actor.rs\<close>: children are started and stopped on request, each start and stop in a fork of the
  supervisor that reports back. The slot map of the children is a parameter; what the supervisor does to others
  is a list of effects; the outcome of forking, the clock and the outcome of stopping a child are arguments.
\<close>

section \<open>Kinds of children\<close>

text \<open>The trait \<open>UniformChildType\<close> as the record of its operations; \<^const>\<open>None\<close> in the first component of a result
  is the error.\<close>

record ('a, 'd, 'r) uni_child_type =
  new_data :: "'a \<Rightarrow> 'd"
  make_runnable :: "('a \<Rightarrow> 'r) \<Rightarrow> 'd \<Rightarrow> 'r option \<times> 'd"
  should_restart :: "'d \<Rightarrow> bool \<Rightarrow> instant \<Rightarrow> bool option \<times> 'd"

definition uni_temporary :: "('a, 'a option, 'r) uni_child_type" where
  "uni_temporary = \<lparr>new_data = Some,
     make_runnable = (\<lambda>produce data. (map_option produce data, None)),
     should_restart = (\<lambda>data _ _. (Some False, data))\<rparr>"

record 'a child_data =
  cd_args :: 'a
  cd_restarts :: restart_stats

definition uni_restarting :: "bool \<Rightarrow> restart_intensity \<Rightarrow> ('a, 'a child_data, 'r) uni_child_type" where
  "uni_restarting restart_on_normal_exit ri = \<lparr>
     new_data = (\<lambda>args. \<lparr>cd_args = args, cd_restarts = new_stats ri\<rparr>),
     make_runnable = (\<lambda>produce data. (Some (produce (cd_args data)), data)),
     should_restart = (\<lambda>data _ now. (
       let (accepted, restarts) = report_exit ri (cd_restarts data) now
       in (if accepted then Some restart_on_normal_exit else None, data\<lparr>cd_restarts := restarts\<rparr>)))\<rparr>"

abbreviation uni_permanent :: "restart_intensity \<Rightarrow> ('a, 'a child_data, 'r) uni_child_type" where
  "uni_permanent \<equiv> uni_restarting True"

abbreviation uni_transient :: "restart_intensity \<Rightarrow> ('a, 'a child_data, 'r) uni_child_type" where
  "uni_transient \<equiv> uni_restarting False"

section \<open>Children\<close>

datatype uni_status = UStarting | UStarted address | UStopping address

record 'd uni_entry =
  ue_status :: uni_status
  ue_data :: 'd

record ('t, 'k) uni_children =
  uc_primary :: 't
  uc_by_address :: "address \<rightharpoonup> 'k"

datatype stop_error_kind = StopNotFound | StopTimeout | StopInternalError

text \<open>A fork that starts a child, with the request it answers, if any; one that stops a child; and what the
  supervisor does itself.\<close>

datatype ('k, 'r) uni_effect =
    StartFork "request_header option" 'k 'r
  | StopFork request_header address
  | StopReply request_header "stop_error_kind + unit"
  | LinkTo address
  | ShutdownChild address

text \<open>How the supervisor ends.\<close>

datatype uni_stop =
    MakeRunnableFailed
  | ForkFailed
  | UnexpectedStatus
  | RestartRefused
  | ReapFailed
  | UnknownPeerExited address
  | UniRecvFailed

record uni_env =
  un_now :: instant
  un_fork :: "fork_error_kind option"
  un_stopped :: "address \<Rightarrow> shutdown_error_kind option"

type_synonym ('t, 'k, 'r) uni_result = "((uni_stop + ('t, 'k) uni_children) \<times> ('k, 'r) uni_effect list) panics"

section \<open>Starting and stopping in a fork\<close>

datatype ('k, 'r) child_effect =
    SpawnLinked 'r
  | StartLinked 'r duration
  | TellSetParent address address
  | NotifyStarted address 'k address
  | NotifyStartFailed address 'k

definition do_start_child :: "address \<Rightarrow> 'k \<Rightarrow> init_type \<Rightarrow> bool \<Rightarrow> 'r \<Rightarrow> start_error_kind + address
    \<Rightarrow> (start_error_kind + address) \<times> ('k, 'r) child_effect list" where
  "do_start_child sup_address key init_type announce_parent runnable result = (result,
     (case init_type of NoAck \<Rightarrow> SpawnLinked runnable | WithAck start_timeout \<Rightarrow> StartLinked runnable start_timeout)
     # (case result of
          Inl reason \<Rightarrow> [NotifyStartFailed sup_address key]
        | Inr child \<Rightarrow> (if announce_parent then [TellSetParent child sup_address] else [])
            @ [NotifyStarted sup_address key child]))"

definition do_stop_child :: "shutdown_error_kind option \<Rightarrow> stop_error_kind + unit" where
  "do_stop_child failed = (case failed of None \<Rightarrow> Inr () | Some _ \<Rightarrow> Inl StopInternalError)"

section \<open>Handlers\<close>

definition handle_start_request :: "('t, 'k, 'd uni_entry) slot_ops \<Rightarrow> ('a \<Rightarrow> 'r, ('a, 'd, 'r) uni_child_type) child_spec
    \<Rightarrow> uni_env \<Rightarrow> ('t, 'k) uni_children \<Rightarrow> request_header \<Rightarrow> 'a \<Rightarrow> ('t, 'k, 'r) uni_result" where
  "handle_start_request sm spec env c reply_to args = Some (
     let data = new_data (spec_child_type spec) args;
         (made, data) = make_runnable (spec_child_type spec) (spec_launcher spec) data
     in case made of
          None \<Rightarrow> (Inl MakeRunnableFailed, [])
        | Some runnable \<Rightarrow> (
            let (key, primary) = sm_insert sm (uc_primary c) \<lparr>ue_status = UStarting, ue_data = data\<rparr>
            in if un_fork env \<noteq> None then (Inl ForkFailed, [])
               else (Inr (c\<lparr>uc_primary := primary\<rparr>), [StartFork (Some reply_to) key runnable])))"

definition handle_child_started :: "('t, 'k, 'd uni_entry) slot_ops \<Rightarrow> ('t, 'k) uni_children \<Rightarrow> 'k \<Rightarrow> address
    \<Rightarrow> ('t, 'k, 'r) uni_result" where
  "handle_child_started sm c key a = do {
     e \<leftarrow> sm_get sm (uc_primary c) key;
     if ue_status e \<noteq> UStarting then Some (Inl UnexpectedStatus, [])
     else do {
       assert_that (uc_by_address c a = None);
       Some (Inr \<lparr>uc_primary = sm_put sm (uc_primary c) key (e\<lparr>ue_status := UStarted a\<rparr>),
           uc_by_address = (uc_by_address c)(a \<mapsto> key)\<rparr>, [LinkTo a])
     }
   }"

definition handle_child_start_failed :: "('t, 'k, 'd uni_entry) slot_ops \<Rightarrow> ('t, 'k) uni_children \<Rightarrow> 'k \<Rightarrow> ('t, 'k) uni_children" where
  "handle_child_start_failed sm c key = (
     let is_starting = (case sm_get sm (uc_primary c) key of Some e \<Rightarrow> ue_status e = UStarting | None \<Rightarrow> False)
     in if is_starting then c\<lparr>uc_primary := sm_remove sm (uc_primary c) key\<rparr> else c)"

definition handle_stop_request :: "('t, 'k, 'd uni_entry) slot_ops \<Rightarrow> uni_env \<Rightarrow> ('t, 'k) uni_children \<Rightarrow> request_header
    \<Rightarrow> address \<Rightarrow> ('t, 'k, 'r) uni_result" where
  "handle_stop_request sm env c reply_to a = (case uc_by_address c a of
     None \<Rightarrow> Some (Inr c, [StopReply reply_to (Inl StopNotFound)])
   | Some key \<Rightarrow> do {
       e \<leftarrow> sm_get sm (uc_primary c) key;
       (case ue_status e of
          UStarting \<Rightarrow> None
        | UStopping b \<Rightarrow> do {
            assert_that (b = a);
            Some (Inr c, [StopReply reply_to (Inl StopNotFound)])
          }
        | UStarted b \<Rightarrow> do {
            assert_that (b = a);
            let c' = c\<lparr>uc_primary := sm_put sm (uc_primary c) key (e\<lparr>ue_status := UStopping a\<rparr>)\<rparr>;
            Some (if un_fork env \<noteq> None then (Inl ForkFailed, []) else (Inr c', [StopFork reply_to a]))
          })
     })"

text \<open>The loop over the drained slots: the started children are stopped one by one, the first error is kept.\<close>

fun reap_loop :: "uni_env \<Rightarrow> ('k \<times> 'd uni_entry) list \<Rightarrow> (address \<rightharpoonup> 'k)
    \<Rightarrow> (bool \<times> (address \<rightharpoonup> 'k) \<times> ('k, 'r) uni_effect list) panics" where
  "reap_loop env [] by_address = Some (True, by_address, [])"
| "reap_loop env ((key, e) # es) by_address = (case ue_status e of
     UStarted a \<Rightarrow> do {
       assert_that (by_address a = Some key);
       (ok, by_address', effs) \<leftarrow> reap_loop env es (by_address(a := None));
       Some (do_stop_child (un_stopped env a) = Inr () \<and> ok, by_address', ShutdownChild a # effs)
     }
   | _ \<Rightarrow> reap_loop env es by_address)"

definition reap_started_children :: "('t, 'k, 'd uni_entry) slot_ops \<Rightarrow> uni_env \<Rightarrow> ('t, 'k) uni_children
    \<Rightarrow> (bool \<times> ('t, 'k) uni_children \<times> ('k, 'r) uni_effect list) panics" where
  "reap_started_children sm env c = do {
     let drained = sm_iter sm (uc_primary c);
     (ok, by_address, effs) \<leftarrow> reap_loop env drained (uc_by_address c);
     Some (ok, \<lparr>uc_primary = fold (\<lambda>(k, _) t. sm_remove sm t k) drained (uc_primary c), uc_by_address = by_address\<rparr>, effs)
   }"

definition handle_sys_exited :: "('t, 'k, 'd uni_entry) slot_ops \<Rightarrow> ('a \<Rightarrow> 'r, ('a, 'd, 'r) uni_child_type) child_spec
    \<Rightarrow> uni_env \<Rightarrow> ('t, 'k) uni_children \<Rightarrow> address \<Rightarrow> bool \<Rightarrow> ('t, 'k, 'r) uni_result" where
  "handle_sys_exited sm spec env c peer normal_exit = (case uc_by_address c peer of
     None \<Rightarrow> do {
       (ok, _, effs) \<leftarrow> reap_started_children sm env c;
       Some (Inl (if ok then UnknownPeerExited peer else ReapFailed), effs)
     }
   | Some key \<Rightarrow> do {
       let c' = c\<lparr>uc_by_address := (uc_by_address c)(peer := None)\<rparr>;
       e \<leftarrow> sm_get sm (uc_primary c') key;
       (case ue_status e of
          UStarting \<Rightarrow> None
        | UStopping a \<Rightarrow> do {
            assert_that (a = peer);
            Some (Inr (c'\<lparr>uc_primary := sm_remove sm (uc_primary c') key\<rparr>), [])
          }
        | UStarted a \<Rightarrow> (case should_restart (spec_child_type spec) (ue_data e) normal_exit (un_now env) of
            (None, _) \<Rightarrow> do {
              assert_that (a = peer);
              (_, _, effs) \<leftarrow> reap_started_children sm env (c'\<lparr>uc_primary := sm_remove sm (uc_primary c') key\<rparr>);
              Some (Inl RestartRefused, effs)
            }
          | (Some True, data) \<Rightarrow> do {
              assert_that (a = peer);
              (case make_runnable (spec_child_type spec) (spec_launcher spec) data of
                 (None, _) \<Rightarrow> Some (Inl MakeRunnableFailed, [])
               | (Some runnable, data) \<Rightarrow> Some (
                   if un_fork env \<noteq> None then (Inl ForkFailed, [])
                   else (Inr (c'\<lparr>uc_primary := sm_put sm (uc_primary c') key \<lparr>ue_status = UStarting, ue_data = data\<rparr>\<rparr>),
                     [StartFork None key runnable])))
            }
          | (Some False, _) \<Rightarrow> Some (Inr (c'\<lparr>uc_primary := sm_remove sm (uc_primary c') key\<rparr>), [])))
     })"

datatype ('k, 'a) uni_msg =
    StartRequest request_header 'a
  | StopRequest request_header address
  | ChildStarted 'k address
  | ChildStartFailed 'k
  | PeerExited address bool
  | UniUnexpected

fun uni_handle :: "('t, 'k, 'd uni_entry) slot_ops \<Rightarrow> ('a \<Rightarrow> 'r, ('a, 'd, 'r) uni_child_type) child_spec
    \<Rightarrow> uni_env \<Rightarrow> ('t, 'k) uni_children \<Rightarrow> ('k, 'a) uni_msg \<Rightarrow> ('t, 'k, 'r) uni_result" where
  "uni_handle sm spec env c (StartRequest reply_to args) = handle_start_request sm spec env c reply_to args"
| "uni_handle sm spec env c (StopRequest reply_to a) = handle_stop_request sm env c reply_to a"
| "uni_handle sm spec env c (ChildStarted key a) = handle_child_started sm c key a"
| "uni_handle sm spec env c (ChildStartFailed key) = Some (Inr (handle_child_start_failed sm c key), [])"
| "uni_handle sm spec env c (PeerExited peer normal_exit) = handle_sys_exited sm spec env c peer normal_exit"
| "uni_handle sm spec env c UniUnexpected = Some (Inr c, [])"

definition uniform_sup_start :: "('t, 'k, 'd uni_entry) slot_ops \<Rightarrow> ('t, 'k) uni_children" where
  "uniform_sup_start sm = \<lparr>uc_primary = sm_new sm, uc_by_address = Map.empty\<rparr>"

end
