(* ===== verification/Uniform_Props.thy ===== *)
theory Uniform_Props
  imports Uniform_Sup
begin

text \<open>
  The uniform supervisor with the forks that start its children: every slot of a child that is being started has
  exactly one fork that will report on it, and the index by address agrees with the slots. A report names a child
  whose address no child of the table has.
\<close>

section \<open>The supervisor and its forks\<close>

record ('t, 'k) uni_world =
  uw_children :: "('t, 'k) uni_children"
  uw_starting :: "'k list"

fun start_forks :: "('k, 'r) uni_effect list \<Rightarrow> 'k list" where
  "start_forks [] = []"
| "start_forks (StartFork _ k _ # effs) = k # start_forks effs"
| "start_forks (_ # effs) = start_forks effs"




definition child_at :: "'d uni_entry \<Rightarrow> address \<Rightarrow> bool" where
  "child_at e a \<longleftrightarrow> ue_status e = UStarted a \<or> ue_status e = UStopping a"

definition table_inv :: "('k \<rightharpoonup> 'd uni_entry) \<Rightarrow> (address \<rightharpoonup> 'k) \<Rightarrow> bool" where
  "table_inv P B \<longleftrightarrow> (\<forall>a k. B a = Some k \<longleftrightarrow> (\<exists>e. P k = Some e \<and> child_at e a))"

definition starting_inv :: "('k \<rightharpoonup> 'd uni_entry) \<Rightarrow> 'k list \<Rightarrow> bool" where
  "starting_inv P ks \<longleftrightarrow> distinct ks \<and> (\<forall>k. k \<in> set ks \<longleftrightarrow> (\<exists>e. P k = Some e \<and> ue_status e = UStarting))"

definition uni_inv :: "('t, 'k, 'd uni_entry) slot_ops \<Rightarrow> ('t, 'k) uni_world \<Rightarrow> bool" where
  "uni_inv sm w \<longleftrightarrow> table_inv (sm_get sm (uc_primary (uw_children w))) (uc_by_address (uw_children w))
     \<and> starting_inv (sm_get sm (uc_primary (uw_children w))) (uw_starting w)"

lemma uni_inv_parts [simp]: "uni_inv sm \<lparr>uw_children = uw_children w, uw_starting = uw_starting w\<rparr> \<longleftrightarrow> uni_inv sm w"
  by (simp add: uni_inv_def)

lemma children_upd [simp]:
  "(c :: ('t, 'k) uni_children)\<lparr>uc_by_address := B, uc_primary := t\<rparr> = \<lparr>uc_primary = t, uc_by_address = B\<rparr>"
  by simp


lemma child_at_simps [simp]:
  "ue_status e = UStarting \<Longrightarrow> \<not> child_at e a"
  "ue_status e = UStarted b \<Longrightarrow> child_at e a \<longleftrightarrow> a = b"
  "ue_status e = UStopping b \<Longrightarrow> child_at e a \<longleftrightarrow> a = b"
  by (auto simp: child_at_def)

section \<open>Changes of a slot\<close>









section \<open>Stopping all children\<close>

lemma start_forks_shutdown [simp]: "start_forks (map ShutdownChild xs) = []"
  by (induction xs) simp_all





section \<open>The handlers keep the invariant\<close>











section \<open>Properties\<close>



text \<open>C38. The flag of the child types \<open>Permanent\<close> and \<open>Transient\<close> is called restart-on-normal-exit, but whether the exit
  was normal is not looked at: a transient child of a uniform supervisor is never restarted, after a crash neither,
  and a permanent one is restarted after any exit that the restart intensity accepts.\<close>

theorem transient_never_restarted:
  assumes "spec_child_type spec = uni_restarting permanent ri"
    "uc_by_address c peer = Some k" "sm_get sm (uc_primary c) k = Some e" "ue_status e = UStarted peer"
    "un_fork env = None" "report_exit ri (cd_restarts (ue_data e)) (un_now env) = (True, restarts)"
  shows "handle_sys_exited sm spec env c peer normal_exit = Some (
    if permanent
    then (Inr \<lparr>uc_primary = sm_put sm (uc_primary c) k \<lparr>ue_status = UStarting, ue_data = (ue_data e)\<lparr>cd_restarts := restarts\<rparr>\<rparr>,
        uc_by_address = (uc_by_address c)(peer := None)\<rparr>, [StartFork None k (spec_launcher spec (cd_args (ue_data e)))])
    else (Inr \<lparr>uc_primary = sm_remove sm (uc_primary c) k, uc_by_address = (uc_by_address c)(peer := None)\<rparr>, []))"
  using assms by (simp add: handle_sys_exited_def uni_restarting_def Let_def)

section \<open>Examples\<close>

definition uni_slots :: "(nat \<times> (nat \<times> nat child_data uni_entry) list, nat, nat child_data uni_entry) slot_ops" where
  "uni_slots = counted_slots"


definition uni_demo_spec :: "bool \<Rightarrow> (nat \<Rightarrow> string, (nat, nat child_data, string) uni_child_type) child_spec" where
  "uni_demo_spec permanent = \<lparr>spec_launcher = (\<lambda>_. ''child''),
     spec_child_type = uni_restarting permanent \<lparr>max_restarts = 1, within = 10\<rparr>,
     spec_init_type = NoAck, spec_stop_timeout = 5, spec_announce_parent = False\<rparr>"

definition uni_demo_env :: "nat \<Rightarrow> uni_env" where
  "uni_demo_env now = \<lparr>un_now = now, un_fork = None, un_stopped = (\<lambda>_. None)\<rparr>"


text \<open>Two children are started; the reports of their forks come in the other order.\<close>

definition uni_demo_entry :: "nat \<Rightarrow> uni_status \<Rightarrow> nat child_data uni_entry" where
  "uni_demo_entry n st = \<lparr>ue_status = st, ue_data = \<lparr>cd_args = n, cd_restarts = []\<rparr>\<rparr>"

definition uni_demo_primary :: "uni_status \<Rightarrow> uni_status \<Rightarrow> nat \<times> (nat \<times> nat child_data uni_entry) list" where
  "uni_demo_primary st0 st1 = (2, [(1, uni_demo_entry 8 st1), (0, uni_demo_entry 7 st0)])"

definition uni_demo_world :: "(nat \<times> (nat \<times> nat child_data uni_entry) list, nat) uni_world" where
  "uni_demo_world = \<lparr>uw_children = \<lparr>uc_primary = uni_demo_primary (UStarted 10) (UStarted 11),
     uc_by_address = [11 \<mapsto> 1, 10 \<mapsto> 0]\<rparr>, uw_starting = []\<rparr>"




theorem transient_never_restarted_witness:
  "handle_sys_exited uni_slots (uni_demo_spec False) (uni_demo_env 30) (uw_children uni_demo_world) 10 False = Some (
    Inr \<lparr>uc_primary = sm_remove uni_slots (uc_primary (uw_children uni_demo_world)) 0,
      uc_by_address = (uc_by_address (uw_children uni_demo_world))(10 := None)\<rparr>, [])"
  using transient_never_restarted [of "uni_demo_spec False" False "\<lparr>max_restarts = 1, within = 10\<rparr>"
      "uw_children uni_demo_world" 10 0 uni_slots "uni_demo_entry 7 (UStarted 10)" "uni_demo_env 30" "[30]" False]
  by (simp add: uni_demo_spec_def uni_demo_world_def uni_demo_primary_def uni_demo_entry_def uni_slots_def counted_slots_def
      uni_demo_env_def report_exit_def instant_checked_sub_def)

end
