(* ===== verification/Name_Service.thy ===== *)
theory Name_Service
  imports Ask "HOL-Library.AList"
begin

text \<open>
  The name service: its server, \<^verbatim>\<open>components/mm1-name-service/src/server.rs\<close>, and its clients,
  \<^verbatim>\<open>api.rs\<close>. The clock is an argument of every request; \<open>clock_end\<close> is the last instant the clock can
  represent. The registrations of a shared name are the list of the entries of a hash map, in the order in which
  it yields them.
\<close>

section \<open>The server\<close>

datatype name =
    Exclusive address instant
  | Shared "(address \<times> instant) list"

type_synonym 'k names = "'k \<rightharpoonup> name"

datatype register_error_kind = RegisterConflict | RegisterInternal
datatype unregister_error_kind = UnregisterNotFound | UnregisterInternal
datatype resolve_error_kind = ResolveInternal

definition ns_resolve :: "'k names \<Rightarrow> 'k \<Rightarrow> (address \<times> instant) list" where
  "ns_resolve names key = (case names key of
     None \<Rightarrow> []
   | Some (Exclusive a valid_thru) \<Rightarrow> [(a, valid_thru)]
   | Some (Shared entries) \<Rightarrow> entries)"

definition sweep_name :: "instant \<Rightarrow> name \<Rightarrow> name option" where
  "sweep_name now n = (case n of
     Exclusive a valid_thru \<Rightarrow> if now < valid_thru then Some n else None
   | Shared registrations \<Rightarrow> (
       let registrations = filter (\<lambda>r. now < snd r) registrations
       in if registrations \<noteq> [] then Some (Shared registrations) else None))"

definition sweep_expired :: "instant \<Rightarrow> 'k names \<Rightarrow> 'k names" where
  "sweep_expired now names = (\<lambda>key. Option.bind (names key) (sweep_name now))"

definition ns_register :: "instant \<Rightarrow> 'k \<Rightarrow> address \<Rightarrow> bool \<Rightarrow> instant \<Rightarrow> 'k names
    \<Rightarrow> (register_error_kind + unit) \<times> 'k names" where
  "ns_register now key a exclusive valid_thru names = (
     let names = sweep_expired now names
     in case (exclusive, names key) of
          (True, None) \<Rightarrow> (Inr (), names(key \<mapsto> Exclusive a valid_thru))
        | (False, None) \<Rightarrow> (Inr (), names(key \<mapsto> Shared [(a, valid_thru)]))
        | (True, Some (Exclusive existing _)) \<Rightarrow>
            if existing = a then (Inr (), names(key \<mapsto> Exclusive a valid_thru)) else (Inl RegisterConflict, names)
        | (True, Some (Shared _)) \<Rightarrow> (Inl RegisterConflict, names)
        | (False, Some (Exclusive _ _)) \<Rightarrow> (Inl RegisterConflict, names)
        | (False, Some (Shared registrations)) \<Rightarrow>
            (Inr (), names(key \<mapsto> Shared (AList.update a valid_thru registrations))))"

definition ns_unregister :: "'k \<Rightarrow> address \<Rightarrow> 'k names \<Rightarrow> (unregister_error_kind + unit) \<times> 'k names" where
  "ns_unregister key a names = (case names key of
     None \<Rightarrow> (Inl UnregisterNotFound, names)
   | Some (Exclusive existing _) \<Rightarrow>
       if existing = a then (Inr (), names(key := None)) else (Inl UnregisterNotFound, names)
   | Some (Shared registrations) \<Rightarrow> (
       let registrations = AList.delete a registrations
       in (Inr (), names(key := (if registrations = [] then None else Some (Shared registrations))))))"

datatype 'k ns_request =
    RegisterReq 'k address bool duration
  | UnregisterReq 'k address
  | ResolveReq 'k

datatype ns_response =
    RegisterResp "register_error_kind + unit"
  | UnregisterResp "unregister_error_kind + unit"
  | ResolveResp "(address \<times> duration) list"

fun evict :: "'k \<Rightarrow> (address \<times> duration) list \<Rightarrow> 'k names \<Rightarrow> 'k names" where
  "evict key [] names = names"
| "evict key ((a, _) # to_evict) names = evict key to_evict (snd (ns_unregister key a names))"

text \<open>\<open>checked_add\<close> of the time to live; when it overflows the registration is expired at once.\<close>

definition valid_thru_of :: "instant \<Rightarrow> instant \<Rightarrow> duration \<Rightarrow> instant" where
  "valid_thru_of clock_end now ttl = (if now + ttl \<le> clock_end then now + ttl else now)"

fun ns_handle :: "instant \<Rightarrow> instant \<Rightarrow> 'k ns_request \<Rightarrow> 'k names \<Rightarrow> ns_response \<times> 'k names" where
  "ns_handle clock_end now (RegisterReq key a exclusive ttl) names =
     map_prod RegisterResp id (ns_register now key a exclusive (valid_thru_of clock_end now ttl) names)"
| "ns_handle clock_end now (UnregisterReq key a) names = map_prod UnregisterResp id (ns_unregister key a names)"
| "ns_handle clock_end now (ResolveReq key) names = (
     let items = map (\<lambda>(a, i). (a, i - now)) (ns_resolve names key);
         (to_evict, to_return) = partition (\<lambda>(_, d). d = 0) items
     in (ResolveResp to_return, evict key to_evict names))"

fun ns_run :: "instant \<Rightarrow> (instant \<times> 'k ns_request) list \<Rightarrow> 'k names \<Rightarrow> ns_response list \<times> 'k names" where
  "ns_run clock_end [] names = ([], names)"
| "ns_run clock_end ((now, req) # reqs) names = (
     let (resp, names') = ns_handle clock_end now req names;
         (resps, names'') = ns_run clock_end reqs names'
     in (resp # resps, names''))"

section \<open>Clients\<close>

text \<open>Durations are in milliseconds, the finest unit of the constants.\<close>

definition DEFAULT_RESOLVE_TIMEOUT :: duration where "DEFAULT_RESOLVE_TIMEOUT = 10"
definition DEFAULT_REGISTER_TIMEOUT :: duration where "DEFAULT_REGISTER_TIMEOUT = 10"
definition DEFAULT_REFRESH_INTERVAL :: duration where "DEFAULT_REFRESH_INTERVAL = 1000"
definition DEFAULT_TTL_reg :: duration where "DEFAULT_TTL_reg = 2000"

record 'k registration =
  rg_name_server :: address
  rg_key :: 'k
  rg_addr :: address
  rg_register_timeout :: duration
  rg_refresh_interval :: duration
  rg_ttl :: duration
  rg_exclusive :: bool

definition registration_new :: "address \<Rightarrow> 'k \<Rightarrow> address \<Rightarrow> 'k registration" where
  "registration_new name_server key a = \<lparr>rg_name_server = name_server, rg_key = key, rg_addr = a,
     rg_register_timeout = DEFAULT_REGISTER_TIMEOUT, rg_refresh_interval = DEFAULT_REFRESH_INTERVAL,
     rg_ttl = DEFAULT_TTL_reg, rg_exclusive = True\<rparr>"

definition with_register_timeout :: "duration \<Rightarrow> 'k registration \<Rightarrow> 'k registration" where
  "with_register_timeout d r = r\<lparr>rg_register_timeout := d\<rparr>"

definition with_refresh_interval :: "duration \<Rightarrow> 'k registration \<Rightarrow> 'k registration" where
  "with_refresh_interval d r = r\<lparr>rg_refresh_interval := d\<rparr>"

definition with_ttl_reg :: "duration \<Rightarrow> 'k registration \<Rightarrow> 'k registration" where
  "with_ttl_reg d r = r\<lparr>rg_ttl := d\<rparr>"

definition with_exclusive :: "bool \<Rightarrow> 'k registration \<Rightarrow> 'k registration" where
  "with_exclusive b r = r\<lparr>rg_exclusive := b\<rparr>"

datatype 'k reg_effect =
    AskNofork address "'k ns_request" duration
  | SleepFor duration

text \<open>A registration refreshes itself for ever. \<open>answers\<close> are the outcomes of its first asks: the result is what
  it does until they are used up and, when one of them makes it return, the error it returns with.\<close>

fun registration_run :: "'k registration \<Rightarrow> (ask_error_kind + (register_error_kind + unit)) list
    \<Rightarrow> 'k reg_effect list \<times> register_error_kind option" where
  "registration_run r [] = ([], None)"
| "registration_run r (answer # answers) = (
     let ask = AskNofork (rg_name_server r) (RegisterReq (rg_key r) (rg_addr r) (rg_exclusive r) (rg_ttl r)) (rg_register_timeout r)
     in case answer of
          Inl _ \<Rightarrow> ([ask], Some RegisterInternal)
        | Inr (Inl k) \<Rightarrow> ([ask], Some k)
        | Inr (Inr _) \<Rightarrow> map_prod (\<lambda>es. ask # SleepFor (rg_refresh_interval r) # es) id (registration_run r answers))"

record 'k resolution =
  rs_key :: 'k
  rs_requested_at :: instant
  rs_entries :: "(address \<times> duration) list"

text \<open>\<open>Resolver::resolve\<close>; the hash that orders the entries is a parameter.\<close>

definition resolver_resolve :: "(address \<times> duration \<Rightarrow> instant \<Rightarrow> u64) \<Rightarrow> 'k \<Rightarrow> instant
    \<Rightarrow> ask_error_kind + (resolve_error_kind + (address \<times> duration) list) \<Rightarrow> resolve_error_kind + 'k resolution" where
  "resolver_resolve hash key requested_at answer = (case answer of
     Inl _ \<Rightarrow> Inl ResolveInternal
   | Inr (Inl k) \<Rightarrow> Inl k
   | Inr (Inr entries) \<Rightarrow> Inr \<lparr>rs_key = key, rs_requested_at = requested_at,
       rs_entries = sort_key (\<lambda>e. hash e requested_at) entries\<rparr>)"

definition resolution_refresh :: "resolve_error_kind + 'k resolution \<Rightarrow> 'k resolution \<Rightarrow> (resolve_error_kind + unit) \<times> 'k resolution" where
  "resolution_refresh resolved r = (case resolved of Inl k \<Rightarrow> (Inl k, r) | Inr r' \<Rightarrow> (Inr (), r'))"

fun resolution_wait :: "(resolve_error_kind + 'k resolution) list \<Rightarrow> 'k resolution \<Rightarrow> (resolve_error_kind + unit) \<times> 'k resolution" where
  "resolution_wait [] r = (Inl ResolveInternal, r)"
| "resolution_wait (Inl k # rest) r = (Inl k, r)"
| "resolution_wait (Inr updated # rest) r =
     (if rs_entries updated \<noteq> [] then (Inr (), updated) else resolution_wait rest r)"

definition still_valid :: "instant \<Rightarrow> instant \<Rightarrow> 'k resolution \<Rightarrow> duration \<Rightarrow> bool" where
  "still_valid clock_end now r d \<longleftrightarrow> rs_requested_at r + d \<le> clock_end \<and> now < rs_requested_at r + d"

definition resolution_first :: "instant \<Rightarrow> instant \<Rightarrow> 'k resolution \<Rightarrow> address option" where
  "resolution_first clock_end now r = (case rs_entries r of
     [] \<Rightarrow> None
   | (a, d) # _ \<Rightarrow> if still_valid clock_end now r d then Some a else None)"

definition resolution_any :: "instant \<Rightarrow> instant \<Rightarrow> 'k resolution \<Rightarrow> address option" where
  "resolution_any clock_end now r = map_option fst (find (\<lambda>(_, d). still_valid clock_end now r d) (rs_entries r))"

section \<open>Expired registrations are never seen\<close>

definition names_ok :: "'k names \<Rightarrow> bool" where
  "names_ok names \<longleftrightarrow> (\<forall>key rs. names key = Some (Shared rs) \<longrightarrow> rs \<noteq> [] \<and> distinct (map fst rs))"

lemma names_okD: "names_ok names \<Longrightarrow> names key = Some (Shared rs) \<Longrightarrow> rs \<noteq> [] \<and> distinct (map fst rs)"
  unfolding names_ok_def by blast

lemma names_ok_upd: "names_ok names \<Longrightarrow> (\<And>rs. n = Some (Shared rs) \<Longrightarrow> rs \<noteq> [] \<and> distinct (map fst rs)) \<Longrightarrow> names_ok (names(key := n))"
  unfolding names_ok_def by auto

lemma sweep_ok: "names_ok names \<Longrightarrow> names_ok (sweep_expired now names)"
  unfolding names_ok_def sweep_expired_def sweep_name_def
  by (auto simp: Let_def distinct_map_filter split: bind_splits name.splits if_splits)

lemma sweep_sweep_name:
  "now \<le> t \<Longrightarrow> Option.bind (sweep_name now n) (sweep_name t) = sweep_name t n"
  by (auto simp: sweep_name_def Let_def filter_empty_conv split: name.splits intro: filter_cong)

lemma sweep_sweep [simp]: "now \<le> t \<Longrightarrow> sweep_expired t (sweep_expired now names) = sweep_expired t names"
  using sweep_sweep_name by (fastforce simp: sweep_expired_def fun_eq_iff Option.bind_assoc [symmetric] split: bind_splits)

lemma resolve_sweep: "ns_resolve (sweep_expired now names) key = filter (\<lambda>r. now < snd r) (ns_resolve names key)"
  by (auto simp: ns_resolve_def sweep_expired_def sweep_name_def Let_def filter_empty_conv split: option.splits name.splits if_splits)

lemma unregister_ok: "names_ok names \<Longrightarrow> names_ok (snd (ns_unregister key a names))"
  by (auto simp: ns_unregister_def Let_def distinct_delete dest: names_okD intro!: names_ok_upd split: option.splits name.splits)

lemma register_ok: "names_ok names \<Longrightarrow> names_ok (snd (ns_register now key a exclusive valid_thru names))"
  using sweep_ok [of names now]
  by (auto simp: ns_register_def Let_def distinct_update dest: names_okD intro!: names_ok_upd
      split: option.splits name.splits bool.splits)

lemma evict_ok: "names_ok names \<Longrightarrow> names_ok (evict key es names)"
  by (induction key es names rule: evict.induct) (simp_all add: unregister_ok)

lemma handle_ok: "names_ok names \<Longrightarrow> names_ok (snd (ns_handle clock_end now req names))"
  by (cases req) (simp_all add: register_ok unregister_ok evict_ok Let_def split_def)

lemma run_ok: "names_ok names \<Longrightarrow> names_ok (snd (ns_run clock_end reqs names))"
proof (induction reqs arbitrary: names)
  case (Cons x reqs)
  then show ?case using handle_ok [OF Cons.prems] by (cases x) (simp add: Let_def split_def)
qed simp

lemma unregister_resolve:
  "names_ok names \<Longrightarrow> ns_resolve (snd (ns_unregister key a names)) key'
    = (if key' = key then filter (\<lambda>r. a \<noteq> fst r) (ns_resolve names key) else ns_resolve names key')"
  by (auto simp: ns_unregister_def ns_resolve_def Let_def AList.delete_eq split_def split: option.splits name.splits)

lemma evict_resolve:
  assumes "names_ok names"
  shows "ns_resolve (evict key es names) key'
    = (if key' = key then filter (\<lambda>r. fst r \<notin> fst ` set es) (ns_resolve names key) else ns_resolve names key')"
  using assms
proof (induction key es names rule: evict.induct)
  case (2 key a d es names)
  note u = unregister_ok [OF 2(2), of key a] unregister_resolve [OF 2(2), of key a]
  show ?case using 2(1) [OF u(1)] by (simp add: u(2)) (auto intro: filter_cong)
qed simp

lemma distinct_resolve: "names_ok names \<Longrightarrow> distinct (map fst (ns_resolve names key))"
  by (auto simp: ns_resolve_def dest: names_okD split: option.splits name.splits)

lemma expired_addresses:
  "fst ` set (filter (\<lambda>(_, d). d = 0) (map (\<lambda>(a, i). (a, i - now)) rs)) = fst ` {r \<in> set rs. snd r \<le> (now :: nat)}"
  by (force simp: image_iff)

lemma resolve_request:
  assumes "names_ok names"
  shows "fst (ns_handle clock_end now (ResolveReq key) names)
      = ResolveResp (map (\<lambda>(a, v). (a, v - now)) (filter (\<lambda>r. now < snd r) (ns_resolve names key)))"
    and "ns_resolve (snd (ns_handle clock_end now (ResolveReq key) names)) key'
      = (if key' = key then filter (\<lambda>r. now < snd r) (ns_resolve names key) else ns_resolve names key')"
proof -
  let ?items = "map (\<lambda>(a, i). (a, i - now)) (ns_resolve names key)"
  have "filter (Not \<circ> (\<lambda>(_, d). d = 0)) ?items
      = map (\<lambda>(a, v). (a, v - now)) (filter (\<lambda>r. now < snd r) (ns_resolve names key))"
    by (auto simp: filter_map comp_def split_def intro!: arg_cong [where f = "map _"] filter_cong)
  then show "fst (ns_handle clock_end now (ResolveReq key) names)
      = ResolveResp (map (\<lambda>(a, v). (a, v - now)) (filter (\<lambda>r. now < snd r) (ns_resolve names key)))"
    by (simp add: Let_def)
  have "fst r \<in> fst ` set (filter (\<lambda>(_, d). d = 0) ?items) \<longleftrightarrow> \<not> now < snd r" if r: "r \<in> set (ns_resolve names key)" for r
  proof -
    have "fst r \<in> fst ` set (filter (\<lambda>(_, d). d = 0) ?items) \<longleftrightarrow> (\<exists>r'\<in>set (ns_resolve names key). fst r' = fst r \<and> snd r' \<le> now)"
      unfolding expired_addresses image_iff by (metis (mono_tags, lifting) mem_Collect_eq)
    also have "\<dots> \<longleftrightarrow> snd r \<le> now"
      using r distinct_resolve [OF assms, of key] by (metis distinct_map inj_onD)
    finally show ?thesis unfolding not_less .
  qed
  then have "filter (\<lambda>r. fst r \<notin> fst ` set (filter (\<lambda>(_, d). d = 0) ?items)) (ns_resolve names key)
      = filter (\<lambda>r. now < snd r) (ns_resolve names key)" by (intro filter_cong) auto
  then show "ns_resolve (snd (ns_handle clock_end now (ResolveReq key) names)) key'
      = (if key' = key then filter (\<lambda>r. now < snd r) (ns_resolve names key) else ns_resolve names key')"
    using evict_resolve [OF assms, of key "filter (\<lambda>(_, d). d = 0) ?items" key'] by (simp add: Let_def)
qed

section \<open>Properties\<close>

lemma ns_resolve_simps [simp]:
  "ns_resolve (names(key \<mapsto> Exclusive a v)) key = [(a, v)]"
  "ns_resolve (names(key \<mapsto> Shared rs)) key = rs"
  "key' \<noteq> key \<Longrightarrow> ns_resolve (names(key := n)) key' = ns_resolve names key'"
  by (simp_all add: ns_resolve_def)

lemma register_accepted:
  assumes "ns_register now key a exclusive v names = (Inr (), names')"
  obtains "names' = (sweep_expired now names)(key \<mapsto> Exclusive a v)" "fst ` set (ns_resolve (sweep_expired now names) key) \<subseteq> {a}"
  | rs where "names' = (sweep_expired now names)(key \<mapsto> Shared (AList.update a v rs))"
      "ns_resolve (sweep_expired now names) key = rs"
  using assms
  by (auto simp: ns_register_def Let_def ns_resolve_def split: bool.splits option.splits name.splits if_splits)

lemma live_resolve:
  "now \<le> t \<Longrightarrow> filter (\<lambda>r. t < snd r) (ns_resolve (sweep_expired now names) key) = filter (\<lambda>r. t < snd r) (ns_resolve names key)"
  unfolding resolve_sweep by (auto intro: filter_cong)

lemma alist_update_set:
  "distinct (map fst rs) \<Longrightarrow> set (AList.update a v rs) = insert (a, v) {r \<in> set rs. fst r \<noteq> a}"
  by (induction rs) force+

lemma register_resolve:
  assumes "names_ok names" "ns_register now key a exclusive v names = (Inr (), names')"
  shows "set (ns_resolve names' key) = insert (a, v) {r \<in> set (ns_resolve names key). now < snd r \<and> fst r \<noteq> a}"
    and "key' \<noteq> key \<Longrightarrow> ns_resolve names' key' = ns_resolve (sweep_expired now names) key'"
proof -
  let ?L = "sweep_expired now names"
  have live: "set (ns_resolve ?L key) = {r \<in> set (ns_resolve names key). now < snd r}" by (auto simp: resolve_sweep)
  have "set (ns_resolve names' key) = insert (a, v) {r \<in> set (ns_resolve ?L key). fst r \<noteq> a}"
    using distinct_resolve [OF sweep_ok [OF assms(1), of now], of key]
    by (cases rule: register_accepted [OF assms(2)]) (auto simp: alist_update_set)
  then show "set (ns_resolve names' key) = insert (a, v) {r \<in> set (ns_resolve names key). now < snd r \<and> fst r \<noteq> a}"
    unfolding live by blast
  show "ns_resolve names' key' = ns_resolve ?L key'" if "key' \<noteq> key"
    using that by (cases rule: register_accepted [OF assms(2)]) simp_all
qed

text \<open>What a name resolves to. In every state the server can reach, a registration that is accepted replaces the
  registration of its address and leaves the other live ones of the name; resolving the name at a later instant
  answers with exactly these registrations, with the time each has left, and without those that have expired by
  then. Names other than the registered one resolve as before.\<close>

theorem register_then_resolve:
  assumes "ns_run clock_end reqs Map.empty = (resps, names)"
    "ns_register now key a exclusive v names = (Inr (), names')" "now \<le> t"
  shows "\<exists>items. fst (ns_handle clock_end t (ResolveReq key) names') = ResolveResp items
      \<and> set items = {(b, w - t) | b w. t < w \<and> ((b, w) = (a, v) \<or> b \<noteq> a \<and> (b, w) \<in> set (ns_resolve names key))}
    \<and> (\<forall>key'. key' \<noteq> key \<longrightarrow> fst (ns_handle clock_end t (ResolveReq key') names')
          = fst (ns_handle clock_end t (ResolveReq key') names))"
proof -
  have ok: "names_ok names" using run_ok [of Map.empty clock_end reqs] assms(1) by (simp add: names_ok_def)
  have ok': "names_ok names'" using register_ok [OF ok, of now key a exclusive v] unfolding assms(2) snd_conv .
  let ?live = "filter (\<lambda>r. t < snd r) (ns_resolve names' key)"
  have live: "set ?live = {(b, w). t < w \<and> ((b, w) = (a, v) \<or> b \<noteq> a \<and> (b, w) \<in> set (ns_resolve names key))}"
    unfolding set_filter register_resolve(1) [OF ok assms(2)] using assms(3) by auto
  have "set (map (\<lambda>(a, w). (a, w - t)) ?live)
      = {(b, w - t) | b w. t < w \<and> ((b, w) = (a, v) \<or> b \<noteq> a \<and> (b, w) \<in> set (ns_resolve names key))}"
    unfolding set_map live by auto
  moreover have "filter (\<lambda>r. t < snd r) (ns_resolve names' key') = filter (\<lambda>r. t < snd r) (ns_resolve names key')"
    if "key' \<noteq> key" for key'
    using register_resolve(2) [OF ok assms(2) that] live_resolve [OF assms(3)] by metis
  ultimately show ?thesis by (simp add: resolve_request(1) [OF ok'] resolve_request(1) [OF ok] del: ns_handle.simps)
qed

lemma exclusive_kept:
  assumes "names key = Some (Exclusive a v)" "t < v" "req \<noteq> UnregisterReq key a" "\<forall>ttl. req \<noteq> RegisterReq key a True ttl"
  shows "snd (ns_handle clock_end t req names) key = Some (Exclusive a v)"
    and "req = RegisterReq key b e ttl \<Longrightarrow> fst (ns_handle clock_end t req names) = RegisterResp (Inl RegisterConflict)"
    and "req = ResolveReq key \<Longrightarrow> fst (ns_handle clock_end t req names) = ResolveResp [(a, v - t)]"
proof -
  have swept: "sweep_expired t names key = Some (Exclusive a v)"
    using assms(1,2) by (simp add: sweep_expired_def sweep_name_def)
  have evict: "evict key' es ns key = Some (Exclusive a v)"
    if "key' \<noteq> key \<or> es = []" "ns key = Some (Exclusive a v)" for key' es and ns :: "'a names"
    using that by (induction key' es ns rule: evict.induct)
      (auto simp: ns_unregister_def Let_def split: option.splits name.splits)
  show "snd (ns_handle clock_end t req names) key = Some (Exclusive a v)"
    using assms swept by (cases req)
      (auto simp: ns_register_def ns_unregister_def Let_def ns_resolve_def intro!: evict
        split: bool.splits option.splits name.splits if_splits)
  show "fst (ns_handle clock_end t req names) = RegisterResp (Inl RegisterConflict)" if "req = RegisterReq key b e ttl"
    using that assms(4) swept by (cases e) (auto simp: ns_register_def Let_def)
  show "fst (ns_handle clock_end t req names) = ResolveResp [(a, v - t)]" if "req = ResolveReq key"
  proof -
    have "ns_resolve names key = [(a, v)]" using assms(1) by (simp add: ns_resolve_def)
    then show ?thesis using that assms(2) by simp
  qed
qed

lemma exclusive_run:
  assumes "names key = Some (Exclusive a v)" "i < length reqs"
    "\<forall>(t, req)\<in>set reqs. t < v \<and> req \<noteq> UnregisterReq key a \<and> (\<forall>ttl. req \<noteq> RegisterReq key a True ttl)"
  shows "\<exists>names'. names' key = Some (Exclusive a v) \<and>
    fst (ns_run clock_end reqs names) ! i = fst (ns_handle clock_end (fst (reqs ! i)) (snd (reqs ! i)) names')"
  using assms
proof (induction reqs arbitrary: names i)
  case (Cons x reqs)
  obtain t req where x: "x = (t, req)" by fastforce
  let ?n = "snd (ns_handle clock_end t req names)"
  have run: "fst (ns_run clock_end (x # reqs) names) = fst (ns_handle clock_end t req names) # fst (ns_run clock_end reqs ?n)"
    by (simp add: x Let_def split_def)
  have kept: "?n key = Some (Exclusive a v)" using exclusive_kept(1) [where names = names and key = key, OF Cons.prems(1)] Cons.prems(3) by (simp add: x)
  show ?case
  proof (cases i)
    case 0
    then show ?thesis using Cons.prems(1) unfolding run by (auto simp: x)
  next
    case (Suc j)
    then show ?thesis using Cons.IH [of ?n j] kept Cons.prems(2,3) unfolding run by simp
  qed
qed simp

text \<open>C18. An exclusive name is not taken away. From its registration until it expires, and unless its owner
  unregisters or refreshes it, every other registration of the name, exclusive or shared, is a conflict, and every
  resolution answers with the owner and the time left, whatever requests are handled in between.\<close>

theorem exclusive_name_kept:
  assumes "ns_register now key a True v names = (Inr (), names')"
    "\<forall>(t, req)\<in>set reqs. t < v \<and> req \<noteq> UnregisterReq key a \<and> (\<forall>ttl. req \<noteq> RegisterReq key a True ttl)"
    "i < length reqs"
  shows "(\<forall>b e ttl. snd (reqs ! i) = RegisterReq key b e ttl \<longrightarrow>
        fst (ns_run clock_end reqs names') ! i = RegisterResp (Inl RegisterConflict))
    \<and> (snd (reqs ! i) = ResolveReq key \<longrightarrow>
        fst (ns_run clock_end reqs names') ! i = ResolveResp [(a, v - fst (reqs ! i))])"
proof -
  have "names' key = Some (Exclusive a v)"
    using assms(1) by (auto simp: ns_register_def Let_def split: option.splits name.splits if_splits)
  then obtain n where n: "n key = Some (Exclusive a v)"
    "fst (ns_run clock_end reqs names') ! i = fst (ns_handle clock_end (fst (reqs ! i)) (snd (reqs ! i)) n)"
    using exclusive_run [of names' key a v i reqs clock_end] assms(2,3) by blast
  have "(fst (reqs ! i), snd (reqs ! i)) \<in> set reqs" using assms(3) by simp
  then have req: "fst (reqs ! i) < v" "snd (reqs ! i) \<noteq> UnregisterReq key a" "\<forall>ttl. snd (reqs ! i) \<noteq> RegisterReq key a True ttl"
    using assms(2) by blast+
  note kept = exclusive_kept(2,3) [where names = n and key = key, OF n(1) req]
  show ?thesis unfolding n(2) by (intro conjI allI impI; erule kept)
qed

theorem exclusive_name_kept_witness:
  "fst (ns_run 1000 [(1, RegisterReq (5 :: nat) 8 True 50), (2, ResolveReq 5)] (snd (ns_register 0 5 7 True 10 Map.empty))) ! 0
      = RegisterResp (Inl RegisterConflict)
    \<and> fst (ns_run 1000 [(1, RegisterReq (5 :: nat) 8 True 50), (2, ResolveReq 5)] (snd (ns_register 0 5 7 True 10 Map.empty))) ! 1
      = ResolveResp [(7, 8)]"
proof -
  let ?reqs = "[(1, RegisterReq (5 :: nat) 8 True 50), (2, ResolveReq 5)]"
  have r: "ns_register 0 (5 :: nat) 7 True 10 Map.empty = (Inr (), snd (ns_register 0 5 7 True 10 Map.empty))"
    by (simp add: ns_register_def sweep_expired_def)
  show ?thesis
    using exclusive_name_kept [OF r, of ?reqs 0 1000] exclusive_name_kept [OF r, of ?reqs 1 1000]
    by (auto simp del: ns_run.simps)
qed

theorem register_then_resolve_witness:
  "\<exists>items. fst (ns_handle 1000 4 (ResolveReq 2) (snd (ns_register 3 2 7 False 9
        (snd (ns_run 1000 [(0, RegisterReq (2 :: nat) 8 False 5), (1, RegisterReq 2 9 False 2)] Map.empty))))) = ResolveResp items
      \<and> set items = {(7, 5), (8, 1)}"
proof -
  let ?reqs = "[(0, RegisterReq (2 :: nat) 8 False 5), (1, RegisterReq 2 9 False 2)]"
  let ?names = "snd (ns_run 1000 ?reqs Map.empty)"
  have n: "ns_run 1000 ?reqs Map.empty = (fst (ns_run 1000 ?reqs Map.empty), ?names)" by simp
  have ns: "?names 2 = Some (Shared [(8, 5), (9, 3)])"
    by (simp add: ns_register_def sweep_expired_def sweep_name_def valid_thru_of_def Let_def)
  have r: "ns_register 3 2 7 False 9 ?names = (Inr (), snd (ns_register 3 2 7 False 9 ?names))"
    using ns by (simp add: ns_register_def sweep_expired_def sweep_name_def Let_def del: ns_run.simps)
  have "set (ns_resolve ?names 2) = {(8, 5), (9, 3)}" using ns by (simp add: ns_resolve_def del: ns_run.simps)
  then have "{(b, w - 4) | b w. 4 < w \<and> ((b, w) = (7, 9) \<or> b \<noteq> 7 \<and> (b, w) \<in> set (ns_resolve ?names 2))} = {(7, 5), (8, 1)}"
    by auto
  then show ?thesis using register_then_resolve [OF n r, of 4] by (simp del: ns_run.simps ns_handle.simps) blast
qed

text \<open>C19. A resolution never outlives the registration it was made from. When the client asked no later than the
  server answered, the addresses \<open>first\<close> and \<open>any\<close> give at an instant \<open>now\<close> are registered for the name at the
  server, with registrations valid beyond \<open>now\<close>, however the entries were ordered and whenever they are looked at.\<close>

theorem resolution_never_outlives_registration:
  assumes "ns_run clock_end reqs Map.empty = (resps, names)" "requested_at \<le> served_at"
    "fst (ns_handle clock_end served_at (ResolveReq key) names) = ResolveResp items"
    "resolver_resolve hash key requested_at (Inr (Inr items)) = Inr r"
    "a \<in> {x. resolution_first clock_end now r = Some x \<or> resolution_any clock_end now r = Some x}"
  shows "\<exists>v. (a, v) \<in> set (ns_resolve names key) \<and> now < v \<and> served_at < v"
proof -
  have ok: "names_ok names" using run_ok [of Map.empty clock_end reqs] assms(1) by (simp add: names_ok_def)
  have "\<exists>d. (a, d) \<in> set (rs_entries r) \<and> still_valid clock_end now r d"
    using assms(5) by (auto simp: resolution_first_def resolution_any_def dest!: find_SomeD split: list.splits if_splits)
  then obtain d where d: "(a, d) \<in> set items" "now < requested_at + d"
    using assms(4) by (auto simp: resolver_resolve_def still_valid_def)
  then obtain v where "(a, v) \<in> set (ns_resolve names key)" "served_at < v" "d = v - served_at"
    using assms(3) unfolding resolve_request(1) [OF ok] by auto
  then show ?thesis using d assms(2) by auto
qed

theorem resolution_never_outlives_registration_witness:
  "\<exists>v. (7, v) \<in> set (ns_resolve (snd (ns_run 1000 [(0, RegisterReq (2 :: nat) 7 True 5)] Map.empty)) 2) \<and> 4 < v \<and> 3 < v"
proof -
  let ?reqs = "[(0, RegisterReq (2 :: nat) 7 True 5)]"
  let ?names = "snd (ns_run 1000 ?reqs Map.empty)"
  let ?r = "\<lparr>rs_key = 2 :: nat, rs_requested_at = 3, rs_entries = [(7, 2)]\<rparr>"
  have n: "ns_run 1000 ?reqs Map.empty = (fst (ns_run 1000 ?reqs Map.empty), ?names)" by simp
  have h: "fst (ns_handle 1000 3 (ResolveReq 2) ?names) = ResolveResp [(7, 2)]"
    by (simp add: ns_register_def sweep_expired_def valid_thru_of_def ns_resolve_def)
  have r: "resolver_resolve (\<lambda>_ _. 0) 2 3 (Inr (Inr [(7, 2)])) = Inr ?r" by (simp add: resolver_resolve_def)
  have "resolution_first 1000 4 ?r = Some 7" by (simp add: resolution_first_def still_valid_def)
  then show ?thesis using resolution_never_outlives_registration [OF n _ h r, of 7 4] by simp
qed

end
