(* ===== verification/Bi_Map.thy ===== *)
theory Bi_Map
  imports Main
begin

text \<open>
  The bijective maps of the crate \<open>bimap\<close>. The crate is a parameter: the record of the operations the
  components call, with what its documentation promises in \<open>bimap_laws\<close>. An insertion drops the pairs that
  share a side with the new one and tells which there were.
\<close>

datatype overwritten =
    Neither
  | LeftExisted
  | RightExisted
  | PairExisted
  | BothExisted

record ('b, 'l, 'r) bimap_ops =
  bm_new :: 'b
  bm_insert :: "'b \<Rightarrow> 'l \<Rightarrow> 'r \<Rightarrow> overwritten \<times> 'b"
  bm_remove_by_left :: "'b \<Rightarrow> 'l \<Rightarrow> 'b"
  bm_iter :: "'b \<Rightarrow> ('l \<times> 'r) list"

abbreviation bm_pairs :: "('b, 'l, 'r) bimap_ops \<Rightarrow> 'b \<Rightarrow> ('l \<times> 'r) set" where
  "bm_pairs bm t \<equiv> set (bm_iter bm t)"

definition bm_contains_left :: "('b, 'l, 'r) bimap_ops \<Rightarrow> 'b \<Rightarrow> 'l \<Rightarrow> bool" where
  "bm_contains_left bm t l \<longleftrightarrow> l \<in> set (map fst (bm_iter bm t))"

definition bm_contains_right :: "('b, 'l, 'r) bimap_ops \<Rightarrow> 'b \<Rightarrow> 'r \<Rightarrow> bool" where
  "bm_contains_right bm t r \<longleftrightarrow> r \<in> set (map snd (bm_iter bm t))"

text \<open>What the insertion of a pair into a set of pairs reports.\<close>

definition overwrites :: "('l \<times> 'r) set \<Rightarrow> 'l \<Rightarrow> 'r \<Rightarrow> overwritten" where
  "overwrites A l r = (
     if (l, r) \<in> A then PairExisted
     else if l \<in> fst ` A \<and> r \<in> snd ` A then BothExisted
     else if l \<in> fst ` A then LeftExisted
     else if r \<in> snd ` A then RightExisted
     else Neither)"

definition bimap_laws :: "('b, 'l, 'r) bimap_ops \<Rightarrow> bool" where
  "bimap_laws bm \<longleftrightarrow>
     bm_iter bm (bm_new bm) = []
   \<and> (\<forall>t. distinct (map fst (bm_iter bm t)) \<and> distinct (map snd (bm_iter bm t)))
   \<and> (\<forall>t l r. fst (bm_insert bm t l r) = overwrites (bm_pairs bm t) l r
        \<and> bm_pairs bm (snd (bm_insert bm t l r)) = insert (l, r) {p \<in> bm_pairs bm t. fst p \<noteq> l \<and> snd p \<noteq> r})
   \<and> (\<forall>t l. bm_pairs bm (bm_remove_by_left bm t l) = {p \<in> bm_pairs bm t. fst p \<noteq> l})"

lemma bimap_new: "bimap_laws bm \<Longrightarrow> bm_iter bm (bm_new bm) = []"
  by (simp add: bimap_laws_def)

lemma bimap_distinct:
  assumes "bimap_laws bm"
  shows "distinct (map fst (bm_iter bm t))" "distinct (map snd (bm_iter bm t))"
  using assms unfolding bimap_laws_def by blast+

lemma bimap_insert:
  assumes "bimap_laws bm" "bm_insert bm t l r = (w, t')"
  shows "w = overwrites (bm_pairs bm t) l r" "bm_pairs bm t' = insert (l, r) {p \<in> bm_pairs bm t. fst p \<noteq> l \<and> snd p \<noteq> r}"
  using assms unfolding bimap_laws_def by (metis fst_conv snd_conv)+

lemma bimap_remove: "bimap_laws bm \<Longrightarrow> bm_pairs bm (bm_remove_by_left bm t l) = {p \<in> bm_pairs bm t. fst p \<noteq> l}"
  unfolding bimap_laws_def by blast

section \<open>An instance\<close>

text \<open>The list of the pairs, as an instance of the laws. A list that is not the list of a bijective map stands for
  the map of those of its pairs that share no side with an earlier one.\<close>

fun bijective_part :: "('l \<times> 'r) list \<Rightarrow> ('l \<times> 'r) list" where
  "bijective_part [] = []"
| "bijective_part ((l, r) # ps) = (l, r) # filter (\<lambda>p. fst p \<noteq> l \<and> snd p \<noteq> r) (bijective_part ps)"

definition listed_pairs :: "(('l \<times> 'r) list, 'l, 'r) bimap_ops" where
  "listed_pairs = \<lparr>bm_new = [],
     bm_insert = (\<lambda>t l r. (overwrites (set (bijective_part t)) l r, (l, r) # bijective_part t)),
     bm_remove_by_left = (\<lambda>t l. filter (\<lambda>p. fst p \<noteq> l) (bijective_part t)),
     bm_iter = bijective_part\<rparr>"

lemma bijective_part_distinct: "distinct (map fst (bijective_part t))" "distinct (map snd (bijective_part t))"
  by (induction t rule: bijective_part.induct) (auto simp: distinct_map_filter)

lemma bijective_part_id:
  "distinct (map fst t) \<Longrightarrow> distinct (map snd t) \<Longrightarrow> bijective_part t = t"
proof (induction t rule: bijective_part.induct)
  case (2 l r ps)
  then have "filter (\<lambda>p. fst p \<noteq> l \<and> snd p \<noteq> r) ps = ps" by (auto simp: filter_id_conv)
  then show ?case using 2 by simp
qed simp

lemma listed_pairs_laws: "bimap_laws listed_pairs"
  unfolding bimap_laws_def listed_pairs_def
  using bijective_part_distinct by (auto simp: bijective_part_id distinct_map_filter)

end
