(* ===== verification/Codec.thy ===== *)
theory Codec
  imports Slot_Map Bi_Map
begin

text \<open>
  Message types as the nodes exchange them: codecs and protocols, \<^verbatim>\<open>components/mm1-multinode/src/codec.rs\<close>, and
  the combination of protocols on one connection, \<^verbatim>\<open>actors/iostream_connection/multiple_protocols.rs\<close>. The
  name of a type (\<open>std::any::type_name\<close>) and the serialization of \<open>rmp_serde\<close> are parameters, as are the slot map of
  a protocol and the bijective maps of names and keys.
\<close>

section \<open>Codecs\<close>

datatype ('n, 't) erased_codec = Known 't 'n | Opaque 'n

record ('t, 'v) typed_message =
  tm_tid :: 't
  tm_value :: 'v

record ('t, 'v) serde_ops =
  rmp_write :: "'v \<Rightarrow> u8 list option"
  rmp_from_slice :: "'t \<Rightarrow> u8 list \<Rightarrow> 'v option"

definition known_new :: "('t \<Rightarrow> 'n) \<Rightarrow> 't \<Rightarrow> ('n, 't) erased_codec" where
  "known_new type_name t = Known t (type_name t)"

fun codec_tid :: "('n, 't) erased_codec \<Rightarrow> 't option" where
  "codec_tid (Known t _) = Some t"
| "codec_tid (Opaque _) = None"

fun codec_name :: "('n, 't) erased_codec \<Rightarrow> 'n" where
  "codec_name (Known _ n) = n"
| "codec_name (Opaque n) = n"

text \<open>\<^const>\<open>None\<close> is the error of an encoding or a decoding.\<close>

fun codec_encode :: "('t, 'v) serde_ops \<Rightarrow> ('n, 't) erased_codec \<Rightarrow> ('t, 'v) typed_message \<Rightarrow> u8 list option" where
  "codec_encode sd (Known t _) message = (if tm_tid message = t then rmp_write sd (tm_value message) else None)"
| "codec_encode sd (Opaque _) message = None"

fun codec_decode :: "('t, 'v) serde_ops \<Rightarrow> ('n, 't) erased_codec \<Rightarrow> u8 list \<Rightarrow> ('t, 'v) typed_message option" where
  "codec_decode sd (Known t _) body = map_option (\<lambda>v. \<lparr>tm_tid = t, tm_value = v\<rparr>) (rmp_from_slice sd t body)"
| "codec_decode sd (Opaque _) body = None"

section \<open>Protocols\<close>

record ('pt, 'pk, 'n, 't) protocol =
  pr_codecs :: 'pt
  pr_by_type_id :: "'t \<rightharpoonup> 'pk"
  pr_by_type_name :: "'n \<rightharpoonup> 'pk"

definition protocol_new :: "('pt, 'pk, ('n, 't) erased_codec) slot_ops \<Rightarrow> ('pt, 'pk, 'n, 't) protocol" where
  "protocol_new sm = \<lparr>pr_codecs = sm_new sm, pr_by_type_id = Map.empty, pr_by_type_name = Map.empty\<rparr>"

definition add_any_codec :: "('pt, 'pk, ('n, 't) erased_codec) slot_ops \<Rightarrow> ('n, 't) erased_codec
    \<Rightarrow> ('pt, 'pk, 'n, 't) protocol \<Rightarrow> ('pt, 'pk, 'n, 't) protocol panics" where
  "add_any_codec sm codec p = (
     if pr_by_type_name p (codec_name codec) \<noteq> None then Some p
     else do {
       assert_that (case codec_tid codec of None \<Rightarrow> True | Some t \<Rightarrow> pr_by_type_id p t = None);
       let (key, codecs) = sm_insert sm (pr_codecs p) codec;
       Some \<lparr>pr_codecs = codecs,
         pr_by_type_id = (case codec_tid codec of None \<Rightarrow> pr_by_type_id p | Some t \<Rightarrow> (pr_by_type_id p)(t \<mapsto> key)),
         pr_by_type_name = (pr_by_type_name p)(codec_name codec \<mapsto> key)\<rparr>
     })"

definition add_type :: "('pt, 'pk, ('n, 't) erased_codec) slot_ops \<Rightarrow> ('t \<Rightarrow> 'n) \<Rightarrow> 't
    \<Rightarrow> ('pt, 'pk, 'n, 't) protocol \<Rightarrow> ('pt, 'pk, 'n, 't) protocol panics" where
  "add_type sm type_name t p = add_any_codec sm (known_new type_name t) p"

definition outbound_types :: "('pt, 'pk, ('n, 't) erased_codec) slot_ops \<Rightarrow> ('pt, 'pk, 'n, 't) protocol \<Rightarrow> ('n, 't) erased_codec list" where
  "outbound_types sm p = map snd (sm_iter sm (pr_codecs p))"

definition inbound_types :: "('pt, 'pk, ('n, 't) erased_codec) slot_ops \<Rightarrow> ('pt, 'pk, 'n, 't) protocol \<Rightarrow> ('n, 't) erased_codec list" where
  "inbound_types sm p = map snd (sm_iter sm (pr_codecs p))"

fun add_codecs :: "('pt, 'pk, ('n, 't) erased_codec) slot_ops \<Rightarrow> ('n, 't) erased_codec list
    \<Rightarrow> ('pt, 'pk, 'n, 't) protocol \<Rightarrow> ('pt, 'pk, 'n, 't) protocol panics" where
  "add_codecs sm [] p = Some p"
| "add_codecs sm (c # cs) p = Option.bind (add_any_codec sm c p) (add_codecs sm cs)"

section \<open>Several protocols on one connection\<close>

record ('pt, 'pk, 'n, 't, 'k) protocol_resolved =
  rv_protocol :: "('pt, 'pk, 'n, 't) protocol"
  rv_outbound :: "('n \<times> 'k) list"
  rv_inbound :: "('n \<times> 'k) list"

text \<open>One of the two loops over names and keys; \<^const>\<open>None\<close> is the error \<open>inconsistent name-key mappings\<close>.\<close>

fun combine_keys :: "('b, 'n, 'k) bimap_ops \<Rightarrow> ('n \<times> 'k) list \<Rightarrow> 'b \<Rightarrow> 'b option" where
  "combine_keys bm [] t = Some t"
| "combine_keys bm ((name, key) # rest) t = (
     let (w, t') = bm_insert bm t name key
     in case w of
          Neither \<Rightarrow> combine_keys bm rest t'
        | BothExisted \<Rightarrow> combine_keys bm rest t'
        | _ \<Rightarrow> None)"

fun reduce_loop :: "('pt, 'pk, ('n, 't) erased_codec) slot_ops \<Rightarrow> ('b, 'n, 'k) bimap_ops
    \<Rightarrow> ('pt, 'pk, 'n, 't, 'k) protocol_resolved list \<Rightarrow> ('pt, 'pk, 'n, 't) protocol \<times> 'b \<times> 'b
    \<Rightarrow> (('pt, 'pk, 'n, 't) protocol \<times> 'b \<times> 'b) option panics" where
  "reduce_loop sm bm [] acc = Some (Some acc)"
| "reduce_loop sm bm (pr # prs) (combined, outbound, inbound) = do {
     combined \<leftarrow> add_codecs sm (outbound_types sm (rv_protocol pr)) combined;
     combined \<leftarrow> add_codecs sm (inbound_types sm (rv_protocol pr)) combined;
     (case combine_keys bm (rv_outbound pr) outbound of
        None \<Rightarrow> Some None
      | Some outbound \<Rightarrow>
          (case combine_keys bm (rv_inbound pr) inbound of
             None \<Rightarrow> Some None
           | Some inbound \<Rightarrow> reduce_loop sm bm prs (combined, outbound, inbound)))
   }"

definition reduce_protocols :: "('pt, 'pk, ('n, 't) erased_codec) slot_ops \<Rightarrow> ('b, 'n, 'k) bimap_ops
    \<Rightarrow> ('pt, 'pk, 'n, 't, 'k) protocol_resolved list \<Rightarrow> ('pt, 'pk, 'n, 't, 'k) protocol_resolved option panics" where
  "reduce_protocols sm bm protocols = map_option (map_option (\<lambda>(combined, outbound, inbound).
       \<lparr>rv_protocol = combined, rv_outbound = bm_iter bm outbound, rv_inbound = bm_iter bm inbound\<rparr>))
     (reduce_loop sm bm protocols (protocol_new sm, bm_new bm, bm_new bm))"

section \<open>What a protocol holds\<close>

definition codec_ok :: "('t \<Rightarrow> 'n) \<Rightarrow> ('n, 't) erased_codec \<Rightarrow> bool" where
  "codec_ok type_name c \<longleftrightarrow> (case c of Known t n \<Rightarrow> n = type_name t | Opaque _ \<Rightarrow> True)"

definition protocol_inv :: "('pt, 'pk, ('n, 't) erased_codec) slot_ops \<Rightarrow> ('t \<Rightarrow> 'n) \<Rightarrow> ('pt, 'pk, 'n, 't) protocol \<Rightarrow> bool" where
  "protocol_inv sm type_name p \<longleftrightarrow>
     (\<forall>n k. pr_by_type_name p n = Some k \<longleftrightarrow> (\<exists>c. sm_get sm (pr_codecs p) k = Some c \<and> codec_name c = n))
   \<and> (\<forall>t k. pr_by_type_id p t = Some k \<longrightarrow> pr_by_type_name p (type_name t) = Some k)
   \<and> (\<forall>k c. sm_get sm (pr_codecs p) k = Some c \<longrightarrow> codec_ok type_name c)"

lemma protocol_invD:
  assumes "protocol_inv sm type_name p"
  shows "pr_by_type_name p n = Some k \<longleftrightarrow> (\<exists>c. sm_get sm (pr_codecs p) k = Some c \<and> codec_name c = n)"
    and "pr_by_type_id p t = Some k \<Longrightarrow> pr_by_type_name p (type_name t) = Some k"
    and "sm_get sm (pr_codecs p) k = Some c \<Longrightarrow> codec_ok type_name c"
  using assms unfolding protocol_inv_def by blast+

definition protocol_names :: "('pt, 'pk, 'n, 't) protocol \<Rightarrow> 'n set" where
  "protocol_names p = dom (pr_by_type_name p)"

lemma protocol_inv_new: "slot_laws sm \<Longrightarrow> protocol_inv sm type_name (protocol_new sm)"
  by (simp add: protocol_inv_def protocol_new_def slot_new)

lemma protocol_names_new [simp]: "protocol_names (protocol_new sm) = {}"
  by (simp add: protocol_names_def protocol_new_def)

lemma add_any_codec_ok:
  assumes sm: "slot_laws sm" and inv: "protocol_inv sm type_name p" and ok: "codec_ok type_name c"
  shows "\<exists>p'. add_any_codec sm c p = Some p' \<and> protocol_inv sm type_name p'
    \<and> protocol_names p' = insert (codec_name c) (protocol_names p)"
proof (cases "pr_by_type_name p (codec_name c) = None")
  case True
  obtain key codecs where ins: "sm_insert sm (pr_codecs p) c = (key, codecs)" by fastforce
  note slot = slot_insert [OF sm ins]
  have fresh: "pr_by_type_name p n \<noteq> Some key" for n
    using protocol_invD(1) [OF inv] slot(1) by auto
  have tid: "pr_by_type_id p t = None" if "codec_tid c = Some t" for t
  proof (rule ccontr)
    assume "pr_by_type_id p t \<noteq> None"
    moreover have "codec_name c = type_name t" using that ok by (cases c) (simp_all add: codec_ok_def)
    ultimately show False using protocol_invD(2) [OF inv] True by auto
  qed
  have add: "add_any_codec sm c p = Some \<lparr>pr_codecs = codecs,
      pr_by_type_id = (case codec_tid c of None \<Rightarrow> pr_by_type_id p | Some t \<Rightarrow> (pr_by_type_id p)(t \<mapsto> key)),
      pr_by_type_name = (pr_by_type_name p)(codec_name c \<mapsto> key)\<rparr>" (is "_ = Some ?p'")
    using True tid ins by (auto simp: add_any_codec_def split: option.splits)
  have other: "codec_name c' \<noteq> codec_name c" if "sm_get sm (pr_codecs p) k = Some c'" for k c'
    using protocol_invD(1) [OF inv, of "codec_name c" k] that True by auto
  have other_tid: "type_name t \<noteq> codec_name c" if "pr_by_type_id p t = Some k" for t k
    using protocol_invD(2) [OF inv that] True by auto
  have "codec_tid c = Some t \<Longrightarrow> type_name t = codec_name c" for t
    using ok by (cases c) (simp_all add: codec_ok_def)
  then have "protocol_inv sm type_name ?p'"
    unfolding protocol_inv_def using other other_tid slot(1) ok
    by (auto simp: slot(2) protocol_invD(1) [OF inv] dest: protocol_invD(2,3) [OF inv] split: option.splits if_splits)
  then show ?thesis using add by (auto simp: protocol_names_def)
qed (use inv in \<open>auto simp: add_any_codec_def protocol_names_def\<close>)

lemma add_codecs_ok:
  assumes sm: "slot_laws sm" and "protocol_inv sm type_name p" "\<forall>c\<in>set cs. codec_ok type_name c"
  shows "\<exists>p'. add_codecs sm cs p = Some p' \<and> protocol_inv sm type_name p'
    \<and> protocol_names p' = codec_name ` set cs \<union> protocol_names p"
  using assms(2,3)
proof (induction cs arbitrary: p)
  case (Cons c cs)
  obtain p' where p': "add_any_codec sm c p = Some p'" "protocol_inv sm type_name p'"
    "protocol_names p' = insert (codec_name c) (protocol_names p)"
    using add_any_codec_ok [OF sm Cons.prems(1), of c] Cons.prems(2) by auto
  then show ?case using Cons.IH [OF p'(2)] Cons.prems(2) by auto
qed simp

lemma types_ok:
  assumes "slot_laws sm" "protocol_inv sm type_name p"
  shows "\<forall>c\<in>set (outbound_types sm p). codec_ok type_name c" "codec_name ` set (outbound_types sm p) = protocol_names p"
    "inbound_types sm p = outbound_types sm p"
proof -
  have set: "c \<in> set (outbound_types sm p) \<longleftrightarrow> (\<exists>k. sm_get sm (pr_codecs p) k = Some c)" for c
    using slot_iter(1) [OF assms(1)] by (force simp: outbound_types_def)
  then show "\<forall>c\<in>set (outbound_types sm p). codec_ok type_name c" using assms(2) by (auto simp: protocol_inv_def)
  show "codec_name ` set (outbound_types sm p) = protocol_names p"
    using assms(2) by (fastforce simp: set image_iff protocol_inv_def protocol_names_def dom_def)
qed (simp add: inbound_types_def outbound_types_def)

section \<open>What a connection is given\<close>

text \<open>Keys handed out by one registry: \<open>key_of\<close> is the key of a name, and no two names have one key.\<close>

lemma combine_keys_ok:
  assumes bm: "bimap_laws bm" and "inj key_of" "\<forall>(n, k)\<in>set ps \<union> bm_pairs bm t. k = key_of n"
  shows "(combine_keys bm ps t \<noteq> None \<longleftrightarrow> distinct (map fst ps) \<and> fst ` set ps \<inter> fst ` bm_pairs bm t = {})
    \<and> (\<forall>t'. combine_keys bm ps t = Some t' \<longrightarrow> bm_pairs bm t' = set ps \<union> bm_pairs bm t)"
  using assms(3)
proof (induction ps arbitrary: t)
  case (Cons p ps)
  obtain n w t' where p: "p = (n, key_of n)" "bm_insert bm t n (key_of n) = (w, t')"
    using Cons.prems by (cases p) fastforce
  have A: "k = key_of n'" if "(n', k) \<in> bm_pairs bm t" for n' k using Cons.prems that by blast
  have mem: "(n, key_of n) \<in> bm_pairs bm t" if h: "n \<in> fst ` bm_pairs bm t"
  proof -
    obtain k where "(n, k) \<in> bm_pairs bm t" using h by fastforce
    then show ?thesis using A by blast
  qed
  have mem': "(n, key_of n) \<in> bm_pairs bm t" if h: "key_of n \<in> snd ` bm_pairs bm t"
  proof -
    obtain n' where "(n', key_of n) \<in> bm_pairs bm t" using h by fastforce
    then show ?thesis using A injD [OF assms(2), of n n'] by metis
  qed
  note ins = bimap_insert [OF bm p(2)]
  show ?case
  proof (cases "n \<in> fst ` bm_pairs bm t")
    case True
    then show ?thesis using ins(1) mem by (simp add: p overwrites_def)
  next
    case False
    then have out: "(n, key_of n) \<notin> bm_pairs bm t" by force
    then have "key_of n \<notin> snd ` bm_pairs bm t" using mem' by blast
    then have w: "w = Neither" and pairs: "bm_pairs bm t' = insert (n, key_of n) (bm_pairs bm t)"
      using ins False out by (auto simp: overwrites_def) force+
    show ?thesis using Cons.IH [of t'] Cons.prems False by (auto simp: p w pairs)
  qed
qed simp

lemma combine_keys_append: "combine_keys bm (xs @ ys) t = Option.bind (combine_keys bm xs t) (combine_keys bm ys)"
  by (induction xs arbitrary: t) (auto split: overwritten.splits prod.splits)

lemma add_codecs_append: "add_codecs sm (xs @ ys) p = Option.bind (add_codecs sm xs p) (add_codecs sm ys)"
  by (induction xs arbitrary: p) (auto split: bind_splits)

text \<open>The loop over the protocols does the three loops over all their codecs and all their keys.\<close>

lemma reduce_loop_parts:
  assumes "add_codecs sm (concat (map (\<lambda>pr. outbound_types sm (rv_protocol pr) @ inbound_types sm (rv_protocol pr)) prs)) p = Some p'"
  shows "reduce_loop sm bm prs (p, outb, inb) = Some (do {
    outb' \<leftarrow> combine_keys bm (concat (map rv_outbound prs)) outb;
    inb' \<leftarrow> combine_keys bm (concat (map rv_inbound prs)) inb;
    Some (p', outb', inb')})"
  using assms
proof (induction prs arbitrary: p outb inb)
  case (Cons pr prs)
  obtain p1 p2 where p: "add_codecs sm (outbound_types sm (rv_protocol pr)) p = Some p1"
    "add_codecs sm (inbound_types sm (rv_protocol pr)) p1 = Some p2"
    "add_codecs sm (concat (map (\<lambda>pr. outbound_types sm (rv_protocol pr) @ inbound_types sm (rv_protocol pr)) prs)) p2 = Some p'"
    using Cons.prems by (auto simp: add_codecs_append bind_eq_Some_conv)
  show ?case using Cons.IH [OF p(3)] p(1,2) by (auto simp: combine_keys_append split: option.splits bind_splits)
qed simp

definition resolved_ok :: "('pt, 'pk, ('n, 't) erased_codec) slot_ops \<Rightarrow> ('t \<Rightarrow> 'n) \<Rightarrow> ('n \<Rightarrow> 'k)
    \<Rightarrow> ('pt, 'pk, 'n, 't, 'k) protocol_resolved \<Rightarrow> bool" where
  "resolved_ok sm type_name key_of pr \<longleftrightarrow> protocol_inv sm type_name (rv_protocol pr)
     \<and> (\<forall>(n, k)\<in>set (rv_outbound pr) \<union> set (rv_inbound pr). k = key_of n)"

text \<open>C24. Protocols share no message type on a connection. For protocols resolved at one registry, their combination
  never panics. It succeeds exactly when no message name occurs twice among the outbound ones, nor among the inbound
  ones, and then it holds the types and the keys of all of them. Protocols that share a message type cannot be
  combined, although their keys for it agree: the pair that is already there is reported as inconsistent.\<close>

theorem reduce_refuses_shared_types:
  assumes sm: "slot_laws sm" and bm: "bimap_laws bm" and inj: "inj key_of"
    and ok: "\<forall>pr\<in>set prs. resolved_ok sm type_name key_of pr"
  shows "\<exists>r. reduce_protocols sm bm prs = Some r
    \<and> (r \<noteq> None \<longleftrightarrow> distinct (map fst (concat (map rv_outbound prs))) \<and> distinct (map fst (concat (map rv_inbound prs))))
    \<and> (\<forall>c. r = Some c \<longrightarrow> protocol_inv sm type_name (rv_protocol c)
        \<and> protocol_names (rv_protocol c) = (\<Union>pr\<in>set prs. protocol_names (rv_protocol pr))
        \<and> set (rv_outbound c) = (\<Union>pr\<in>set prs. set (rv_outbound pr))
        \<and> set (rv_inbound c) = (\<Union>pr\<in>set prs. set (rv_inbound pr)))"
proof -
  let ?cs = "concat (map (\<lambda>pr. outbound_types sm (rv_protocol pr) @ inbound_types sm (rv_protocol pr)) prs)"
  have types: "\<forall>c\<in>set (outbound_types sm (rv_protocol pr)). codec_ok type_name c"
    "codec_name ` set (outbound_types sm (rv_protocol pr)) = protocol_names (rv_protocol pr)"
    "inbound_types sm (rv_protocol pr) = outbound_types sm (rv_protocol pr)" if "pr \<in> set prs" for pr
    using types_ok [OF sm, of type_name "rv_protocol pr"] ok that by (auto simp: resolved_ok_def)
  have cs: "\<forall>c\<in>set ?cs. codec_ok type_name c" "codec_name ` set ?cs = (\<Union>pr\<in>set prs. protocol_names (rv_protocol pr))"
    using types by (auto simp: image_UN image_Un)
  obtain p where p: "add_codecs sm ?cs (protocol_new sm) = Some p" "protocol_inv sm type_name p"
    "protocol_names p = (\<Union>pr\<in>set prs. protocol_names (rv_protocol pr))"
    using add_codecs_ok [OF sm protocol_inv_new [OF sm] cs(1)] cs(2) by auto
  have keys: "\<forall>(n, k)\<in>set (concat (map rv_outbound prs)) \<union> bm_pairs bm (bm_new bm). k = key_of n"
    "\<forall>(n, k)\<in>set (concat (map rv_inbound prs)) \<union> bm_pairs bm (bm_new bm). k = key_of n"
    using ok by (auto simp: resolved_ok_def bimap_new [OF bm])
  note ko = combine_keys_ok [OF bm inj keys(1)] and ki = combine_keys_ok [OF bm inj keys(2)]
  show ?thesis
    using ko ki p(2,3) unfolding reduce_protocols_def reduce_loop_parts [OF p(1)]
    by (auto simp: bimap_new [OF bm] split: bind_splits)
qed

theorem reduce_refuses_shared_types_witness:
  "\<exists>r. reduce_protocols counted_slots listed_pairs
      [\<lparr>rv_protocol = protocol_new counted_slots, rv_outbound = [(1 :: nat, 1 :: nat)], rv_inbound = [] :: (nat \<times> nat) list\<rparr>,
       \<lparr>rv_protocol = protocol_new counted_slots :: (_, _, _, nat) protocol, rv_outbound = [(1, 1)], rv_inbound = []\<rparr>] = Some r \<and> r = None"
proof -
  have "resolved_ok counted_slots id id \<lparr>rv_protocol = protocol_new counted_slots, rv_outbound = [(1 :: nat, 1 :: nat)], rv_inbound = []\<rparr>"
    by (simp add: resolved_ok_def protocol_inv_new counted_slots_laws)
  then show ?thesis
    using reduce_refuses_shared_types [OF counted_slots_laws listed_pairs_laws inj_on_id, of
        "[\<lparr>rv_protocol = protocol_new counted_slots, rv_outbound = [(1 :: nat, 1 :: nat)], rv_inbound = []\<rparr>,
          \<lparr>rv_protocol = protocol_new counted_slots, rv_outbound = [(1, 1)], rv_inbound = []\<rparr>]" id] by auto
qed

end
