(* ===== verification/Protocol_Registry.thy ===== *)
theory Protocol_Registry
  imports Codec
begin

text \<open>
  The registry of protocols and message types of a node, \<^verbatim>\<open>components/mm1-multinode/src/protocol_registry.rs\<close>:
  protocols by name, and for every message type, known or only heard of from a peer, a key that the node uses for
  it. The slot maps are parameters. Whether someone else holds a protocol, which the count of its \<open>Arc\<close> tells, is an
  argument.
\<close>

record ('pt, 'pk, 'n, 't, 'ct, 'k) protocol_registry =
  pg_protocols :: "'n \<rightharpoonup> ('pt, 'pk, 'n, 't) protocol"
  pg_codecs :: 'ct
  pg_by_name :: "'n \<rightharpoonup> 'k"
  pg_by_type_id :: "'t \<rightharpoonup> 'k"

datatype register_protocol_error_kind = DuplicateProtocolName
datatype unregister_protocol_error_kind = NoProtocol | ProtocolInUse

definition protocol_registry_default :: "('ct, 'k, ('n, 't) erased_codec) slot_ops \<Rightarrow> ('pt, 'pk, 'n, 't, 'ct, 'k) protocol_registry" where
  "protocol_registry_default sm = \<lparr>pg_protocols = Map.empty, pg_codecs = sm_new sm,
     pg_by_name = Map.empty, pg_by_type_id = Map.empty\<rparr>"

definition register_known_message :: "('ct, 'k, ('n, 't) erased_codec) slot_ops \<Rightarrow> ('n, 't) erased_codec
    \<Rightarrow> ('pt, 'pk, 'n, 't, 'ct, 'k) protocol_registry \<Rightarrow> ('k \<times> ('pt, 'pk, 'n, 't, 'ct, 'k) protocol_registry) panics" where
  "register_known_message sm codec pg = do {
     type_id \<leftarrow> codec_tid codec;
     (case pg_by_type_id pg type_id of
        Some existing \<Rightarrow> Some (existing, pg)
      | None \<Rightarrow>
          (case pg_by_name pg (codec_name codec) of
             None \<Rightarrow> (
               let (codec_key, codecs) = sm_insert sm (pg_codecs pg) codec
               in Some (codec_key, pg\<lparr>pg_codecs := codecs, pg_by_name := (pg_by_name pg)(codec_name codec \<mapsto> codec_key),
                    pg_by_type_id := (pg_by_type_id pg)(type_id \<mapsto> codec_key)\<rparr>))
           | Some codec_key \<Rightarrow> do {
               _ \<leftarrow> sm_get sm (pg_codecs pg) codec_key;
               Some (codec_key, pg\<lparr>pg_codecs := sm_put sm (pg_codecs pg) codec_key codec,
                 pg_by_type_id := (pg_by_type_id pg)(type_id \<mapsto> codec_key)\<rparr>)
             }))
   }"

definition register_opaque_codec :: "('ct, 'k, ('n, 't) erased_codec) slot_ops \<Rightarrow> ('n, 't) erased_codec
    \<Rightarrow> ('pt, 'pk, 'n, 't, 'ct, 'k) protocol_registry \<Rightarrow> ('k \<times> ('pt, 'pk, 'n, 't, 'ct, 'k) protocol_registry) panics" where
  "register_opaque_codec sm codec pg = do {
     assert_that (codec_tid codec = None);
     (case pg_by_name pg (codec_name codec) of
        Some existing \<Rightarrow> Some (existing, pg)
      | None \<Rightarrow> (
          let (codec_key, codecs) = sm_insert sm (pg_codecs pg) codec
          in Some (codec_key, pg\<lparr>pg_codecs := codecs, pg_by_name := (pg_by_name pg)(codec_name codec \<mapsto> codec_key)\<rparr>)))
   }"

definition register_message :: "('ct, 'k, ('n, 't) erased_codec) slot_ops \<Rightarrow> ('n, 't) erased_codec
    \<Rightarrow> ('pt, 'pk, 'n, 't, 'ct, 'k) protocol_registry \<Rightarrow> ('k \<times> ('pt, 'pk, 'n, 't, 'ct, 'k) protocol_registry) panics" where
  "register_message sm codec pg = (
     if codec_tid codec \<noteq> None then register_known_message sm codec pg else register_opaque_codec sm codec pg)"

fun register_known_messages :: "('ct, 'k, ('n, 't) erased_codec) slot_ops \<Rightarrow> ('n, 't) erased_codec list
    \<Rightarrow> ('pt, 'pk, 'n, 't, 'ct, 'k) protocol_registry \<Rightarrow> ('pt, 'pk, 'n, 't, 'ct, 'k) protocol_registry panics" where
  "register_known_messages sm [] pg = Some pg"
| "register_known_messages sm (c # cs) pg = do {
     (_, pg') \<leftarrow> register_known_message sm c pg;
     register_known_messages sm cs pg'
   }"

definition register_protocol :: "('pt, 'pk, ('n, 't) erased_codec) slot_ops \<Rightarrow> ('ct, 'k, ('n, 't) erased_codec) slot_ops
    \<Rightarrow> 'n \<Rightarrow> ('pt, 'pk, 'n, 't) protocol \<Rightarrow> ('pt, 'pk, 'n, 't, 'ct, 'k) protocol_registry
    \<Rightarrow> ((register_protocol_error_kind + unit) \<times> ('pt, 'pk, 'n, 't, 'ct, 'k) protocol_registry) panics" where
  "register_protocol smp sm name protocol pg = (
     if pg_protocols pg name \<noteq> None then Some (Inl DuplicateProtocolName, pg)
     else do {
       pg' \<leftarrow> register_known_messages sm (outbound_types smp protocol @ inbound_types smp protocol) pg;
       Some (Inr (), pg'\<lparr>pg_protocols := (pg_protocols pg')(name \<mapsto> protocol)\<rparr>)
     })"

definition unregister_protocol :: "'n \<Rightarrow> bool \<Rightarrow> ('pt, 'pk, 'n, 't, 'ct, 'k) protocol_registry
    \<Rightarrow> (unregister_protocol_error_kind + unit) \<times> ('pt, 'pk, 'n, 't, 'ct, 'k) protocol_registry" where
  "unregister_protocol name in_use pg = (
     if pg_protocols pg name = None then (Inl NoProtocol, pg)
     else if in_use then (Inl ProtocolInUse, pg)
     else (Inr (), pg\<lparr>pg_protocols := (pg_protocols pg)(name := None)\<rparr>))"

definition protocol_by_name :: "'n \<Rightarrow> ('pt, 'pk, 'n, 't, 'ct, 'k) protocol_registry \<Rightarrow> ('pt, 'pk, 'n, 't) protocol option" where
  "protocol_by_name name pg = pg_protocols pg name"

definition local_type_key_by_tid :: "'t \<Rightarrow> ('pt, 'pk, 'n, 't, 'ct, 'k) protocol_registry \<Rightarrow> 'k option" where
  "local_type_key_by_tid tid pg = pg_by_type_id pg tid"

definition message_name_by_key :: "('ct, 'k, ('n, 't) erased_codec) slot_ops \<Rightarrow> 'k \<Rightarrow> ('pt, 'pk, 'n, 't, 'ct, 'k) protocol_registry \<Rightarrow> 'n panics" where
  "message_name_by_key sm key pg = map_option codec_name (sm_get sm (pg_codecs pg) key)"

section \<open>Names and keys\<close>

text \<open>The abstraction of the registry: the key of every name that has one.\<close>

definition registry_inv :: "('ct, 'k, ('n, 't) erased_codec) slot_ops \<Rightarrow> ('t \<Rightarrow> 'n) \<Rightarrow> ('pt, 'pk, 'n, 't, 'ct, 'k) protocol_registry \<Rightarrow> bool" where
  "registry_inv sm type_name pg \<longleftrightarrow>
     (\<forall>n k. pg_by_name pg n = Some k \<longleftrightarrow> (\<exists>c. sm_get sm (pg_codecs pg) k = Some c \<and> codec_name c = n))
   \<and> (\<forall>t k. pg_by_type_id pg t = Some k \<longrightarrow> pg_by_name pg (type_name t) = Some k)"

lemma registry_invD:
  assumes "registry_inv sm type_name pg"
  shows "pg_by_name pg n = Some k \<longleftrightarrow> (\<exists>c. sm_get sm (pg_codecs pg) k = Some c \<and> codec_name c = n)"
    and "pg_by_type_id pg t = Some k \<Longrightarrow> pg_by_name pg (type_name t) = Some k"
  using assms unfolding registry_inv_def by blast+

lemma registry_inv_default: "slot_laws sm \<Longrightarrow> registry_inv sm type_name (protocol_registry_default sm)"
  by (simp add: registry_inv_def protocol_registry_default_def slot_new)

lemma registry_inv_protocols [simp]:
  "registry_inv sm type_name (pg\<lparr>pg_protocols := ps\<rparr>) = registry_inv sm type_name pg"
  by (simp add: registry_inv_def)

lemma name_by_key:
  "registry_inv sm type_name pg \<Longrightarrow> message_name_by_key sm k pg = Some n \<longleftrightarrow> pg_by_name pg n = Some k"
  by (auto simp: message_name_by_key_def registry_invD(1))

text \<open>A new entry of the codecs, for a name that has none.\<close>

lemma registry_inv_insert:
  assumes sm: "slot_laws sm" and inv: "registry_inv sm type_name pg" and new: "pg_by_name pg (codec_name c) = None"
    and ins: "sm_insert sm (pg_codecs pg) c = (key, codecs)"
    and tids: "\<forall>t k. tids t = Some k \<longrightarrow> pg_by_type_id pg t = Some k \<or> k = key \<and> type_name t = codec_name c"
  shows "registry_inv sm type_name (pg\<lparr>pg_codecs := codecs, pg_by_name := (pg_by_name pg)(codec_name c \<mapsto> key), pg_by_type_id := tids\<rparr>)"
proof -
  note slot = slot_insert [OF sm ins]
  have other: "codec_name c' \<noteq> codec_name c" if "sm_get sm (pg_codecs pg) k = Some c'" for k c'
    using registry_invD(1) [OF inv, of "codec_name c" k] that new by auto
  have names: "((pg_by_name pg)(codec_name c \<mapsto> key)) n = Some k
      \<longleftrightarrow> (\<exists>c'. ((sm_get sm (pg_codecs pg))(key \<mapsto> c)) k = Some c' \<and> codec_name c' = n)" for n k
    using other slot(1) by (auto simp: registry_invD(1) [OF inv] split: if_splits)
  have "((pg_by_name pg)(codec_name c \<mapsto> key)) (type_name t) = Some k" if "tids t = Some k" for t k
    using tids [rule_format, OF that] registry_invD(2) [OF inv, of t k] new by auto
  with names show ?thesis unfolding registry_inv_def by (simp add: slot(2) del: fun_upd_apply)
qed

lemma registry_inv_put:
  assumes sm: "slot_laws sm" and inv: "registry_inv sm type_name pg" and old: "pg_by_name pg (codec_name c) = Some key"
    and tids: "\<forall>t k. tids t = Some k \<longrightarrow> pg_by_type_id pg t = Some k \<or> k = key \<and> type_name t = codec_name c"
  shows "registry_inv sm type_name (pg\<lparr>pg_codecs := sm_put sm (pg_codecs pg) key c, pg_by_type_id := tids\<rparr>)"
proof -
  obtain c0 where c0: "sm_get sm (pg_codecs pg) key = Some c0" "codec_name c0 = codec_name c"
    using old registry_invD(1) [OF inv] by blast
  have "pg_by_name pg (type_name t) = Some k" if "tids t = Some k" for t k
    using tids [rule_format, OF that] registry_invD(2) [OF inv, of t k] old by auto
  then show ?thesis unfolding registry_inv_def
    by (auto simp: slot_put [OF sm c0(1)] registry_invD(1) [OF inv] c0)
qed

lemma register_known_ok:
  assumes sm: "slot_laws sm" and inv: "registry_inv sm type_name pg" and ok: "codec_ok type_name c" and known: "codec_tid c \<noteq> None"
  shows "\<exists>k pg'. register_known_message sm c pg = Some (k, pg') \<and> registry_inv sm type_name pg'
    \<and> pg_protocols pg' = pg_protocols pg \<and> pg_by_name pg' (codec_name c) = Some k \<and> pg_by_name pg \<subseteq>\<^sub>m pg_by_name pg'
    \<and> pg_by_type_id pg' (the (codec_tid c)) = Some k"
proof -
  obtain t where t: "codec_tid c = Some t" "type_name t = codec_name c"
    using ok known by (cases c) (auto simp: codec_ok_def)
  show ?thesis
  proof (cases "pg_by_type_id pg t")
    case (Some k)
    then show ?thesis using registry_invD(2) [OF inv Some] inv t by (auto simp: register_known_message_def)
  next
    case no_tid: None
    have tids: "\<forall>t' k'. ((pg_by_type_id pg)(t \<mapsto> k)) t' = Some k' \<longrightarrow> pg_by_type_id pg t' = Some k' \<or> k' = k \<and> type_name t' = codec_name c" for k
      using t by auto
    show ?thesis
    proof (cases "pg_by_name pg (codec_name c)")
      case None
      obtain key codecs where ins: "sm_insert sm (pg_codecs pg) c = (key, codecs)" by fastforce
      show ?thesis using registry_inv_insert [where tids = "(pg_by_type_id pg)(t \<mapsto> key)", OF sm inv None ins tids] None no_tid t ins
        by (auto simp: register_known_message_def map_le_def)
    next
      case (Some key)
      then have "sm_get sm (pg_codecs pg) key \<noteq> None" using registry_invD(1) [OF inv] by auto
      then show ?thesis using registry_inv_put [where tids = "(pg_by_type_id pg)(t \<mapsto> key)", OF sm inv Some tids] Some no_tid t
        by (auto simp: register_known_message_def)
    qed
  qed
qed

lemma register_message_ok:
  assumes sm: "slot_laws sm" and inv: "registry_inv sm type_name pg" and ok: "codec_ok type_name c"
  shows "\<exists>k pg'. register_message sm c pg = Some (k, pg') \<and> registry_inv sm type_name pg'
    \<and> pg_protocols pg' = pg_protocols pg \<and> pg_by_name pg' (codec_name c) = Some k \<and> pg_by_name pg \<subseteq>\<^sub>m pg_by_name pg'"
proof (cases "codec_tid c")
  case None
  show ?thesis
  proof (cases "pg_by_name pg (codec_name c)")
    case new: None
    obtain key codecs where ins: "sm_insert sm (pg_codecs pg) c = (key, codecs)" by fastforce
    show ?thesis using registry_inv_insert [OF sm inv new ins, of "pg_by_type_id pg"] new None ins
      by (auto simp: register_message_def register_opaque_codec_def map_le_def)
  qed (use None inv in \<open>auto simp: register_message_def register_opaque_codec_def\<close>)
next
  case (Some t)
  then show ?thesis using register_known_ok [OF sm inv ok] by (fastforce simp: register_message_def)
qed

lemma register_known_messages_ok:
  assumes sm: "slot_laws sm" and "registry_inv sm type_name pg" "\<forall>c\<in>set cs. codec_ok type_name c \<and> codec_tid c \<noteq> None"
  shows "\<exists>pg'. register_known_messages sm cs pg = Some pg' \<and> registry_inv sm type_name pg'
    \<and> pg_protocols pg' = pg_protocols pg \<and> pg_by_name pg \<subseteq>\<^sub>m pg_by_name pg'
    \<and> (\<forall>c\<in>set cs. pg_by_name pg' (codec_name c) \<noteq> None)"
  using assms(2,3)
proof (induction cs arbitrary: pg)
  case (Cons c cs)
  obtain k pg1 where pg1: "register_known_message sm c pg = Some (k, pg1)" "registry_inv sm type_name pg1"
    "pg_protocols pg1 = pg_protocols pg" "pg_by_name pg1 (codec_name c) = Some k" "pg_by_name pg \<subseteq>\<^sub>m pg_by_name pg1"
    using register_known_ok [OF sm Cons.prems(1), of c] Cons.prems(2) by auto
  obtain pg2 where pg2: "register_known_messages sm cs pg1 = Some pg2" "registry_inv sm type_name pg2"
    "pg_protocols pg2 = pg_protocols pg1" "pg_by_name pg1 \<subseteq>\<^sub>m pg_by_name pg2" "\<forall>c\<in>set cs. pg_by_name pg2 (codec_name c) \<noteq> None"
    using Cons.IH [OF pg1(2)] Cons.prems(2) by auto
  have "pg_by_name pg2 (codec_name c) = Some k" using pg1(4) pg2(4) by (metis domI map_le_def)
  then show ?case using pg1 pg2 map_le_trans by fastforce
qed simp

text \<open>Protocols as they can be built: with \<open>add_type\<close> only, so that all their codecs are known ones.\<close>

definition known_protocol :: "('pt, 'pk, ('n, 't) erased_codec) slot_ops \<Rightarrow> ('t \<Rightarrow> 'n) \<Rightarrow> ('pt, 'pk, 'n, 't) protocol \<Rightarrow> bool" where
  "known_protocol sm type_name p \<longleftrightarrow> protocol_inv sm type_name p \<and> (\<forall>c\<in>set (outbound_types sm p). codec_tid c \<noteq> None)"

lemma known_protocol_types:
  assumes "slot_laws smp" "known_protocol smp type_name p"
  shows "\<forall>c\<in>set (outbound_types smp p @ inbound_types smp p). codec_ok type_name c \<and> codec_tid c \<noteq> None"
  using assms(2) types_ok [OF assms(1), of type_name p] by (auto simp: known_protocol_def)

lemma register_protocol_ok:
  assumes sm: "slot_laws smp" "slot_laws sm" and inv: "registry_inv sm type_name pg" and p: "known_protocol smp type_name p"
  shows "\<exists>r pg'. register_protocol smp sm name p pg = Some (r, pg') \<and> registry_inv sm type_name pg'
    \<and> pg_by_name pg \<subseteq>\<^sub>m pg_by_name pg'
    \<and> (r = Inr () \<longleftrightarrow> pg_protocols pg name = None)
    \<and> pg_protocols pg' = (if r = Inr () then (pg_protocols pg)(name \<mapsto> p) else pg_protocols pg)"
  using register_known_messages_ok [OF sm(2) inv known_protocol_types [OF sm(1) p]] inv
  by (cases "pg_protocols pg name") (auto simp: register_protocol_def)

section \<open>Runs of the registry\<close>

datatype ('pt, 'pk, 'n, 't) registry_op =
    RegisterProtocolOp 'n "('pt, 'pk, 'n, 't) protocol"
  | UnregisterProtocolOp 'n bool
  | RegisterMessageOp "('n, 't) erased_codec"

fun registry_step :: "('pt, 'pk, ('n, 't) erased_codec) slot_ops \<Rightarrow> ('ct, 'k, ('n, 't) erased_codec) slot_ops
    \<Rightarrow> ('pt, 'pk, 'n, 't) registry_op \<Rightarrow> ('pt, 'pk, 'n, 't, 'ct, 'k) protocol_registry
    \<Rightarrow> ('pt, 'pk, 'n, 't, 'ct, 'k) protocol_registry panics" where
  "registry_step smp sm (RegisterProtocolOp name p) pg = map_option snd (register_protocol smp sm name p pg)"
| "registry_step smp sm (UnregisterProtocolOp name in_use) pg = Some (snd (unregister_protocol name in_use pg))"
| "registry_step smp sm (RegisterMessageOp c) pg = map_option snd (register_message sm c pg)"

fun registry_run :: "('pt, 'pk, ('n, 't) erased_codec) slot_ops \<Rightarrow> ('ct, 'k, ('n, 't) erased_codec) slot_ops
    \<Rightarrow> ('pt, 'pk, 'n, 't) registry_op list \<Rightarrow> ('pt, 'pk, 'n, 't, 'ct, 'k) protocol_registry
    \<Rightarrow> ('pt, 'pk, 'n, 't, 'ct, 'k) protocol_registry panics" where
  "registry_run smp sm [] pg = Some pg"
| "registry_run smp sm (x # xs) pg = Option.bind (registry_step smp sm x pg) (registry_run smp sm xs)"

fun op_ok :: "('pt, 'pk, ('n, 't) erased_codec) slot_ops \<Rightarrow> ('t \<Rightarrow> 'n) \<Rightarrow> ('pt, 'pk, 'n, 't) registry_op \<Rightarrow> bool" where
  "op_ok smp type_name (RegisterProtocolOp _ p) = known_protocol smp type_name p"
| "op_ok smp type_name (UnregisterProtocolOp _ _) = True"
| "op_ok smp type_name (RegisterMessageOp c) = codec_ok type_name c"

lemma registry_step_ok:
  assumes sm: "slot_laws smp" "slot_laws sm" and inv: "registry_inv sm type_name pg" and x: "op_ok smp type_name x"
  shows "\<exists>pg'. registry_step smp sm x pg = Some pg' \<and> registry_inv sm type_name pg' \<and> pg_by_name pg \<subseteq>\<^sub>m pg_by_name pg'"
proof (cases x)
  case (RegisterProtocolOp name p)
  then show ?thesis using register_protocol_ok [OF sm inv, of p name] x by fastforce
next
  case (UnregisterProtocolOp name in_use)
  then show ?thesis using inv by (auto simp: unregister_protocol_def)
next
  case (RegisterMessageOp c)
  then show ?thesis using register_message_ok [OF sm(2) inv, of c] x by fastforce
qed

lemma registry_run_ok:
  assumes sm: "slot_laws smp" "slot_laws sm" and "registry_inv sm type_name pg" "\<forall>x\<in>set xs. op_ok smp type_name x"
  shows "\<exists>pg'. registry_run smp sm xs pg = Some pg' \<and> registry_inv sm type_name pg' \<and> pg_by_name pg \<subseteq>\<^sub>m pg_by_name pg'"
  using assms(3,4)
proof (induction xs arbitrary: pg)
  case (Cons x xs)
  obtain pg1 where pg1: "registry_step smp sm x pg = Some pg1" "registry_inv sm type_name pg1" "pg_by_name pg \<subseteq>\<^sub>m pg_by_name pg1"
    using registry_step_ok [OF sm Cons.prems(1), of x] Cons.prems(2) by auto
  then show ?case using Cons.IH [OF pg1(2)] Cons.prems(2) map_le_trans by fastforce
qed simp

text \<open>C20. A message type keeps its key. In every state the registry can reach, registering a message type, known or
  opaque, succeeds, and the key it gives names that type from then on: however many protocols and types are registered
  and unregistered afterwards, nothing panics, the key still has the name, and every later registration under the name
  gives the same key. Two names never share a key.\<close>

theorem message_key_stable:
  assumes "slot_laws smp" "slot_laws sm" "\<forall>x\<in>set (xs @ ys). op_ok smp type_name x" "codec_ok type_name c" "codec_ok type_name c'"
    "registry_run smp sm xs (protocol_registry_default sm) = Some pg"
  shows "\<exists>k pg1 pg2 k' pg3. register_message sm c pg = Some (k, pg1) \<and> registry_run smp sm ys pg1 = Some pg2
    \<and> message_name_by_key sm k pg2 = Some (codec_name c)
    \<and> register_message sm c' pg2 = Some (k', pg3) \<and> (k' = k \<longleftrightarrow> codec_name c' = codec_name c)"
proof -
  have inv: "registry_inv sm type_name pg"
    using registry_run_ok [OF assms(1,2) registry_inv_default [OF assms(2)], of xs type_name] assms(3,6) by auto
  obtain k pg1 where r1: "register_message sm c pg = Some (k, pg1)" "registry_inv sm type_name pg1" "pg_by_name pg1 (codec_name c) = Some k"
    using register_message_ok [OF assms(2) inv assms(4)] by auto
  obtain pg2 where r2: "registry_run smp sm ys pg1 = Some pg2" "registry_inv sm type_name pg2" "pg_by_name pg1 \<subseteq>\<^sub>m pg_by_name pg2"
    using registry_run_ok [OF assms(1,2) r1(2), of ys] assms(3) by auto
  obtain k' pg3 where r3: "register_message sm c' pg2 = Some (k', pg3)" "registry_inv sm type_name pg3"
    "pg_by_name pg3 (codec_name c') = Some k'" "pg_by_name pg2 \<subseteq>\<^sub>m pg_by_name pg3"
    using register_message_ok [OF assms(2) r2(2) assms(5)] by auto
  have n2: "pg_by_name pg2 (codec_name c) = Some k" using r1(3) r2(3) by (metis domI map_le_def)
  then have n3: "pg_by_name pg3 (codec_name c) = Some k" using r3(4) by (metis domI map_le_def)
  have "k' = k \<longleftrightarrow> codec_name c' = codec_name c"
    using n3 r3(3) name_by_key [OF r3(2), of k] by (metis option.inject)
  moreover have "message_name_by_key sm k pg2 = Some (codec_name c)" using n2 name_by_key [OF r2(2)] by blast
  ultimately show ?thesis using r1(1) r2(1) r3(1) by blast
qed

type_synonym counted_codecs = "nat \<times> (nat \<times> (nat, nat) erased_codec) list"

theorem message_key_stable_witness:
  "\<exists>k pg1 pg2 k' pg3. register_message counted_slots (Opaque (7 :: nat)) (protocol_registry_default counted_slots
        :: (counted_codecs, nat, nat, nat, counted_codecs, nat) protocol_registry) = Some (k, pg1)
    \<and> registry_run counted_slots counted_slots [RegisterMessageOp (Known 8 8)] pg1 = Some pg2
    \<and> message_name_by_key counted_slots k pg2 = Some 7
    \<and> register_message counted_slots (Known 7 7) pg2 = Some (k', pg3) \<and> k' = k"
  using message_key_stable [OF counted_slots_laws counted_slots_laws, of "[]" "[RegisterMessageOp (Known 8 8)]" id
    "Opaque (7 :: nat)" "Known (7 :: nat) 7"
    "protocol_registry_default counted_slots :: (counted_codecs, nat, nat, nat, counted_codecs, nat) protocol_registry"]
  by (simp add: codec_ok_def del: registry_run.simps(2))

end
