(* ===== verification/Multinode_Protocols.thy ===== *)
theory Multinode_Protocols
  imports Protocol_Registry Route_Props Ask "HOL-Library.Product_Lexorder"
begin

text \<open>
  The manager of the connections to other nodes, \<^verbatim>\<open>components/mm1-multinode/src/actors/multinode_manager.rs\<close>: its
  requests about protocols and message types, with the list of those that wait for a protocol. What a handler does
  to others is a list of effects. The outcome of what it sends, the timer and whether a protocol is in use are an
  argument. The result of a handler is \<^const>\<open>None\<close> when it fails, which ends the manager, and otherwise the new
  state with the reply of its \<open>Outcome\<close>, if any.
\<close>

section \<open>State\<close>

record ('n, 'tk) waitlist_entry =
  we_protocol :: 'n
  we_reply_to :: request_header
  we_timer_key :: "'tk option"

text \<open>\<open>by_protocol\<close> is a \<open>BTreeSet\<close>: the sorted list of its elements.\<close>

record ('wt, 'n, 'w) waitlist =
  wl_entries :: 'wt
  wl_by_protocol :: "('n \<times> 'w option) list"

record ('pt, 'pk, 'n, 't, 'ct, 'k, 'wt, 'w) mn_protocols =
  mp_registry :: "('pt, 'pk, 'n, 't, 'ct, 'k) protocol_registry"
  mp_waitlist :: "('wt, 'n, 'w) waitlist"

record ('pt, 'pk, 'n, 't, 'ct, 'k, 'wt, 'w, 'tk) mp_ops =
  op_protocol :: "('pt, 'pk, ('n, 't) erased_codec) slot_ops"
  op_codec :: "('ct, 'k, ('n, 't) erased_codec) slot_ops"
  op_wait :: "('wt, 'w, ('n, 'tk) waitlist_entry) slot_ops"

definition mn_protocols_default :: "('pt, 'pk, 'n, 't, 'ct, 'k, 'wt, 'w, 'tk) mp_ops \<Rightarrow> ('pt, 'pk, 'n, 't, 'ct, 'k, 'wt, 'w) mn_protocols" where
  "mn_protocols_default ops = \<lparr>mp_registry = protocol_registry_default (op_codec ops),
     mp_waitlist = \<lparr>wl_entries = sm_new (op_wait ops), wl_by_protocol = []\<rparr>\<rparr>"

section \<open>Messages and effects\<close>

record 'k set_route_msg =
  sr_message :: 'k
  sr_destination :: net_address
  sr_via :: "address option"
  sr_metric :: "route_metric option"

datatype ('pt, 'pk, 'n, 't, 'k) mp_request =
    RegisterProtocolRequest 'n "('pt, 'pk, 'n, 't) protocol"
  | UnregisterProtocolRequest 'n
  | RegisterOpaqueMessageRequest 'n
  | GetMessageNameRequest 'k
  | GetProtocolByNameRequest 'n "duration option"
  | ResolveTypeIdRequest 't

text \<open>In \<open>GetProtocolByNameResponse\<close>, \<^const>\<open>None\<close> is the error \<open>NoProtocol\<close>.\<close>

datatype ('pt, 'pk, 'n, 't, 'k) mp_response =
    RegisterProtocolResponse "register_protocol_error_kind + unit"
  | UnregisterProtocolResponse "unregister_protocol_error_kind + unit"
  | RegisterOpaqueMessageResponse 'k
  | GetMessageNameResponse 'n
  | GetProtocolByNameResponse "('pt, 'pk, 'n, 't, 'k) protocol_resolved option"
  | ResolveTypeIdResponse "'k option"

datatype ('pt, 'pk, 'n, 't, 'k, 'w) mp_input =
    MpRequest request_header "('pt, 'pk, 'n, 't, 'k) mp_request"
  | WaitlistTimeoutElapsed 'w

datatype ('pt, 'pk, 'n, 't, 'k, 'w, 'tk) mp_effect =
    MpReply request_header "('pt, 'pk, 'n, 't, 'k) mp_response"
  | TellSelf "'k set_route_msg"
  | CancelTimer 'tk
  | ScheduleTimeout duration 'w

text \<open>\<open>me_told i\<close> and \<open>me_cancelled i\<close> tell whether the message numbered \<open>i\<close> to itself could be sent and the timer
  numbered \<open>i\<close> be cancelled; \<open>me_scheduled\<close> is the key of the timer, when it could be started.\<close>

record 'tk mp_env =
  me_told :: "nat \<Rightarrow> bool"
  me_cancelled :: "nat \<Rightarrow> bool"
  me_scheduled :: "'tk option"
  me_in_use :: bool

type_synonym ('pt, 'pk, 'n, 't, 'ct, 'k, 'wt, 'w, 'tk) mp_result =
  "(('pt, 'pk, 'n, 't, 'k, 'w, 'tk) mp_effect list
    \<times> (('pt, 'pk, 'n, 't, 'ct, 'k, 'wt, 'w) mn_protocols \<times> ('pt, 'pk, 'n, 't, 'k) mp_response option) option) panics"

section \<open>The waitlist\<close>

text \<open>\<open>by_protocol.range((name, None)..)\<close>, without the elements that have no key, while the name is the one sought.\<close>

definition next_waiting :: "'n::linorder \<Rightarrow> ('n \<times> 'w::linorder option) list \<Rightarrow> ('n \<times> 'w option) option" where
  "next_waiting name by_protocol = (case dropWhile (\<lambda>x. snd x = None) (filter (\<lambda>x. (name, None) \<le> x) by_protocol) of
     [] \<Rightarrow> None
   | x # _ \<Rightarrow> if fst x = name then Some x else None)"

text \<open>The loop that takes everyone who waits for a protocol off the list. \<^const>\<open>None\<close> is a panic; a loop without end
  would be \<^const>\<open>None\<close> too.\<close>

partial_function (option) waitlist_drain :: "('wt, 'w::linorder, ('n::linorder, 'tk) waitlist_entry) slot_ops \<Rightarrow> 'n
    \<Rightarrow> ('wt, 'n, 'w) waitlist \<Rightarrow> (('tk \<times> request_header) list \<times> ('wt, 'n, 'w) waitlist) panics" where
  "waitlist_drain sm name wl = (case next_waiting name (wl_by_protocol wl) of
     None \<Rightarrow> Some ([], wl)
   | Some (_, k) \<Rightarrow> Option.bind k (\<lambda>waitlist_key.
       Option.bind (sm_get sm (wl_entries wl) waitlist_key) (\<lambda>e.
       Option.bind (we_timer_key e) (\<lambda>timer_key.
       Option.bind (waitlist_drain sm name \<lparr>wl_entries = sm_remove sm (wl_entries wl) waitlist_key,
           wl_by_protocol = removeAll (we_protocol e, Some waitlist_key) (wl_by_protocol wl)\<rparr>) (\<lambda>(hits, wl').
       Some ((timer_key, we_reply_to e) # hits, wl'))))))"

section \<open>Handlers\<close>

text \<open>Sends in a row, each followed by \<open>?\<close>: what was sent, and whether all of it could be.\<close>

fun send_all :: "(nat \<Rightarrow> bool) \<Rightarrow> 'e list \<Rightarrow> 'e list \<times> bool" where
  "send_all ok [] = ([], True)"
| "send_all ok (e # es) = (if ok 0 then map_prod ((#) e) id (send_all (\<lambda>i. ok (Suc i)) es) else ([e], False))"

definition local_route :: "'k \<Rightarrow> net_address \<Rightarrow> 'k set_route_msg" where
  "local_route key net = \<lparr>sr_message = key, sr_destination = net, sr_via = None, sr_metric = Some 0\<rparr>"

fun announce_inbound :: "('ct, 'k, ('n, 't) erased_codec) slot_ops \<Rightarrow> (nat \<Rightarrow> bool) \<Rightarrow> net_address list \<Rightarrow> ('n, 't) erased_codec list
    \<Rightarrow> ('pt, 'pk, 'n, 't, 'ct, 'k) protocol_registry
    \<Rightarrow> (('pt, 'pk, 'n, 't, 'k, 'w, 'tk) mp_effect list \<times> ('pt, 'pk, 'n, 't, 'ct, 'k) protocol_registry option) panics" where
  "announce_inbound sm ok subnets [] pg = Some ([], Some pg)"
| "announce_inbound sm ok subnets (c # cs) pg = do {
     (local_type_key, pg) \<leftarrow> register_message sm c pg;
     let (effs, sent) = send_all ok (map (\<lambda>net. TellSelf (local_route local_type_key net)) subnets);
     if sent then do {
       (effs', res) \<leftarrow> announce_inbound sm (\<lambda>i. ok (length effs + i)) subnets cs pg;
       Some (effs @ effs', res)
     }
     else Some (effs, None)
   }"

fun register_named :: "('ct, 'k, ('n, 't) erased_codec) slot_ops \<Rightarrow> ('n, 't) erased_codec list
    \<Rightarrow> ('pt, 'pk, 'n, 't, 'ct, 'k) protocol_registry \<Rightarrow> (('n \<times> 'k) list \<times> ('pt, 'pk, 'n, 't, 'ct, 'k) protocol_registry) panics" where
  "register_named sm [] pg = Some ([], pg)"
| "register_named sm (c # cs) pg = do {
     (key, pg) \<leftarrow> register_message sm c pg;
     (keys, pg) \<leftarrow> register_named sm cs pg;
     Some ((codec_name c, key) # keys, pg)
   }"

fun answer_hits :: "(nat \<Rightarrow> bool) \<Rightarrow> ('pt, 'pk, 'n, 't, 'k) protocol_resolved \<Rightarrow> ('tk \<times> request_header) list
    \<Rightarrow> ('pt, 'pk, 'n, 't, 'k, 'w, 'tk) mp_effect list \<times> bool" where
  "answer_hits ok resolved [] = ([], True)"
| "answer_hits ok resolved ((timer_key, reply_to) # hits) = (
     if ok 0 then map_prod (\<lambda>es. CancelTimer timer_key # MpReply reply_to (GetProtocolByNameResponse (Some resolved)) # es) id
       (answer_hits (\<lambda>i. ok (Suc i)) resolved hits)
     else ([CancelTimer timer_key], False))"

definition on_register_protocol :: "('pt, 'pk, 'n::linorder, 't, 'ct, 'k, 'wt, 'w::linorder, 'tk) mp_ops \<Rightarrow> 'tk mp_env \<Rightarrow> net_address list
    \<Rightarrow> request_header \<Rightarrow> 'n \<Rightarrow> ('pt, 'pk, 'n, 't) protocol \<Rightarrow> ('pt, 'pk, 'n, 't, 'ct, 'k, 'wt, 'w) mn_protocols
    \<Rightarrow> ('pt, 'pk, 'n, 't, 'ct, 'k, 'wt, 'w, 'tk) mp_result" where
  "on_register_protocol ops env subnets reply_to name protocol s = do {
     (reply_with, pg) \<leftarrow> register_protocol (op_protocol ops) (op_codec ops) name protocol (mp_registry s);
     (hits, wl) \<leftarrow> (case reply_with of Inl _ \<Rightarrow> Some ([], mp_waitlist s) | Inr _ \<Rightarrow> waitlist_drain (op_wait ops) name (mp_waitlist s));
     (told, announced) \<leftarrow> announce_inbound (op_codec ops) (me_told env) subnets (inbound_types (op_protocol ops) protocol) pg;
     (case announced of
        None \<Rightarrow> Some (told, None)
      | Some pg \<Rightarrow> do {
          (outbound, pg) \<leftarrow> register_named (op_codec ops) (outbound_types (op_protocol ops) protocol) pg;
          (inbound, pg) \<leftarrow> register_named (op_codec ops) (inbound_types (op_protocol ops) protocol) pg;
          let (answers, answered) = answer_hits (me_cancelled env)
                \<lparr>rv_protocol = protocol, rv_outbound = outbound, rv_inbound = inbound\<rparr> hits;
          Some (told @ [MpReply reply_to (RegisterProtocolResponse reply_with)] @ answers,
            if answered then Some (\<lparr>mp_registry = pg, mp_waitlist = wl\<rparr>, None) else None)
        })
   }"

definition on_unregister_protocol :: "'tk mp_env \<Rightarrow> 'n \<Rightarrow> ('pt, 'pk, 'n, 't, 'ct, 'k, 'wt, 'w) mn_protocols
    \<Rightarrow> ('pt, 'pk, 'n, 't, 'ct, 'k, 'wt, 'w, 'tk) mp_result" where
  "on_unregister_protocol env name s = (
     let (reply_with, pg) = unregister_protocol name (me_in_use env) (mp_registry s)
     in Some ([], Some (s\<lparr>mp_registry := pg\<rparr>, Some (UnregisterProtocolResponse reply_with))))"

definition on_register_opaque :: "('pt, 'pk, 'n, 't, 'ct, 'k, 'wt, 'w, 'tk) mp_ops \<Rightarrow> 'n \<Rightarrow> ('pt, 'pk, 'n, 't, 'ct, 'k, 'wt, 'w) mn_protocols
    \<Rightarrow> ('pt, 'pk, 'n, 't, 'ct, 'k, 'wt, 'w, 'tk) mp_result" where
  "on_register_opaque ops name s = do {
     (key, pg) \<leftarrow> register_message (op_codec ops) (Opaque name) (mp_registry s);
     Some ([], Some (s\<lparr>mp_registry := pg\<rparr>, Some (RegisterOpaqueMessageResponse key)))
   }"

definition on_get_message_name :: "('pt, 'pk, 'n, 't, 'ct, 'k, 'wt, 'w, 'tk) mp_ops \<Rightarrow> 'k \<Rightarrow> ('pt, 'pk, 'n, 't, 'ct, 'k, 'wt, 'w) mn_protocols
    \<Rightarrow> ('pt, 'pk, 'n, 't, 'ct, 'k, 'wt, 'w, 'tk) mp_result" where
  "on_get_message_name ops key s = do {
     name \<leftarrow> message_name_by_key (op_codec ops) key (mp_registry s);
     Some ([], Some (s, Some (GetMessageNameResponse name)))
   }"

definition on_get_protocol_by_name :: "('pt, 'pk, 'n::linorder, 't, 'ct, 'k, 'wt, 'w::linorder, 'tk) mp_ops \<Rightarrow> 'tk mp_env
    \<Rightarrow> request_header \<Rightarrow> 'n \<Rightarrow> duration option \<Rightarrow> ('pt, 'pk, 'n, 't, 'ct, 'k, 'wt, 'w) mn_protocols
    \<Rightarrow> ('pt, 'pk, 'n, 't, 'ct, 'k, 'wt, 'w, 'tk) mp_result" where
  "on_get_protocol_by_name ops env reply_to name timeout_opt s = (case (protocol_by_name name (mp_registry s), timeout_opt) of
     (Some protocol, _) \<Rightarrow> do {
       (outbound, pg) \<leftarrow> register_named (op_codec ops) (outbound_types (op_protocol ops) protocol) (mp_registry s);
       (inbound, pg) \<leftarrow> register_named (op_codec ops) (inbound_types (op_protocol ops) protocol) pg;
       Some ([], Some (s\<lparr>mp_registry := pg\<rparr>, Some (GetProtocolByNameResponse
         (Some \<lparr>rv_protocol = protocol, rv_outbound = outbound, rv_inbound = inbound\<rparr>))))
     }
   | (None, None) \<Rightarrow> Some ([], Some (s, Some (GetProtocolByNameResponse None)))
   | (None, Some timeout) \<Rightarrow> (
       let wl = mp_waitlist s;
           e = \<lparr>we_protocol = name, we_reply_to = reply_to, we_timer_key = None\<rparr>;
           (waitlist_key, entries) = sm_insert (op_wait ops) (wl_entries wl) e
       in case me_scheduled env of
            None \<Rightarrow> Some ([ScheduleTimeout timeout waitlist_key], None)
          | Some timer_key \<Rightarrow> do {
              _ \<leftarrow> sm_get (op_wait ops) entries waitlist_key;
              assert_that ((name, Some waitlist_key) \<notin> set (wl_by_protocol wl));
              Some ([ScheduleTimeout timeout waitlist_key], Some (s\<lparr>mp_waitlist := \<lparr>
                wl_entries = sm_put (op_wait ops) entries waitlist_key (e\<lparr>we_timer_key := Some timer_key\<rparr>),
                wl_by_protocol = btree_insert (name, Some waitlist_key) (wl_by_protocol wl)\<rparr>\<rparr>, None))
            }))"

definition on_resolve_type_id :: "'t \<Rightarrow> ('pt, 'pk, 'n, 't, 'ct, 'k, 'wt, 'w) mn_protocols \<Rightarrow> ('pt, 'pk, 'n, 't, 'ct, 'k, 'wt, 'w, 'tk) mp_result" where
  "on_resolve_type_id type_id s = Some ([], Some (s, Some (ResolveTypeIdResponse (local_type_key_by_tid type_id (mp_registry s)))))"

definition on_waitlist_timeout :: "('pt, 'pk, 'n, 't, 'ct, 'k, 'wt, 'w, 'tk) mp_ops \<Rightarrow> 'w \<Rightarrow> ('pt, 'pk, 'n, 't, 'ct, 'k, 'wt, 'w) mn_protocols
    \<Rightarrow> ('pt, 'pk, 'n, 't, 'ct, 'k, 'wt, 'w, 'tk) mp_result" where
  "on_waitlist_timeout ops waitlist_key s = (case sm_get (op_wait ops) (wl_entries (mp_waitlist s)) waitlist_key of
     None \<Rightarrow> Some ([], Some (s, None))
   | Some e \<Rightarrow> do {
       assert_that (protocol_by_name (we_protocol e) (mp_registry s) = None);
       assert_that ((we_protocol e, Some waitlist_key) \<in> set (wl_by_protocol (mp_waitlist s)));
       Some ([MpReply (we_reply_to e) (GetProtocolByNameResponse None)], Some (s\<lparr>mp_waitlist := \<lparr>
         wl_entries = sm_remove (op_wait ops) (wl_entries (mp_waitlist s)) waitlist_key,
         wl_by_protocol = removeAll (we_protocol e, Some waitlist_key) (wl_by_protocol (mp_waitlist s))\<rparr>\<rparr>, None))
     })"

fun mp_handle :: "('pt, 'pk, 'n::linorder, 't, 'ct, 'k, 'wt, 'w::linorder, 'tk) mp_ops \<Rightarrow> 'tk mp_env \<Rightarrow> net_address list
    \<Rightarrow> ('pt, 'pk, 'n, 't, 'k, 'w) mp_input \<Rightarrow> ('pt, 'pk, 'n, 't, 'ct, 'k, 'wt, 'w) mn_protocols
    \<Rightarrow> ('pt, 'pk, 'n, 't, 'ct, 'k, 'wt, 'w, 'tk) mp_result" where
  "mp_handle ops env subnets (MpRequest reply_to (RegisterProtocolRequest name protocol)) s =
     on_register_protocol ops env subnets reply_to name protocol s"
| "mp_handle ops env subnets (MpRequest reply_to (UnregisterProtocolRequest name)) s = on_unregister_protocol env name s"
| "mp_handle ops env subnets (MpRequest reply_to (RegisterOpaqueMessageRequest name)) s = on_register_opaque ops name s"
| "mp_handle ops env subnets (MpRequest reply_to (GetMessageNameRequest key)) s = on_get_message_name ops key s"
| "mp_handle ops env subnets (MpRequest reply_to (GetProtocolByNameRequest name timeout_opt)) s =
     on_get_protocol_by_name ops env reply_to name timeout_opt s"
| "mp_handle ops env subnets (MpRequest reply_to (ResolveTypeIdRequest type_id)) s = on_resolve_type_id type_id s"
| "mp_handle ops env subnets (WaitlistTimeoutElapsed waitlist_key) s = on_waitlist_timeout ops waitlist_key s"

end
