(* ===== verification/Multinode_Waitlist.thy ===== *)
theory Multinode_Waitlist
  imports Multinode_Protocols "HOL-Library.Multiset"
begin

text \<open>
  What the manager's requests about protocols promise: nothing panics, and everyone who waits for a protocol is
  answered once.
\<close>

section \<open>The values of a slot map\<close>

definition slot_values :: "('t, 'k, 'v) slot_ops \<Rightarrow> 't \<Rightarrow> 'v multiset" where
  "slot_values sm t = mset (map snd (sm_iter sm t))"

lemma slot_values_graph:
  assumes "slot_laws sm"
  shows "slot_values sm t = image_mset snd (mset_set (Map.graph (sm_get sm t)))" "finite (Map.graph (sm_get sm t))"
proof -
  have "set (sm_iter sm t) = Map.graph (sm_get sm t)"
    using slot_iter(1) [OF assms] by (auto simp: Map.graph_def)
  moreover have "distinct (sm_iter sm t)" using slot_iter(2) [OF assms] by (simp add: distinct_map)
  ultimately show "slot_values sm t = image_mset snd (mset_set (Map.graph (sm_get sm t)))" "finite (Map.graph (sm_get sm t))"
    unfolding slot_values_def by (metis mset_map mset_set_set, metis List.finite_set)
qed

lemma graph_fresh: "m k = None \<Longrightarrow> Map.graph (m(k \<mapsto> v)) = insert (k, v) (Map.graph m) \<and> (k, v) \<notin> Map.graph m"
  by (auto simp: Map.graph_def split: if_splits)

lemma slot_values_new: "slot_laws sm \<Longrightarrow> slot_values sm (sm_new sm) = {#}"
  using slot_values_graph(1) [of sm "sm_new sm"] by (simp add: slot_new)

lemma slot_values_insert:
  assumes "slot_laws sm" "sm_insert sm t v = (k, t')"
  shows "slot_values sm t' = add_mset v (slot_values sm t)"
  using slot_values_graph [OF assms(1)] slot_insert [OF assms] graph_fresh [of "sm_get sm t" k v] by simp

lemma slot_values_remove:
  assumes "slot_laws sm" "sm_get sm t k = Some v"
  shows "slot_values sm t = add_mset v (slot_values sm (sm_remove sm t k))"
proof -
  let ?t = "sm_remove sm t k"
  have get: "sm_get sm ?t = (sm_get sm t)(k := None)" by (rule slot_remove [OF assms(1)])
  then have "sm_get sm t = (sm_get sm ?t)(k \<mapsto> v)" using assms(2) by (simp add: fun_upd_idem)
  then have "Map.graph (sm_get sm t) = insert (k, v) (Map.graph (sm_get sm ?t))" "(k, v) \<notin> Map.graph (sm_get sm ?t)"
    using graph_fresh [of "sm_get sm ?t" k v] get by auto
  then show ?thesis using slot_values_graph [OF assms(1)] by simp
qed

lemma slot_values_put:
  assumes "slot_laws sm" "sm_get sm t k = Some v"
  shows "add_mset v (slot_values sm (sm_put sm t k w)) = add_mset w (slot_values sm t)"
proof -
  let ?t = "sm_remove sm t k" and ?p = "sm_put sm t k w"
  have p: "sm_get sm ?p = (sm_get sm t)(k \<mapsto> w)" by (rule slot_put [OF assms])
  have "sm_get sm (sm_remove sm ?p k) = sm_get sm ?t" by (simp add: slot_remove [OF assms(1)] p)
  then have "slot_values sm (sm_remove sm ?p k) = slot_values sm ?t" by (simp add: slot_values_graph(1) [OF assms(1)])
  then show ?thesis using slot_values_remove [OF assms] slot_values_remove [OF assms(1), of ?p k w] p by simp
qed

section \<open>The waitlist\<close>

definition waitlist_inv :: "('wt, 'w::linorder, ('n::linorder, 'tk) waitlist_entry) slot_ops \<Rightarrow> ('wt, 'n, 'w) waitlist \<Rightarrow> bool" where
  "waitlist_inv sm wl \<longleftrightarrow> sorted (wl_by_protocol wl)
     \<and> (\<forall>n w. (n, Some w) \<in> set (wl_by_protocol wl) \<longleftrightarrow> (\<exists>e. sm_get sm (wl_entries wl) w = Some e \<and> we_protocol e = n))
     \<and> (\<forall>n. (n, None) \<notin> set (wl_by_protocol wl))
     \<and> (\<forall>w e. sm_get sm (wl_entries wl) w = Some e \<longrightarrow> we_timer_key e \<noteq> None)"

lemma waitlist_invD:
  assumes "waitlist_inv sm wl"
  shows "sorted (wl_by_protocol wl)"
    "(n, Some w) \<in> set (wl_by_protocol wl) \<longleftrightarrow> (\<exists>e. sm_get sm (wl_entries wl) w = Some e \<and> we_protocol e = n)"
    "sm_get sm (wl_entries wl) w = Some e \<Longrightarrow> we_timer_key e \<noteq> None" "(n, None) \<notin> set (wl_by_protocol wl)"
  using assms unfolding waitlist_inv_def by blast+

definition waitlist_waiting :: "('wt, 'w, ('n, 'tk) waitlist_entry) slot_ops \<Rightarrow> ('wt, 'n, 'w) waitlist \<Rightarrow> request_header multiset" where
  "waitlist_waiting sm wl = image_mset we_reply_to (slot_values sm (wl_entries wl))"

lemma waitlist_remove:
  assumes sm: "slot_laws sm" and inv: "waitlist_inv sm wl" and e: "sm_get sm (wl_entries wl) w = Some e"
    and wl': "wl' = \<lparr>wl_entries = sm_remove sm (wl_entries wl) w, wl_by_protocol = removeAll (we_protocol e, Some w) (wl_by_protocol wl)\<rparr>"
  shows "waitlist_inv sm wl'" and "waitlist_waiting sm wl = add_mset (we_reply_to e) (waitlist_waiting sm wl')"
  using waitlist_invD [OF inv] e slot_values_remove [OF sm e]
  unfolding waitlist_inv_def waitlist_waiting_def wl' by (auto simp: slot_remove [OF sm] sorted_removeAll)

lemma waitlist_add:
  assumes sm: "slot_laws sm" and inv: "waitlist_inv sm wl" and ins: "sm_insert sm (wl_entries wl) e = (w, t)"
    and e': "e' = e\<lparr>we_timer_key := Some tk\<rparr>"
    and wl': "wl' = \<lparr>wl_entries = sm_put sm t w e', wl_by_protocol = btree_insert (we_protocol e, Some w) (wl_by_protocol wl)\<rparr>"
  shows "waitlist_inv sm wl'"
    and "waitlist_waiting sm wl' = add_mset (we_reply_to e) (waitlist_waiting sm wl)"
    and "(we_protocol e, Some w) \<notin> set (wl_by_protocol wl)" and "sm_get sm t w = Some e"
    and "sm_get sm (wl_entries wl') = (sm_get sm (wl_entries wl))(w \<mapsto> e')"
proof -
  note slot = slot_insert [OF sm ins]
  have fields: "we_protocol e' = we_protocol e" "we_timer_key e' = Some tk" "we_reply_to e' = we_reply_to e" by (simp_all add: e')
  show get: "sm_get sm t w = Some e" by (simp add: slot(2))
  have put: "sm_get sm (sm_put sm t w e') = (sm_get sm (wl_entries wl))(w \<mapsto> e')" by (simp add: slot_put [OF sm get] slot(2))
  then show "sm_get sm (wl_entries wl') = (sm_get sm (wl_entries wl))(w \<mapsto> e')" by (simp add: wl')
  show "(we_protocol e, Some w) \<notin> set (wl_by_protocol wl)" using waitlist_invD(2) [OF inv] slot(1) by auto
  show "waitlist_inv sm wl'"
    unfolding waitlist_inv_def using waitlist_invD [OF inv] slot(1) fields by (auto simp: wl' put btree_insert_sorted)
  have "add_mset e (slot_values sm (sm_put sm t w e')) = add_mset e' (add_mset e (slot_values sm (wl_entries wl)))"
    using slot_values_put [OF sm get, of e'] slot_values_insert [OF sm ins] by simp
  then have "slot_values sm (sm_put sm t w e') = add_mset e' (slot_values sm (wl_entries wl))"
    by (metis add_mset_add_single add_mset_commute add_right_cancel)
  then show "waitlist_waiting sm wl' = add_mset (we_reply_to e) (waitlist_waiting sm wl)"
    by (simp add: wl' waitlist_waiting_def fields)
qed

lemma next_waiting_inv:
  assumes inv: "waitlist_inv sm wl"
  shows "next_waiting name (wl_by_protocol wl) = None \<Longrightarrow> (name, k) \<notin> set (wl_by_protocol wl)"
    and "next_waiting name (wl_by_protocol wl) = Some x \<Longrightarrow> fst x = name \<and> x \<in> set (wl_by_protocol wl)"
proof -
  let ?by = "wl_by_protocol wl" and ?from = "filter (\<lambda>x. (name, None) \<le> x) (wl_by_protocol wl)"
  have keys: "snd x \<noteq> None" if "x \<in> set ?by" for x
    using waitlist_invD(4) [OF inv, of "fst x"] that by (metis prod.collapse)
  then have "\<forall>x\<in>set ?from. snd x \<noteq> None" by simp
  then have drop: "dropWhile (\<lambda>x. snd x = None) ?from = ?from"
    unfolding dropWhile_eq_self_iff by (metis hd_in_set)
  have next_w: "next_waiting name ?by = (case ?from of [] \<Rightarrow> None | x # _ \<Rightarrow> if fst x = name then Some x else None)"
    unfolding next_waiting_def drop ..
  show "fst x = name \<and> x \<in> set ?by" if "next_waiting name ?by = Some x"
  proof (cases ?from)
    case (Cons y ys)
    then have "y \<in> set ?from" by simp
    then have "y \<in> set ?by" by simp
    then show ?thesis using that Cons unfolding next_w by (simp split: if_splits)
  qed (use that next_w in simp)
  show "(name, k) \<notin> set ?by" if none: "next_waiting name ?by = None"
  proof
    assume k: "(name, k) \<in> set ?by"
    then have "(name, k) \<in> set ?from" by (simp add: less_eq_prod_def)
    then obtain y ys where from_y: "?from = y # ys" by (cases ?from) auto
    have "sorted ?from" using waitlist_invD(1) [OF inv] by (rule sorted_filter [where f = id, simplified])
    then have "y \<le> (name, k)" using \<open>(name, k) \<in> set ?from\<close> from_y by auto
    moreover have "y \<in> set ?from" using from_y by simp
    then have "(name, None) \<le> y" by simp
    ultimately have "fst y = name" by (cases y) (auto simp: less_eq_prod_def)
    then show False using none from_y unfolding next_w by simp
  qed
qed

lemma waitlist_drain_ok:
  assumes sm: "slot_laws sm" and "waitlist_inv sm wl"
  shows "\<exists>hits wl'. waitlist_drain sm name wl = Some (hits, wl') \<and> waitlist_inv sm wl'
    \<and> (\<forall>w e. sm_get sm (wl_entries wl') w = Some e \<longleftrightarrow> sm_get sm (wl_entries wl) w = Some e \<and> we_protocol e \<noteq> name)
    \<and> waitlist_waiting sm wl = mset (map snd hits) + waitlist_waiting sm wl'"
  using assms(2)
proof (induction "length (wl_by_protocol wl)" arbitrary: wl rule: less_induct)
  case less
  note inv = less.prems
  show ?case
  proof (cases "next_waiting name (wl_by_protocol wl)")
    case None
    then have "we_protocol e \<noteq> name" if "sm_get sm (wl_entries wl) w = Some e" for w e
      using next_waiting_inv(1) [OF inv None] waitlist_invD(2) [OF inv] that by blast
    then show ?thesis using None inv by (subst waitlist_drain.simps) auto
  next
    case (Some x)
    then obtain w e where x: "x = (name, Some w)" "x \<in> set (wl_by_protocol wl)" "sm_get sm (wl_entries wl) w = Some e" "we_protocol e = name"
      using next_waiting_inv(2) [OF inv Some] waitlist_invD(2,4) [OF inv] by (cases x; cases "snd x") auto
    obtain tk where tk: "we_timer_key e = Some tk" using waitlist_invD(3) [OF inv x(3)] by auto
    let ?wl = "\<lparr>wl_entries = sm_remove sm (wl_entries wl) w, wl_by_protocol = removeAll (we_protocol e, Some w) (wl_by_protocol wl)\<rparr>"
    note rem = waitlist_remove [OF sm inv x(3) refl]
    have "length (wl_by_protocol ?wl) < length (wl_by_protocol wl)"
      using x by (simp add: length_removeAll_less)
    from less.hyps [OF this rem(1)] obtain hits wl' where IH: "waitlist_drain sm name ?wl = Some (hits, wl')" "waitlist_inv sm wl'"
      "\<forall>v d. sm_get sm (wl_entries wl') v = Some d \<longleftrightarrow> sm_get sm (wl_entries ?wl) v = Some d \<and> we_protocol d \<noteq> name"
      "waitlist_waiting sm ?wl = mset (map snd hits) + waitlist_waiting sm wl'" by blast
    have "waitlist_drain sm name wl = Some ((tk, we_reply_to e) # hits, wl')"
      using Some x(1,3) tk IH(1) by (subst waitlist_drain.simps) simp
    then show ?thesis using IH(2-4) rem(2) x(3,4) by (auto simp: slot_remove [OF sm] split: if_splits)
  qed
qed

section \<open>Requests\<close>

definition mp_inv :: "('pt, 'pk, 'n::linorder, 't, 'ct, 'k, 'wt, 'w::linorder, 'tk) mp_ops \<Rightarrow> ('t \<Rightarrow> 'n)
    \<Rightarrow> ('pt, 'pk, 'n, 't, 'ct, 'k, 'wt, 'w) mn_protocols \<Rightarrow> bool" where
  "mp_inv ops type_name s \<longleftrightarrow> registry_inv (op_codec ops) type_name (mp_registry s) \<and> waitlist_inv (op_wait ops) (mp_waitlist s)
     \<and> (\<forall>w e. sm_get (op_wait ops) (wl_entries (mp_waitlist s)) w = Some e \<longrightarrow> pg_protocols (mp_registry s) (we_protocol e) = None)
     \<and> (\<forall>n p. pg_protocols (mp_registry s) n = Some p \<longrightarrow> known_protocol (op_protocol ops) type_name p)"

lemma mp_invD:
  assumes "mp_inv ops type_name s"
  shows "registry_inv (op_codec ops) type_name (mp_registry s)" "waitlist_inv (op_wait ops) (mp_waitlist s)"
    "sm_get (op_wait ops) (wl_entries (mp_waitlist s)) w = Some e \<Longrightarrow> pg_protocols (mp_registry s) (we_protocol e) = None"
    "pg_protocols (mp_registry s) n = Some p \<Longrightarrow> known_protocol (op_protocol ops) type_name p"
  using assms unfolding mp_inv_def by blast+

definition mp_laws :: "('pt, 'pk, 'n, 't, 'ct, 'k, 'wt, 'w, 'tk) mp_ops \<Rightarrow> bool" where
  "mp_laws ops \<longleftrightarrow> slot_laws (op_protocol ops) \<and> slot_laws (op_codec ops) \<and> slot_laws (op_wait ops)"

definition waiting :: "('pt, 'pk, 'n, 't, 'ct, 'k, 'wt, 'w, 'tk) mp_ops \<Rightarrow> ('pt, 'pk, 'n, 't, 'ct, 'k, 'wt, 'w) mn_protocols
    \<Rightarrow> request_header multiset" where
  "waiting ops s = waitlist_waiting (op_wait ops) (mp_waitlist s)"

fun asked :: "('pt, 'pk, 'n, 't, 'k, 'w) mp_input \<Rightarrow> request_header multiset" where
  "asked (MpRequest reply_to (GetProtocolByNameRequest _ _)) = {#reply_to#}"
| "asked _ = {#}"

fun resolved_to :: "('pt, 'pk, 'n, 't, 'k, 'w, 'tk) mp_effect \<Rightarrow> request_header option" where
  "resolved_to (MpReply reply_to (GetProtocolByNameResponse _)) = Some reply_to"
| "resolved_to _ = None"

definition answered :: "('pt, 'pk, 'n, 't, 'k, 'w) mp_input \<Rightarrow> ('pt, 'pk, 'n, 't, 'k, 'w, 'tk) mp_effect list
    \<Rightarrow> ('pt, 'pk, 'n, 't, 'k) mp_response option \<Rightarrow> request_header multiset" where
  "answered input effs resp = mset (List.map_filter resolved_to effs)
     + (case resp of Some (GetProtocolByNameResponse _) \<Rightarrow> asked input | _ \<Rightarrow> {#})"

fun input_ok :: "('pt, 'pk, 'n, 't, 'ct, 'k, 'wt, 'w, 'tk) mp_ops \<Rightarrow> ('t \<Rightarrow> 'n) \<Rightarrow> ('pt, 'pk, 'n, 't, 'ct, 'k, 'wt, 'w) mn_protocols
    \<Rightarrow> ('pt, 'pk, 'n, 't, 'k, 'w) mp_input \<Rightarrow> bool" where
  "input_ok ops type_name s (MpRequest _ (RegisterProtocolRequest _ protocol)) = known_protocol (op_protocol ops) type_name protocol"
| "input_ok ops type_name s (MpRequest _ (GetMessageNameRequest key)) = (\<exists>n. pg_by_name (mp_registry s) n = Some key)"
| "input_ok ops type_name s _ = True"

lemma map_filter_append: "List.map_filter f (xs @ ys) = List.map_filter f xs @ List.map_filter f ys"
  by (simp add: List.map_filter_def)

lemma register_named_ok:
  assumes sm: "slot_laws sm" and "registry_inv sm type_name pg" "\<forall>c\<in>set cs. codec_ok type_name c"
  shows "\<exists>keys pg'. register_named sm cs pg = Some (keys, pg') \<and> registry_inv sm type_name pg' \<and> pg_protocols pg' = pg_protocols pg
    \<and> pg_by_name pg \<subseteq>\<^sub>m pg_by_name pg'"
  using assms(2,3)
proof (induction cs arbitrary: pg)
  case (Cons c cs)
  obtain k pg1 where 1: "register_message sm c pg = Some (k, pg1)" "registry_inv sm type_name pg1" "pg_protocols pg1 = pg_protocols pg"
      "pg_by_name pg \<subseteq>\<^sub>m pg_by_name pg1"
    using register_message_ok [OF sm Cons.prems(1), of c] Cons.prems(2) by auto
  then show ?case using Cons.IH [OF 1(2)] Cons.prems(2) map_le_trans [OF 1(4)] by fastforce
qed simp

lemma send_all_quiet:
  "(\<And>e. e \<in> set es \<Longrightarrow> resolved_to e = None) \<Longrightarrow> List.map_filter resolved_to (fst (send_all ok es)) = []"
  by (induction es arbitrary: ok) (auto simp: List.map_filter_simps)

lemma announce_inbound_ok:
  fixes pg :: "('pt, 'pk, 'n, 't, 'ct, 'k) protocol_registry"
  assumes sm: "slot_laws sm" and "registry_inv sm type_name pg" "\<forall>c\<in>set cs. codec_ok type_name c"
  shows "\<exists>effs r. (announce_inbound sm ok nets cs pg :: (('pt, 'pk, 'n, 't, 'k, 'w, 'tk) mp_effect list \<times> _) panics) = Some (effs, r) \<and> List.map_filter resolved_to effs = []
    \<and> (\<forall>pg'. r = Some pg' \<longrightarrow> registry_inv sm type_name pg' \<and> pg_protocols pg' = pg_protocols pg)"
  using assms(2,3)
proof (induction cs arbitrary: pg ok)
  case (Cons c cs)
  obtain k pg1 where 1: "register_message sm c pg = Some (k, pg1)" "registry_inv sm type_name pg1" "pg_protocols pg1 = pg_protocols pg"
    using register_message_ok [OF sm Cons.prems(1), of c] Cons.prems(2) by auto
  let ?tells = "map (\<lambda>net. TellSelf (local_route k net) :: ('pt, 'pk, 'n, 't, 'k, 'w, 'tk) mp_effect) nets"
  obtain es sent where 2: "send_all ok ?tells = (es, sent)" by fastforce
  have "List.map_filter resolved_to (fst (send_all ok ?tells)) = []" by (rule send_all_quiet) auto
  then have quiet: "List.map_filter resolved_to es = []" using 2 by simp
  have cs: "\<forall>c\<in>set cs. codec_ok type_name c" using Cons.prems(2) by simp
  obtain effs r where IH: "announce_inbound sm (\<lambda>i. ok (length es + i)) nets cs pg1 = Some (effs :: ('pt, 'pk, 'n, 't, 'k, 'w, 'tk) mp_effect list, r)" "List.map_filter resolved_to effs = []"
    "\<forall>pg'. r = Some pg' \<longrightarrow> registry_inv sm type_name pg' \<and> pg_protocols pg' = pg_protocols pg1"
    using Cons.IH [OF 1(2) cs, of "\<lambda>i. ok (length es + i)"] by blast
  have step: "announce_inbound sm ok nets (c # cs) pg = Some (if sent then (es @ effs, r) else (es, None))"
    using 1(1) 2 IH(1) by simp
  have both: "List.map_filter resolved_to (es @ effs) = []" unfolding map_filter_append quiet IH(2) by simp
  show ?case
  proof (cases sent)
    case True
    then have "announce_inbound sm ok nets (c # cs) pg = Some (es @ effs, r)" unfolding step by simp
    then show ?thesis using both IH(3) unfolding 1(3) by blast
  next
    case False
    then have "announce_inbound sm ok nets (c # cs) pg = Some (es, None)" unfolding step by simp
    then show ?thesis using quiet by blast
  qed
next
  case Nil
  then show ?case by (auto simp: List.map_filter_def)
qed

lemma answer_hits_all:
  "snd (answer_hits ok resolved hits) \<Longrightarrow> List.map_filter resolved_to (fst (answer_hits ok resolved hits)) = map snd hits"
  by (induction ok resolved hits rule: answer_hits.induct) (auto simp: List.map_filter_simps split: if_splits)

definition handled :: "('pt, 'pk, 'n::linorder, 't, 'ct, 'k, 'wt, 'w::linorder, 'tk) mp_ops \<Rightarrow> ('t \<Rightarrow> 'n) \<Rightarrow> ('pt, 'pk, 'n, 't, 'k, 'w) mp_input
    \<Rightarrow> ('pt, 'pk, 'n, 't, 'ct, 'k, 'wt, 'w) mn_protocols \<Rightarrow> ('pt, 'pk, 'n, 't, 'ct, 'k, 'wt, 'w, 'tk) mp_result \<Rightarrow> bool" where
  "handled ops type_name input s res \<longleftrightarrow> (\<exists>effs r. res = Some (effs, r)
     \<and> (\<forall>s' resp. r = Some (s', resp) \<longrightarrow> mp_inv ops type_name s'
         \<and> waiting ops s + asked input = waiting ops s' + answered input effs resp))"

lemma handledI:
  assumes "res = Some (effs, r)"
    "\<And>s' resp. r = Some (s', resp) \<Longrightarrow> mp_inv ops type_name s'"
    "\<And>s' resp. r = Some (s', resp) \<Longrightarrow> waiting ops s + asked input = waiting ops s' + answered input effs resp"
  shows "handled ops type_name input s res"
  unfolding handled_def by (rule exI [of _ effs], rule exI [of _ r]) (use assms in simp)

lemma mp_inv_registry:
  assumes "mp_inv ops type_name s" "registry_inv (op_codec ops) type_name pg" "pg_protocols pg = pg_protocols (mp_registry s)"
  shows "mp_inv ops type_name (s\<lparr>mp_registry := pg\<rparr>)" "waiting ops (s\<lparr>mp_registry := pg\<rparr>) = waiting ops s"
  using assms by (simp_all add: mp_inv_def waiting_def)

lemma register_protocol_handled:
  fixes ops :: "('pt, 'pk, 'n::linorder, 't, 'ct, 'k, 'wt, 'w::linorder, 'tk) mp_ops"
  assumes laws: "mp_laws ops" and inv: "mp_inv ops type_name s" and p: "known_protocol (op_protocol ops) type_name protocol"
  shows "handled ops type_name (MpRequest reply_to (RegisterProtocolRequest name protocol)) s (on_register_protocol ops env nets reply_to name protocol s)"
proof -
  have sm: "slot_laws (op_protocol ops)" "slot_laws (op_codec ops)" "slot_laws (op_wait ops)" using laws by (simp_all add: mp_laws_def)
  note D = mp_invD [OF inv]
  have types: "\<forall>c\<in>set (outbound_types (op_protocol ops) protocol). codec_ok type_name c"
    "\<forall>c\<in>set (inbound_types (op_protocol ops) protocol). codec_ok type_name c"
    using known_protocol_types [OF sm(1) p] by auto
  obtain r pg where reg: "register_protocol (op_protocol ops) (op_codec ops) name protocol (mp_registry s) = Some (r, pg)"
    "registry_inv (op_codec ops) type_name pg" "r = Inr () \<longleftrightarrow> pg_protocols (mp_registry s) name = None"
    "pg_protocols pg = (if r = Inr () then (pg_protocols (mp_registry s))(name \<mapsto> protocol) else pg_protocols (mp_registry s))"
    using register_protocol_ok [OF sm(1,2) D(1) p] by blast
  obtain hits wl where wl: "(case r of Inl _ \<Rightarrow> Some ([], mp_waitlist s) | Inr _ \<Rightarrow> waitlist_drain (op_wait ops) name (mp_waitlist s)) = Some (hits, wl)"
    "waitlist_inv (op_wait ops) wl" "waiting ops s = mset (map snd hits) + waitlist_waiting (op_wait ops) wl"
    "\<forall>w e. sm_get (op_wait ops) (wl_entries wl) w = Some e \<longrightarrow> sm_get (op_wait ops) (wl_entries (mp_waitlist s)) w = Some e \<and> (r = Inr () \<longrightarrow> we_protocol e \<noteq> name)"
    using waitlist_drain_ok [OF sm(3) D(2), of name] D(2) by (cases r) (auto simp: waiting_def)
  obtain told a where ann: "announce_inbound (op_codec ops) (me_told env) nets (inbound_types (op_protocol ops) protocol) pg = Some (told :: ('pt, 'pk, 'n, 't, 'k, 'w, 'tk) mp_effect list, a)"
    "List.map_filter resolved_to told = []" "\<forall>pg'. a = Some pg' \<longrightarrow> registry_inv (op_codec ops) type_name pg' \<and> pg_protocols pg' = pg_protocols pg"
    using announce_inbound_ok [OF sm(2) reg(2) types(2)] by blast
  show ?thesis
  proof (cases a)
    case None
    then have "on_register_protocol ops env nets reply_to name protocol s = Some (told, None)"
      unfolding on_register_protocol_def reg(1) by (simp add: wl(1) ann(1))
    then show ?thesis by (rule handledI) simp_all
  next
    case (Some pg1)
    have 1: "registry_inv (op_codec ops) type_name pg1" "pg_protocols pg1 = pg_protocols pg" using ann(3) Some by simp_all
    obtain outb pg2 where 2: "register_named (op_codec ops) (outbound_types (op_protocol ops) protocol) pg1 = Some (outb, pg2)"
      "registry_inv (op_codec ops) type_name pg2" "pg_protocols pg2 = pg_protocols pg"
      using register_named_ok [OF sm(2) 1(1) types(1)] unfolding 1(2) by blast
    obtain inb pg3 where 3: "register_named (op_codec ops) (inbound_types (op_protocol ops) protocol) pg2 = Some (inb, pg3)"
      "registry_inv (op_codec ops) type_name pg3" "pg_protocols pg3 = pg_protocols pg"
      using register_named_ok [OF sm(2) 2(2) types(2)] unfolding 2(3) by blast
    let ?hits = "answer_hits (me_cancelled env) \<lparr>rv_protocol = protocol, rv_outbound = outb, rv_inbound = inb\<rparr> hits :: ('pt, 'pk, 'n, 't, 'k, 'w, 'tk) mp_effect list \<times> bool"
    let ?effs = "told @ [MpReply reply_to (RegisterProtocolResponse r)] @ fst ?hits"
    let ?s = "\<lparr>mp_registry = pg3, mp_waitlist = wl\<rparr>"
    have res: "on_register_protocol ops env nets reply_to name protocol s = Some (?effs, if snd ?hits then Some (?s, None) else None)"
      unfolding on_register_protocol_def reg(1) using Some by (simp add: wl(1) ann(1) 2(1) 3(1) split_def Let_def)
    have inv': "mp_inv ops type_name ?s"
      unfolding mp_inv_def using 3(2,3) wl(2,4) reg(3,4) D(3,4) p by auto
    have "answered (MpRequest reply_to (RegisterProtocolRequest name protocol)) ?effs None = mset (map snd hits)" if "snd ?hits"
      unfolding answered_def map_filter_append ann(2) answer_hits_all [OF that] by (simp add: List.map_filter_simps)
    then show ?thesis by (intro handledI [OF res]) (use inv' wl(3) in \<open>auto simp: waiting_def split: if_splits\<close>)
  qed
qed

lemma get_protocol_handled:
  fixes ops :: "('pt, 'pk, 'n::linorder, 't, 'ct, 'k, 'wt, 'w::linorder, 'tk) mp_ops"
  assumes laws: "mp_laws ops" and inv: "mp_inv ops type_name s"
  shows "handled ops type_name (MpRequest reply_to (GetProtocolByNameRequest name timeout_opt)) s (on_get_protocol_by_name ops env reply_to name timeout_opt s)"
proof -
  have sm: "slot_laws (op_protocol ops)" "slot_laws (op_codec ops)" "slot_laws (op_wait ops)" using laws by (simp_all add: mp_laws_def)
  note D = mp_invD [OF inv]
  show ?thesis
  proof (cases "pg_protocols (mp_registry s) name")
    case (Some p)
    have types: "\<forall>c\<in>set (outbound_types (op_protocol ops) p). codec_ok type_name c" "\<forall>c\<in>set (inbound_types (op_protocol ops) p). codec_ok type_name c"
      using known_protocol_types [OF sm(1) D(4) [OF Some]] by auto
    obtain outb pg2 where 2: "register_named (op_codec ops) (outbound_types (op_protocol ops) p) (mp_registry s) = Some (outb, pg2)"
      "registry_inv (op_codec ops) type_name pg2" "pg_protocols pg2 = pg_protocols (mp_registry s)"
      using register_named_ok [OF sm(2) D(1) types(1)] by blast
    obtain inb pg3 where 3: "register_named (op_codec ops) (inbound_types (op_protocol ops) p) pg2 = Some (inb, pg3)"
      "registry_inv (op_codec ops) type_name pg3" "pg_protocols pg3 = pg_protocols (mp_registry s)"
      using register_named_ok [OF sm(2) 2(2) types(2)] unfolding 2(3) by blast
    have "on_get_protocol_by_name ops env reply_to name timeout_opt s = Some ([], Some (s\<lparr>mp_registry := pg3\<rparr>, Some (GetProtocolByNameResponse
         (Some \<lparr>rv_protocol = p, rv_outbound = outb, rv_inbound = inb\<rparr>))))"
      by (simp add: on_get_protocol_by_name_def protocol_by_name_def Some 2(1) 3(1))
    then show ?thesis
      by (rule handledI) (use mp_inv_registry [OF inv 3(2,3)] in \<open>auto simp: answered_def List.map_filter_simps\<close>)
  next
    case None
    show ?thesis
    proof (cases timeout_opt)
      case no: None
      have "on_get_protocol_by_name ops env reply_to name timeout_opt s = Some ([], Some (s, Some (GetProtocolByNameResponse None)))"
        by (simp add: on_get_protocol_by_name_def protocol_by_name_def None no)
      then show ?thesis by (rule handledI) (use inv in \<open>auto simp: answered_def List.map_filter_simps\<close>)
    next
      case (Some timeout)
      let ?e = "\<lparr>we_protocol = name, we_reply_to = reply_to, we_timer_key = None\<rparr> :: ('n, 'tk) waitlist_entry"
      obtain w t where ins: "sm_insert (op_wait ops) (wl_entries (mp_waitlist s)) ?e = (w, t)" by fastforce
      show ?thesis
      proof (cases "me_scheduled env")
        case no: None
        have "on_get_protocol_by_name ops env reply_to name timeout_opt s = Some ([ScheduleTimeout timeout w], None)"
          by (simp add: on_get_protocol_by_name_def protocol_by_name_def None Some ins no)
        then show ?thesis by (rule handledI) simp_all
      next
        case tk: (Some tk)
        let ?e' = "?e\<lparr>we_timer_key := Some tk\<rparr>"
        let ?wl = "\<lparr>wl_entries = sm_put (op_wait ops) t w ?e', wl_by_protocol = btree_insert (we_protocol ?e, Some w) (wl_by_protocol (mp_waitlist s))\<rparr>"
        note add = waitlist_add [OF sm(3) D(2) ins refl, of ?wl tk]
        have "on_get_protocol_by_name ops env reply_to name timeout_opt s
            = Some ([ScheduleTimeout timeout w], Some (s\<lparr>mp_waitlist := ?wl\<rparr>, None))"
          using add(3,4) by (simp add: on_get_protocol_by_name_def protocol_by_name_def None Some ins tk)
        moreover have "mp_inv ops type_name (s\<lparr>mp_waitlist := ?wl\<rparr>)"
          unfolding mp_inv_def using D add(1,5) None by (auto split: if_splits)
        ultimately show ?thesis
          by (intro handledI) (use add(2) in \<open>auto simp: answered_def waiting_def List.map_filter_simps\<close>)
      qed
    qed
  qed
qed

lemma timeout_handled:
  fixes ops :: "('pt, 'pk, 'n::linorder, 't, 'ct, 'k, 'wt, 'w::linorder, 'tk) mp_ops"
  assumes laws: "mp_laws ops" and inv: "mp_inv ops type_name s"
  shows "handled ops type_name (WaitlistTimeoutElapsed w) s (on_waitlist_timeout ops w s)"
proof -
  have sm: "slot_laws (op_wait ops)" using laws by (simp add: mp_laws_def)
  note D = mp_invD [OF inv]
  show ?thesis
  proof (cases "sm_get (op_wait ops) (wl_entries (mp_waitlist s)) w")
    case None
    then have "on_waitlist_timeout ops w s = Some ([], Some (s, None))" by (simp add: on_waitlist_timeout_def)
    then show ?thesis by (rule handledI) (use inv in \<open>auto simp: answered_def List.map_filter_simps\<close>)
  next
    case (Some e)
    let ?wl = "\<lparr>wl_entries = sm_remove (op_wait ops) (wl_entries (mp_waitlist s)) w,
      wl_by_protocol = removeAll (we_protocol e, Some w) (wl_by_protocol (mp_waitlist s))\<rparr>"
    note rem = waitlist_remove [OF sm D(2) Some refl]
    have "on_waitlist_timeout ops w s = Some ([MpReply (we_reply_to e) (GetProtocolByNameResponse None)], Some (s\<lparr>mp_waitlist := ?wl\<rparr>, None))"
      using Some D(3) [OF Some] waitlist_invD(2) [OF D(2), of "we_protocol e" w]
      by (simp add: on_waitlist_timeout_def protocol_by_name_def)
    moreover have "mp_inv ops type_name (s\<lparr>mp_waitlist := ?wl\<rparr>)"
      unfolding mp_inv_def using D rem(1) by (auto simp: slot_remove [OF sm] split: if_splits)
    ultimately show ?thesis
      by (intro handledI) (use rem(2) in \<open>auto simp: answered_def waiting_def List.map_filter_simps\<close>)
  qed
qed

lemma mp_handled:
  assumes laws: "mp_laws ops" and inv: "mp_inv ops type_name s" and ok: "input_ok ops type_name s input"
  shows "handled ops type_name input s (mp_handle ops env nets input s)"
proof (cases input)
  case (WaitlistTimeoutElapsed w)
  then show ?thesis using timeout_handled [OF laws inv] by simp
next
  case (MpRequest reply_to request)
  have sm: "slot_laws (op_codec ops)" using laws by (simp add: mp_laws_def)
  note D = mp_invD [OF inv]
  show ?thesis
  proof (cases request)
    case (RegisterProtocolRequest name protocol)
    then show ?thesis using register_protocol_handled [OF laws inv] ok MpRequest by simp
  next
    case (UnregisterProtocolRequest name)
    let ?pg = "snd (unregister_protocol name (me_in_use env) (mp_registry s))"
    have res: "mp_handle ops env nets input s = Some ([], Some (s\<lparr>mp_registry := ?pg\<rparr>,
        Some (UnregisterProtocolResponse (fst (unregister_protocol name (me_in_use env) (mp_registry s))))))"
      using MpRequest UnregisterProtocolRequest by (simp add: on_unregister_protocol_def split_def Let_def)
    have "mp_inv ops type_name (s\<lparr>mp_registry := ?pg\<rparr>)"
      unfolding mp_inv_def using D by (auto simp: unregister_protocol_def split: if_splits)
    then show ?thesis
      by (intro handledI [OF res]) (use MpRequest UnregisterProtocolRequest in \<open>auto simp: answered_def waiting_def List.map_filter_simps\<close>)
  next
    case (RegisterOpaqueMessageRequest name)
    obtain k pg where reg: "register_message (op_codec ops) (Opaque name) (mp_registry s) = Some (k, pg)"
      "registry_inv (op_codec ops) type_name pg" "pg_protocols pg = pg_protocols (mp_registry s)"
      using register_message_ok [OF sm D(1), of "Opaque name"] by (auto simp: codec_ok_def)
    have res: "mp_handle ops env nets input s = Some ([], Some (s\<lparr>mp_registry := pg\<rparr>, Some (RegisterOpaqueMessageResponse k)))"
      using MpRequest RegisterOpaqueMessageRequest reg(1) by (simp add: on_register_opaque_def)
    show ?thesis
      by (intro handledI [OF res]) (use mp_inv_registry [OF inv reg(2,3)] MpRequest RegisterOpaqueMessageRequest in \<open>auto simp: answered_def List.map_filter_simps\<close>)
  next
    case (GetMessageNameRequest key)
    then obtain n where "pg_by_name (mp_registry s) n = Some key" using ok MpRequest by auto
    then have res: "mp_handle ops env nets input s = Some ([], Some (s, Some (GetMessageNameResponse n)))"
      using MpRequest GetMessageNameRequest name_by_key [OF D(1), of key n] by (simp add: on_get_message_name_def)
    show ?thesis
      by (intro handledI [OF res]) (use inv MpRequest GetMessageNameRequest in \<open>auto simp: answered_def List.map_filter_simps\<close>)
  next
    case (GetProtocolByNameRequest name timeout_opt)
    then show ?thesis using get_protocol_handled [OF laws inv] MpRequest by simp
  next
    case (ResolveTypeIdRequest type_id)
    have res: "mp_handle ops env nets input s = Some ([], Some (s, Some (ResolveTypeIdResponse (local_type_key_by_tid type_id (mp_registry s)))))"
      using MpRequest ResolveTypeIdRequest by (simp add: on_resolve_type_id_def)
    show ?thesis
      by (intro handledI [OF res]) (use inv MpRequest ResolveTypeIdRequest in \<open>auto simp: answered_def List.map_filter_simps\<close>)
  qed
qed

section \<open>Everyone is answered once\<close>

text \<open>The states the manager reaches, with the headers of the requests for protocols so far and of the answers to them.\<close>

inductive mp_reach :: "('pt, 'pk, 'n::linorder, 't, 'ct, 'k, 'wt, 'w::linorder, 'tk) mp_ops \<Rightarrow> ('t \<Rightarrow> 'n) \<Rightarrow> request_header multiset
    \<Rightarrow> request_header multiset \<Rightarrow> ('pt, 'pk, 'n, 't, 'ct, 'k, 'wt, 'w) mn_protocols \<Rightarrow> bool" for ops type_name where
  start: "mp_reach ops type_name {#} {#} (mn_protocols_default ops)"
| step: "mp_reach ops type_name q a s \<Longrightarrow> input_ok ops type_name s input \<Longrightarrow> mp_handle ops env nets input s = Some (effs, Some (s', resp))
    \<Longrightarrow> mp_reach ops type_name (q + asked input) (a + answered input effs resp) s'"

lemma mp_inv_default: "mp_laws ops \<Longrightarrow> mp_inv ops type_name (mn_protocols_default ops) \<and> waiting ops (mn_protocols_default ops) = {#}"
  using registry_inv_default [of "op_codec ops" type_name]
  by (auto simp: mp_laws_def mp_inv_def mn_protocols_default_def waitlist_inv_def waiting_def waitlist_waiting_def slot_new slot_values_new
      protocol_registry_default_def)

lemma mp_reach_inv:
  assumes "mp_laws ops" "mp_reach ops type_name q a s"
  shows "mp_inv ops type_name s \<and> q = a + waiting ops s"
  using assms(2)
proof induction
  case start
  then show ?case using mp_inv_default [OF assms(1)] by simp
next
  case (step q a s input env nets effs s' resp)
  have "mp_inv ops type_name s' \<and> waiting ops s + asked input = waiting ops s' + answered input effs resp"
    using mp_handled [OF assms(1) _ step.hyps(2), of env nets] step.hyps(3) step.IH unfolding handled_def by auto
  then show ?case using step.IH by (metis add.assoc add.commute)
qed

text \<open>C12. Everyone who asks for a protocol is answered once. In every state the manager reaches, the requests for protocols
  are those that have been answered together with those on the waitlist, as multisets, so that none is answered twice or
  forgotten; nobody waits for a protocol that is registered; and no request about protocols or types that are the
  node's own makes the manager panic, however timers and registrations interleave.\<close>

theorem waiting_answered_once:
  assumes "mp_laws ops" "mp_reach ops type_name q a s" "input_ok ops type_name s input"
  shows "q = a + waiting ops s \<and> (\<exists>r. mp_handle ops env nets input s = Some r)
    \<and> (\<forall>w e. sm_get (op_wait ops) (wl_entries (mp_waitlist s)) w = Some e \<longrightarrow> protocol_by_name (we_protocol e) (mp_registry s) = None)"
  using mp_reach_inv [OF assms(1,2)] mp_handled [OF assms(1) _ assms(3), of env nets] mp_invD(3) [of ops type_name s]
  by (auto simp: handled_def protocol_by_name_def)

section \<open>An example\<close>

type_synonym counted_waitlist = "nat \<times> (nat \<times> (nat, nat) waitlist_entry) list"

definition counted_ops :: "(counted_codecs, nat, nat, nat, counted_codecs, nat, counted_waitlist, nat, nat) mp_ops" where
  "counted_ops = \<lparr>op_protocol = counted_slots, op_codec = counted_slots, op_wait = counted_slots\<rparr>"

lemma counted_ops_laws: "mp_laws counted_ops"
  by (simp add: mp_laws_def counted_ops_def counted_slots_laws)

definition demo_header :: request_header where
  "demo_header = \<lparr>req_id = 1, req_reply_to = 5\<rparr>"

definition demo_env :: "nat mp_env" where
  "demo_env = \<lparr>me_told = (\<lambda>_. True), me_cancelled = (\<lambda>_. True), me_scheduled = Some 3, me_in_use = False\<rparr>"

definition demo_ask :: "(counted_codecs, nat, nat, nat, nat, nat) mp_input" where
  "demo_ask = MpRequest demo_header (GetProtocolByNameRequest 7 (Some 9))"

theorem waiting_answered_once_witness:
  "\<exists>s effs. mp_handle counted_ops demo_env [] demo_ask (mn_protocols_default counted_ops) = Some (effs, Some (s, None))
    \<and> {#demo_header#} = {#} + waiting counted_ops s
    \<and> (\<exists>r. mp_handle counted_ops demo_env [] (WaitlistTimeoutElapsed 0) s = Some r)"
proof -
  obtain s effs where s: "mp_handle counted_ops demo_env [] demo_ask (mn_protocols_default counted_ops) = Some (effs, Some (s, None))"
    and effs: "List.map_filter resolved_to effs = []"
    by (simp add: demo_ask_def on_get_protocol_by_name_def protocol_by_name_def mn_protocols_default_def protocol_registry_default_def
        demo_env_def counted_ops_def counted_slots_def List.map_filter_simps)
  have "mp_reach counted_ops id ({#} + asked demo_ask) ({#} + answered demo_ask effs None) s"
    by (rule mp_reach.step [OF mp_reach.start _ s]) (simp add: demo_ask_def)
  then have "mp_reach counted_ops id {#demo_header#} {#} s" by (simp add: answered_def effs demo_ask_def)
  from waiting_answered_once [OF counted_ops_laws this, of "WaitlistTimeoutElapsed 0" demo_env "[]"]
  show ?thesis using s by auto
qed

section \<open>Rejected protocols\<close>

lemma send_all_ok: "(\<And>i. ok i) \<Longrightarrow> send_all ok es = (es, True)"
  by (induction es arbitrary: ok) simp_all

lemma announce_inbound_all:
  fixes pg :: "('pt, 'pk, 'n, 't, 'ct, 'k) protocol_registry"
  assumes sm: "slot_laws sm" and "registry_inv sm type_name pg" "\<forall>c\<in>set cs. codec_ok type_name c" "\<And>i. ok i"
  shows "\<exists>effs pg'. (announce_inbound sm ok nets cs pg :: (('pt, 'pk, 'n, 't, 'k, 'w, 'tk) mp_effect list \<times> _) panics) = Some (effs, Some pg')
    \<and> registry_inv sm type_name pg' \<and> pg_protocols pg' = pg_protocols pg \<and> pg_by_name pg \<subseteq>\<^sub>m pg_by_name pg'
    \<and> (\<forall>c\<in>set cs. \<exists>k. pg_by_name pg' (codec_name c) = Some k \<and> (\<forall>net\<in>set nets. TellSelf (local_route k net) \<in> set effs))"
  using assms(2-)
proof (induction cs arbitrary: pg ok)
  case (Cons c cs)
  obtain k pg1 where 1: "register_message sm c pg = Some (k, pg1)" "registry_inv sm type_name pg1" "pg_by_name pg1 (codec_name c) = Some k"
      "pg_by_name pg \<subseteq>\<^sub>m pg_by_name pg1" "pg_protocols pg1 = pg_protocols pg"
    using register_message_ok [OF sm Cons.prems(1), of c] Cons.prems(2) by auto
  let ?tells = "map (\<lambda>net. TellSelf (local_route k net) :: ('pt, 'pk, 'n, 't, 'k, 'w, 'tk) mp_effect) nets"
  have cs: "\<forall>c\<in>set cs. codec_ok type_name c" using Cons.prems(2) by simp
  obtain effs pg2 where IH: "announce_inbound sm (\<lambda>i. ok (length ?tells + i)) nets cs pg1 = Some (effs :: ('pt, 'pk, 'n, 't, 'k, 'w, 'tk) mp_effect list, Some pg2)"
    "registry_inv sm type_name pg2" "pg_by_name pg1 \<subseteq>\<^sub>m pg_by_name pg2"
    "pg_protocols pg2 = pg_protocols pg"
    "\<forall>c\<in>set cs. \<exists>k. pg_by_name pg2 (codec_name c) = Some k \<and> (\<forall>net\<in>set nets. TellSelf (local_route k net) \<in> set effs)"
    using Cons.IH [OF 1(2) cs, of "\<lambda>i. ok (length ?tells + i)"] Cons.prems(3) unfolding 1(5) by blast
  have "announce_inbound sm ok nets (c # cs) pg = Some (?tells @ effs, Some pg2)"
    using 1(1) IH(1) by (simp add: send_all_ok [of ok, OF Cons.prems(3)])
  moreover have "pg_by_name pg2 (codec_name c) = Some k" using 1(3) IH(3) by (metis domI map_le_def)
  moreover have "pg_by_name pg \<subseteq>\<^sub>m pg_by_name pg2" using 1(4) IH(3) by (rule map_le_trans)
  moreover have "\<forall>c'\<in>set (c # cs). \<exists>k. pg_by_name pg2 (codec_name c') = Some k \<and> (\<forall>net\<in>set nets. TellSelf (local_route k net) \<in> set (?tells @ effs))"
    using IH(5) \<open>pg_by_name pg2 (codec_name c) = Some k\<close> by auto
  ultimately show ?case using IH(2,4) by blast
qed simp

text \<open>C23. A protocol that is rejected is announced all the same. When a protocol of that name is registered already, the reply
  is the error; yet every type of the rejected protocol is given a key, and the manager sends itself a route to every local
  subnet for it, as for a protocol that was accepted.\<close>

theorem rejected_protocol_announced:
  fixes ops :: "('pt, 'pk, 'n::linorder, 't, 'ct, 'k, 'wt, 'w::linorder, 'tk) mp_ops"
  assumes laws: "mp_laws ops" and reach: "mp_reach ops type_name q a s" and p: "known_protocol (op_protocol ops) type_name protocol"
    and dup: "protocol_by_name name (mp_registry s) \<noteq> None" and ok: "\<And>i. me_told env i"
  shows "\<exists>effs s'. on_register_protocol ops env nets reply_to name protocol s = Some (effs, Some (s', None))
    \<and> MpReply reply_to (RegisterProtocolResponse (Inl DuplicateProtocolName)) \<in> set effs
    \<and> protocol_by_name name (mp_registry s') = protocol_by_name name (mp_registry s)
    \<and> (\<forall>c\<in>set (inbound_types (op_protocol ops) protocol). \<forall>net\<in>set nets. \<exists>k.
          message_name_by_key (op_codec ops) k (mp_registry s') = Some (codec_name c) \<and> TellSelf (local_route k net) \<in> set effs)"
proof -
  have sm: "slot_laws (op_protocol ops)" "slot_laws (op_codec ops)" using laws by (simp_all add: mp_laws_def)
  have inv: "registry_inv (op_codec ops) type_name (mp_registry s)" using mp_reach_inv [OF laws reach] mp_invD(1) by blast
  have types: "\<forall>c\<in>set (outbound_types (op_protocol ops) protocol). codec_ok type_name c"
    "\<forall>c\<in>set (inbound_types (op_protocol ops) protocol). codec_ok type_name c"
    using known_protocol_types [OF sm(1) p] by auto
  obtain told pg where ann: "announce_inbound (op_codec ops) (me_told env) nets (inbound_types (op_protocol ops) protocol) (mp_registry s)
        = Some (told :: ('pt, 'pk, 'n, 't, 'k, 'w, 'tk) mp_effect list, Some pg)" "registry_inv (op_codec ops) type_name pg"
      "\<forall>c\<in>set (inbound_types (op_protocol ops) protocol). \<exists>k. pg_by_name pg (codec_name c) = Some k \<and> (\<forall>net\<in>set nets. TellSelf (local_route k net) \<in> set told)"
      and same: "pg_protocols pg = pg_protocols (mp_registry s)"
    using announce_inbound_all [OF sm(2) inv types(2), of "me_told env"] ok by blast
  obtain outb pg2 where 2: "register_named (op_codec ops) (outbound_types (op_protocol ops) protocol) pg = Some (outb, pg2)"
    "registry_inv (op_codec ops) type_name pg2" "pg_protocols pg2 = pg_protocols (mp_registry s)" "pg_by_name pg \<subseteq>\<^sub>m pg_by_name pg2"
    using register_named_ok [OF sm(2) ann(2) types(1)] unfolding same by blast
  obtain inb pg3 where 3: "register_named (op_codec ops) (inbound_types (op_protocol ops) protocol) pg2 = Some (inb, pg3)"
    "registry_inv (op_codec ops) type_name pg3" "pg_protocols pg3 = pg_protocols (mp_registry s)" "pg_by_name pg2 \<subseteq>\<^sub>m pg_by_name pg3"
    using register_named_ok [OF sm(2) 2(2) types(2)] unfolding 2(3) by blast
  have "on_register_protocol ops env nets reply_to name protocol s
      = Some (told @ [MpReply reply_to (RegisterProtocolResponse (Inl DuplicateProtocolName))], Some (\<lparr>mp_registry = pg3, mp_waitlist = mp_waitlist s\<rparr>, None))"
    using dup by (simp add: on_register_protocol_def register_protocol_def protocol_by_name_def ann(1) 2(1) 3(1))
  moreover have "message_name_by_key (op_codec ops) k pg3 = Some n" if "pg_by_name pg n = Some k" for n k
    unfolding name_by_key [OF 3(2)] using that map_le_trans [OF 2(4) 3(4)] by (metis domI map_le_def)
  ultimately show ?thesis using ann(3) 3(3) by (force simp: protocol_by_name_def)
qed

definition demo_protocol :: "(counted_codecs, nat, nat, nat) protocol" where
  "demo_protocol = \<lparr>pr_codecs = (1, [(0, Known 8 8)]), pr_by_type_id = [8 \<mapsto> 0], pr_by_type_name = [8 \<mapsto> 0]\<rparr>"

lemma waitlist_drain_empty: "wl_by_protocol wl = [] \<Longrightarrow> waitlist_drain sm name wl = Some ([], wl)"
  by (subst waitlist_drain.simps) (simp add: next_waiting_def)

lemma demo_protocol_known:
  "add_type counted_slots id 8 (protocol_new counted_slots) = Some demo_protocol" "known_protocol counted_slots id demo_protocol"
    "outbound_types counted_slots demo_protocol = [Known 8 8]" "inbound_types counted_slots demo_protocol = [Known 8 8]"
proof -
  show add: "add_type counted_slots id 8 (protocol_new counted_slots) = Some demo_protocol"
    by (simp add: add_type_def add_any_codec_def known_new_def protocol_new_def demo_protocol_def counted_slots_def)
  show types: "outbound_types counted_slots demo_protocol = [Known 8 8]" "inbound_types counted_slots demo_protocol = [Known 8 8]"
    by (simp_all add: outbound_types_def inbound_types_def demo_protocol_def counted_slots_def)
  show "known_protocol counted_slots id demo_protocol"
    using add_any_codec_ok [OF counted_slots_laws protocol_inv_new [OF counted_slots_laws], of id "Known (8 :: nat) 8"] add types
    by (simp add: known_protocol_def add_type_def known_new_def codec_ok_def)
qed

definition demo_register :: "(counted_codecs, nat, nat, nat, nat, nat) mp_input" where
  "demo_register = MpRequest demo_header (RegisterProtocolRequest 7 demo_protocol)"

theorem rejected_protocol_announced_witness:
  "\<exists>s effs s'. protocol_by_name 7 (mp_registry s) \<noteq> None
    \<and> on_register_protocol counted_ops demo_env [route_net 0xA00] demo_header 7 demo_protocol s = Some (effs, Some (s', None))
    \<and> MpReply demo_header (RegisterProtocolResponse (Inl DuplicateProtocolName)) \<in> set effs
    \<and> (\<exists>k. TellSelf (local_route k (route_net 0xA00)) \<in> set effs)"
proof -
  have ops: "op_protocol counted_ops = counted_slots" "op_codec counted_ops = counted_slots" by (simp_all add: counted_ops_def)
  obtain s effs where s: "mp_handle counted_ops demo_env [] demo_register (mn_protocols_default counted_ops) = Some (effs, Some (s, None))"
    and reg: "protocol_by_name 7 (mp_registry s) = Some demo_protocol"
    by (simp add: demo_register_def on_register_protocol_def register_protocol_def ops outbound_types_def inbound_types_def mn_protocols_default_def
        protocol_registry_default_def register_known_message_def register_message_def protocol_by_name_def waitlist_drain_empty
        demo_env_def demo_protocol_def counted_slots_def)
  have "mp_reach counted_ops id ({#} + asked demo_register) ({#} + answered demo_register effs None) s"
    by (rule mp_reach.step [OF mp_reach.start _ s]) (simp add: demo_register_def ops demo_protocol_known(2))
  from rejected_protocol_announced [OF counted_ops_laws this, unfolded ops, OF demo_protocol_known(2), of 7 demo_env "[route_net 0xA00]" demo_header]
  show ?thesis using reg by (simp add: demo_protocol_known(4) demo_env_def) blast
qed

end
