(* ===== verification/Multinode_Routes.thy ===== *)
theory Multinode_Routes
  imports Multinode_Protocols Bi_Map
begin

text \<open>
  The manager of the connections to other nodes, \<^verbatim>\<open>components/mm1-multinode/src/actors/multinode_manager.rs\<close>: local
  subnets, routes with those who follow them, the workers that take in messages for other nodes' networks, and the
  interfaces. Maps and sets keyed by address ranges are ordered lists, with the comparison that calls overlapping ranges
  equal. What a handler does to others is a list of effects; the answers to what it asks are an argument.
\<close>

section \<open>State\<close>

record ('rt, 'rk, 'k, 'b) mn_routes =
  mr_local_subnets :: "(address_range \<times> unit) list"
  mr_registry :: "('rt, 'rk, 'k) route_registry"
  mr_subscribers :: "(watch_ref \<times> address) list"
  mr_gws :: 'b
  mr_workers :: "(address_range \<times> address) list"

record ('rt, 'rk, 'k, 'b) mr_ops =
  op_routes :: "('rt, 'rk, 'k route_entry) slot_ops"
  op_gws :: "('b, watch_ref, address) bimap_ops"
  op_default_key :: 'k

definition mn_routes_default :: "('rt, 'rk, 'k, 'b) mr_ops \<Rightarrow> ('rt, 'rk, 'k, 'b) mn_routes" where
  "mn_routes_default ops = \<lparr>mr_local_subnets = [], mr_registry = route_registry_default (op_routes ops), mr_subscribers = [],
     mr_gws = bm_new (op_gws ops), mr_workers = []\<rparr>"

datatype 'k mr_input =
    RegisterLocalSubnet net_address
  | GetLocalSubnets
  | SubscribeToRoutes address
  | SetRoute "'k set_route_msg"
  | PeerDown watch_ref address

datatype 'k mr_response =
    LocalSubnetRegistered
  | LocalSubnets "net_address list"
  | SubscribedToRoutes "'k set_route_msg list"

datatype 'k mr_effect =
    WatchPeer address
  | StartIngress net_address
  | StopIngress address
  | TellSubscriber address "'k set_route_msg"
  | TellManager "'k set_route_msg"

text \<open>\<open>rv_started\<close> is the worker that was started, \<^const>\<open>None\<close> when the request failed; \<open>rv_stopped\<close> tells whether the worker
  could be stopped.\<close>

record mr_env =
  rv_watch_ref :: watch_ref
  rv_started :: "address option"
  rv_stopped :: bool

type_synonym ('rt, 'rk, 'k, 'b) mr_result =
  "('k mr_effect list \<times> (('rt, 'rk, 'k, 'b) mn_routes \<times> 'k mr_response option) option) panics"

section \<open>Handlers\<close>

definition on_register_local_subnet :: "net_address \<Rightarrow> ('rt, 'rk, 'k, 'b) mn_routes \<Rightarrow> ('rt, 'rk, 'k, 'b) mr_result" where
  "on_register_local_subnet net s = do {
     r \<leftarrow> range_of_net net;
     Some ([], Some (s\<lparr>mr_local_subnets := om_insert range_cmp r () (mr_local_subnets s)\<rparr>, Some LocalSubnetRegistered))
   }"

fun nets_of_ranges :: "(address_range \<times> unit) list \<Rightarrow> net_address list panics" where
  "nets_of_ranges [] = Some []"
| "nets_of_ranges ((r, _) # rs) = do {
     n \<leftarrow> net_of_range r;
     ns \<leftarrow> nets_of_ranges rs;
     Some (n # ns)
   }"

definition on_get_local_subnets :: "('rt, 'rk, 'k, 'b) mn_routes \<Rightarrow> ('rt, 'rk, 'k, 'b) mr_result" where
  "on_get_local_subnets s = do {
     nets \<leftarrow> nets_of_ranges (mr_local_subnets s);
     Some ([], Some (s, Some (LocalSubnets nets)))
   }"

definition set_route_of :: "'k \<times> net_address \<times> address option \<times> route_metric \<Rightarrow> 'k set_route_msg" where
  "set_route_of = (\<lambda>(message, destination, via, metric).
     \<lparr>sr_message = message, sr_destination = destination, sr_via = via, sr_metric = Some metric\<rparr>)"

definition hmap_insert :: "'a \<Rightarrow> 'v \<Rightarrow> ('a \<times> 'v) list \<Rightarrow> ('a \<times> 'v) list" where
  "hmap_insert k v m = AList.update k v m"

definition on_subscribe_to_routes :: "('rt, 'rk, 'k, 'b) mr_ops \<Rightarrow> mr_env \<Rightarrow> address \<Rightarrow> ('rt, 'rk, 'k, 'b) mn_routes
    \<Rightarrow> ('rt, 'rk, 'k, 'b) mr_result" where
  "on_subscribe_to_routes ops env deliver_to s = Some ([WatchPeer deliver_to],
     Some (s\<lparr>mr_subscribers := hmap_insert (rv_watch_ref env) deliver_to (mr_subscribers s)\<rparr>,
       Some (SubscribedToRoutes (map set_route_of (all_routes (op_routes ops) (mr_registry s))))))"

text \<open>The part of the handler of \<open>SetRoute\<close> that starts and stops the worker of a network: the effects and, unless a request
  failed, the workers.\<close>

definition update_worker :: "mr_env \<Rightarrow> net_address \<Rightarrow> address_range \<Rightarrow> bool \<Rightarrow> bool \<Rightarrow> bool \<Rightarrow> (address_range \<times> address) list
    \<Rightarrow> ('k mr_effect list \<times> (address_range \<times> address) list option) panics" where
  "update_worker env destination r is_local before after workers = (case (is_local, before, after) of
     (False, True, False) \<Rightarrow>
       (case om_find range_cmp r workers of
          None \<Rightarrow> None
        | Some (_, worker) \<Rightarrow> Some ([StopIngress worker], if rv_stopped env then Some (om_remove range_cmp r workers) else None))
   | (False, False, True) \<Rightarrow>
       (case om_find range_cmp r workers of
          Some _ \<Rightarrow> None
        | None \<Rightarrow> Some ([StartIngress destination], map_option (\<lambda>worker. om_insert range_cmp r worker workers) (rv_started env)))
   | _ \<Rightarrow> Some ([], Some workers))"

definition watch_gateway :: "('b, watch_ref, address) bimap_ops \<Rightarrow> mr_env \<Rightarrow> address option \<Rightarrow> 'b \<Rightarrow> 'k mr_effect list \<times> 'b" where
  "watch_gateway bm env via gws = (case via of
     None \<Rightarrow> ([], gws)
   | Some gw \<Rightarrow> if bm_contains_right bm gws gw then ([], gws)
       else ([WatchPeer gw], snd (bm_insert bm gws (rv_watch_ref env) gw)))"

definition on_set_route :: "('rt, 'rk, 'k::linorder, 'b) mr_ops \<Rightarrow> mr_env \<Rightarrow> 'k set_route_msg \<Rightarrow> ('rt, 'rk, 'k, 'b) mn_routes
    \<Rightarrow> ('rt, 'rk, 'k, 'b) mr_result" where
  "on_set_route ops env sr s = do {
     contains_net_before \<leftarrow> contains_net (op_default_key ops) (sr_destination sr) (mr_registry s);
     (res, rr) \<leftarrow> set_route (op_routes ops) (sr_message sr) (sr_destination sr) (sr_via sr) (sr_metric sr) (mr_registry s);
     (case res of
        Inl _ \<Rightarrow> Some ([], Some (s\<lparr>mr_registry := rr\<rparr>, None))
      | Inr old_metric \<Rightarrow> do {
          contains_net_after \<leftarrow> contains_net (op_default_key ops) (sr_destination sr) rr;
          r \<leftarrow> range_of_net (sr_destination sr);
          (effs, res) \<leftarrow> update_worker env (sr_destination sr) r (om_find range_cmp r (mr_local_subnets s) \<noteq> None)
            contains_net_before contains_net_after (mr_workers s);
          (case res of
             None \<Rightarrow> Some (effs, None)
           | Some workers \<Rightarrow> (
               let (watch_effs, gws) = watch_gateway (op_gws ops) env (sr_via sr) (mr_gws s)
               in Some (effs @ watch_effs @ map (\<lambda>(_, subscriber). TellSubscriber subscriber sr) (mr_subscribers s),
                    Some (s\<lparr>mr_registry := rr, mr_gws := gws, mr_workers := workers\<rparr>, None))))
        })
   }"

definition withdrawal :: "address \<Rightarrow> 'k \<times> net_address \<times> route_metric \<Rightarrow> 'k set_route_msg" where
  "withdrawal gw = (\<lambda>(message, destination, _).
     \<lparr>sr_message = message, sr_destination = destination, sr_via = Some gw, sr_metric = None\<rparr>)"

definition on_down :: "('rt, 'rk, 'k, 'b) mr_ops \<Rightarrow> watch_ref \<Rightarrow> address \<Rightarrow> ('rt, 'rk, 'k, 'b) mn_routes \<Rightarrow> ('rt, 'rk, 'k, 'b) mr_result" where
  "on_down ops r peer s = (
     let s = s\<lparr>mr_subscribers := AList.delete r (mr_subscribers s)\<rparr>
     in if bm_contains_left (op_gws ops) (mr_gws s) r
        then Some (map (\<lambda>route. TellManager (withdrawal peer route)) (all_routes_by_gw (op_routes ops) peer (mr_registry s)),
          Some (s\<lparr>mr_gws := bm_remove_by_left (op_gws ops) (mr_gws s) r\<rparr>, None))
        else Some ([], Some (s, None)))"

fun mr_handle :: "('rt, 'rk, 'k::linorder, 'b) mr_ops \<Rightarrow> mr_env \<Rightarrow> 'k mr_input \<Rightarrow> ('rt, 'rk, 'k, 'b) mn_routes \<Rightarrow> ('rt, 'rk, 'k, 'b) mr_result" where
  "mr_handle ops env (RegisterLocalSubnet net) s = on_register_local_subnet net s"
| "mr_handle ops env GetLocalSubnets s = on_get_local_subnets s"
| "mr_handle ops env (SubscribeToRoutes deliver_to) s = on_subscribe_to_routes ops env deliver_to s"
| "mr_handle ops env (SetRoute sr) s = on_set_route ops env sr s"
| "mr_handle ops env (PeerDown r peer) s = on_down ops r peer s"

section \<open>Interfaces\<close>

record ('a) iface_entry =
  if_iface_address :: 'a
  if_actor_address :: address

record ('it, 'ik, 'a) ifaces =
  if_entries :: 'it
  if_by_iface_addr :: "'a \<rightharpoonup> 'ik"

datatype connect_error_kind = DuplicateDstAddr
datatype bind_iface_error_kind = DuplicateBindAddr

record ('it, 'ik, 'a, 'ut, 'uk, 'u) mn_ifaces =
  mi_tcp_connectors :: "('it, 'ik, 'a) ifaces"
  mi_tcp_acceptors :: "('it, 'ik, 'a) ifaces"
  mi_uds_connectors :: "('ut, 'uk, 'u) ifaces"
  mi_uds_acceptors :: "('ut, 'uk, 'u) ifaces"

text \<open>The bodies of the four handlers: an address that has an entry is a duplicate; otherwise the actor is started, \<open>started\<close>
  is its address, \<^const>\<open>None\<close> when the start failed, and entered.\<close>

definition open_iface :: "('it, 'ik, 'a iface_entry) slot_ops \<Rightarrow> 'err \<Rightarrow> address option \<Rightarrow> 'a \<Rightarrow> ('it, 'ik, 'a) ifaces
    \<Rightarrow> (('it, 'ik, 'a) ifaces \<times> ('err + unit)) option" where
  "open_iface sm duplicate started iface_address is = (
     if if_by_iface_addr is iface_address \<noteq> None then Some (is, Inl duplicate)
     else map_option (\<lambda>actor_address.
       let (key, entries) = sm_insert sm (if_entries is) \<lparr>if_iface_address = iface_address, if_actor_address = actor_address\<rparr>
       in (\<lparr>if_entries = entries, if_by_iface_addr = (if_by_iface_addr is)(iface_address \<mapsto> key)\<rparr>, Inr ())) started)"

definition on_connect_tcp :: "('it, 'ik, 'a iface_entry) slot_ops \<Rightarrow> address option \<Rightarrow> 'a \<Rightarrow> ('it, 'ik, 'a, 'ut, 'uk, 'u) mn_ifaces
    \<Rightarrow> (('it, 'ik, 'a, 'ut, 'uk, 'u) mn_ifaces \<times> (connect_error_kind + unit)) option" where
  "on_connect_tcp sm started dst s = map_option (map_prod (\<lambda>is. s\<lparr>mi_tcp_connectors := is\<rparr>) id)
     (open_iface sm DuplicateDstAddr started dst (mi_tcp_connectors s))"

definition on_connect_uds :: "('ut, 'uk, 'u iface_entry) slot_ops \<Rightarrow> address option \<Rightarrow> 'u \<Rightarrow> ('it, 'ik, 'a, 'ut, 'uk, 'u) mn_ifaces
    \<Rightarrow> (('it, 'ik, 'a, 'ut, 'uk, 'u) mn_ifaces \<times> (connect_error_kind + unit)) option" where
  "on_connect_uds sm started dst s = map_option (map_prod (\<lambda>is. s\<lparr>mi_uds_connectors := is\<rparr>) id)
     (open_iface sm DuplicateDstAddr started dst (mi_uds_connectors s))"

definition on_bind_tcp :: "('it, 'ik, 'a iface_entry) slot_ops \<Rightarrow> address option \<Rightarrow> 'a \<Rightarrow> ('it, 'ik, 'a, 'ut, 'uk, 'u) mn_ifaces
    \<Rightarrow> (('it, 'ik, 'a, 'ut, 'uk, 'u) mn_ifaces \<times> (bind_iface_error_kind + unit)) option" where
  "on_bind_tcp sm started bind_address s = map_option (map_prod (\<lambda>is. s\<lparr>mi_tcp_acceptors := is\<rparr>) id)
     (open_iface sm DuplicateBindAddr started bind_address (mi_tcp_acceptors s))"

definition on_bind_uds :: "('ut, 'uk, 'u iface_entry) slot_ops \<Rightarrow> address option \<Rightarrow> 'u \<Rightarrow> ('it, 'ik, 'a, 'ut, 'uk, 'u) mn_ifaces
    \<Rightarrow> (('it, 'ik, 'a, 'ut, 'uk, 'u) mn_ifaces \<times> (bind_iface_error_kind + unit)) option" where
  "on_bind_uds sm started bind_address s = map_option (map_prod (\<lambda>is. s\<lparr>mi_uds_acceptors := is\<rparr>) id)
     (open_iface sm DuplicateBindAddr started bind_address (mi_uds_acceptors s))"

end
