(* ===== verification/Subnet_Ingress.thy ===== *)
theory Subnet_Ingress
  imports Multinode_Routes
begin

text \<open>
  The actor that takes in the messages for another node's network, \<^verbatim>\<open>components/mm1-multinode/src/actors/subnet_ingress.rs\<close>:
  it keeps the routes to its network, which the manager tells it about, and forwards each message to a gateway. The
  left side of a result is an error that ends the actor.
\<close>

section \<open>Start\<close>

fun load_routes :: "('rt, 'rk, 'k::linorder route_entry) slot_ops \<Rightarrow> 'k set_route_msg list \<Rightarrow> ('rt, 'rk, 'k) route_registry
    \<Rightarrow> (set_route_error + ('rt, 'rk, 'k) route_registry) panics" where
  "load_routes sm [] rr = Some (Inr rr)"
| "load_routes sm (r # rs) rr = do {
     (res, rr) \<leftarrow> set_route sm (sr_message r) (sr_destination r) (sr_via r) (sr_metric r) rr;
     (case res of
        Inl e \<Rightarrow> Some (Inl e)
      | Inr _ \<Rightarrow> load_routes sm rs rr)
   }"

definition ingress_start :: "('rt, 'rk, 'k::linorder route_entry) slot_ops \<Rightarrow> net_address \<Rightarrow> 'k set_route_msg list
    \<Rightarrow> (set_route_error + ('rt, 'rk, 'k) route_registry) panics" where
  "ingress_start sm net_address snapshot =
     load_routes sm (filter (\<lambda>r. sr_destination r = net_address) snapshot) (route_registry_default sm)"

section \<open>Messages\<close>

datatype 'k worker_message =
    RouteUpdate "'k set_route_msg"
  | UnexpectedMessage

definition process_worker_inbound :: "('rt, 'rk, 'k::linorder route_entry) slot_ops \<Rightarrow> net_address \<Rightarrow> 'k worker_message
    \<Rightarrow> ('rt, 'rk, 'k) route_registry \<Rightarrow> (set_route_error + ('rt, 'rk, 'k) route_registry) panics" where
  "process_worker_inbound sm net_address msg rr = (case msg of
     RouteUpdate r \<Rightarrow>
       if sr_destination r = net_address then do {
         (res, rr) \<leftarrow> set_route sm (sr_message r) (sr_destination r) (sr_via r) (sr_metric r) rr;
         Some (case res of Inl e \<Rightarrow> Inl e | Inr _ \<Rightarrow> Inr rr)
       }
       else Some (Inr rr)
   | UnexpectedMessage \<Rightarrow> Some (Inr rr))"

text \<open>A message from this node has a type; one that comes from a connection is wrapped with the key of its type.\<close>

datatype ('t, 'k) subnet_payload =
    ForwardOf 'k
  | OfType 't

record ('t, 'k) subnet_message =
  sg_to :: address
  sg_payload :: "('t, 'k) subnet_payload"

text \<open>\<open>resolve\<close> is the manager's answer to \<open>ResolveTypeIdRequest\<close>, \<^const>\<open>None\<close> when it could not be asked. The result is the key
  of the type, if there is one, with the cache.\<close>

definition message_type_key :: "('t \<Rightarrow> 'k option option) \<Rightarrow> ('t, 'k) subnet_payload \<Rightarrow> ('t \<rightharpoonup> 'k)
    \<Rightarrow> ('k option \<times> ('t \<rightharpoonup> 'k)) option" where
  "message_type_key resolve payload tid_cache = (case payload of
     ForwardOf local_type_key \<Rightarrow> Some (Some local_type_key, tid_cache)
   | OfType type_id \<Rightarrow> (case tid_cache type_id of
       Some key \<Rightarrow> Some (Some key, tid_cache)
     | None \<Rightarrow> (case resolve type_id of
         None \<Rightarrow> None
       | Some None \<Rightarrow> Some (None, tid_cache)
       | Some (Some key) \<Rightarrow> Some (Some key, tid_cache(type_id \<mapsto> key)))))"

text \<open>The result is the gateway the message was forwarded to, if any, with the cache; \<^const>\<open>None\<close> inside is an error.\<close>

definition process_subnet_inbound :: "('rt, 'rk, 'k::linorder route_entry) slot_ops \<Rightarrow> (address \<Rightarrow> nat) \<Rightarrow> ('t \<Rightarrow> 'k option option)
    \<Rightarrow> ('t, 'k) subnet_message \<Rightarrow> ('t \<rightharpoonup> 'k) \<Rightarrow> ('rt, 'rk, 'k) route_registry
    \<Rightarrow> (address option \<times> ('t \<rightharpoonup> 'k)) option panics" where
  "process_subnet_inbound sm hash resolve msg tid_cache rr = (case message_type_key resolve (sg_payload msg) tid_cache of
     None \<Rightarrow> Some None
   | Some (None, tid_cache) \<Rightarrow> Some (Some (None, tid_cache))
   | Some (Some key, tid_cache) \<Rightarrow> do {
       found \<leftarrow> find_route sm hash key (sg_to msg) rr;
       Some (Some (case found of
           Inl NoRoute \<Rightarrow> None
         | Inr (None, _) \<Rightarrow> None
         | Inr (Some gw, _) \<Rightarrow> Some gw, tid_cache))
     })"

section \<open>Following the routes\<close>

fun follow_routes :: "('rt, 'rk, 'k::linorder route_entry) slot_ops \<Rightarrow> net_address \<Rightarrow> 'k set_route_msg list
    \<Rightarrow> ('rt, 'rk, 'k) route_registry \<Rightarrow> (set_route_error + ('rt, 'rk, 'k) route_registry) panics" where
  "follow_routes sm net [] rr = Some (Inr rr)"
| "follow_routes sm net (r # rs) rr = do {
     res \<leftarrow> process_worker_inbound sm net (RouteUpdate r) rr;
     (case res of Inl e \<Rightarrow> Some (Inl e) | Inr rr \<Rightarrow> follow_routes sm net rs rr)
   }"

lemma follow_append:
  "follow_routes sm net (rs @ rs') rr = do {
     res \<leftarrow> follow_routes sm net rs rr;
     (case res of Inl e \<Rightarrow> Some (Inl e) | Inr rr \<Rightarrow> follow_routes sm net rs' rr)
   }"
  by (induction rs arbitrary: rr) (auto split: Option.bind_splits sum.splits)

abbreviation routes_to :: "net_address \<Rightarrow> ('k \<times> net_address \<times> address option \<rightharpoonup> route_metric)
    \<Rightarrow> ('k \<times> net_address \<times> address option \<rightharpoonup> route_metric)" where
  "routes_to net A \<equiv> A |` {x. fst (snd x) = net}"

abbreviation sr_key :: "'k set_route_msg \<Rightarrow> 'k \<times> net_address \<times> address option" where
  "sr_key r \<equiv> (sr_message r, sr_destination r, sr_via r)"

lemma load_routes_ok:
  assumes "slot_laws sm" "separate_nets U" "rr_inv sm U rr" "sr_destination ` set rs \<subseteq> U"
  shows "\<exists>rr'. load_routes sm rs rr = Some (Inr rr') \<and> rr_inv sm U rr'
    \<and> routes sm rr' = fold (\<lambda>r A. A(sr_key r := sr_metric r)) rs (routes sm rr)"
  using assms(3,4)
proof (induction rs arbitrary: rr)
  case (Cons r rs)
  obtain rr' where rr': "set_route sm (sr_message r) (sr_destination r) (sr_via r) (sr_metric r) rr
      = Some (Inr (routes sm rr (sr_key r)), rr')" "rr_inv sm U rr'"
    "routes sm rr' = (routes sm rr)(sr_key r := sr_metric r)"
    using set_route_ok [OF assms(1,2) Cons.prems(1), of "sr_destination r" "sr_message r" "sr_via r" "sr_metric r"] Cons.prems(2)
    by auto
  from Cons.IH [OF rr'(2), unfolded rr'(3)] Cons.prems(2) show ?case by (simp add: rr'(1) del: fun_upd_apply)
qed simp

lemma fold_set_routes:
  assumes "\<forall>r\<in>set rs. A (sr_key r) = sr_metric r"
  shows "fold (\<lambda>r B. B(sr_key r := sr_metric r)) rs B = (\<lambda>t. if t \<in> sr_key ` set rs then A t else B t)"
  using assms by (induction rs arbitrary: B) auto

text \<open>The routes the manager hands out, in whatever order, are those of its table.\<close>

lemma snapshot_iff:
  assumes "slot_laws sm" "separate_nets U" "rr_inv sm U rr"
  shows "r \<in> set (map set_route_of (all_routes sm rr)) \<longleftrightarrow> routes sm rr (sr_key r) = sr_metric r \<and> sr_metric r \<noteq> None"
proof -
  have "r = set_route_of (re_message e, re_dst_net e, re_gw e, re_metric e)
      \<longleftrightarrow> route_of e = sr_key r \<and> sr_metric r = Some (re_metric e)" for e
    by (cases r) (auto simp: set_route_of_def route_of_def)
  moreover have "r \<in> set (map set_route_of (all_routes sm rr))
      \<longleftrightarrow> (\<exists>k e. sm_get sm (rr_entries rr) k = Some e \<and> r = set_route_of (re_message e, re_dst_net e, re_gw e, re_metric e))"
    unfolding all_routes_def slot_iter(1) [OF assms(1), symmetric] by force
  ultimately show ?thesis
    using routes_iff [OF assms, of "sr_key r" "the (sr_metric r)"] by (cases "sr_metric r") auto
qed

lemma routes_nets:
  assumes "slot_laws sm" "separate_nets U" "rr_inv sm U rr" "routes sm rr (m, n, g) = Some x"
  shows "n \<in> U"
  using assms(4) index_invD(1) [OF rr_invD(3) [OF assms(3)]]
  unfolding routes_iff [OF assms(1-3)] by (auto simp: route_of_def)

lemma ingress_start_ok:
  assumes "slot_laws sm" "separate_nets U" "rr_inv sm U rr"
  shows "\<exists>rr'. ingress_start sm net (map set_route_of (all_routes sm rr)) = Some (Inr rr') \<and> rr_inv sm U rr'
    \<and> routes sm rr' = routes_to net (routes sm rr)"
proof -
  let ?rs = "filter (\<lambda>r. sr_destination r = net) (map set_route_of (all_routes sm rr))"
  have in_rs: "r \<in> set ?rs \<longleftrightarrow> sr_destination r = net \<and> routes sm rr (sr_key r) = sr_metric r \<and> sr_metric r \<noteq> None" for r
    using snapshot_iff [OF assms, of r] by auto
  have "sr_destination r \<in> U" if "r \<in> set ?rs" for r
    using that routes_nets [OF assms] unfolding in_rs by fastforce
  then have "sr_destination ` set ?rs \<subseteq> U" by blast
  from load_routes_ok [OF assms(1,2) rr_inv_default [OF assms(1,2)] this]
  obtain rr' where rr': "load_routes sm ?rs (route_registry_default sm) = Some (Inr rr')" "rr_inv sm U rr'"
    "routes sm rr' = fold (\<lambda>r A. A(sr_key r := sr_metric r)) ?rs (routes sm (route_registry_default sm))" by blast
  have keys: "t \<in> sr_key ` set ?rs \<longleftrightarrow> fst (snd t) = net \<and> routes sm rr t \<noteq> None" for t
  proof
    assume "t \<in> sr_key ` set ?rs"
    then obtain r where "r \<in> set ?rs" "t = sr_key r" by blast
    then show "fst (snd t) = net \<and> routes sm rr t \<noteq> None" unfolding in_rs by auto
  next
    assume t: "fst (snd t) = net \<and> routes sm rr t \<noteq> None"
    obtain m g where "t = (m, net, g)" using t by (cases t) auto
    then have "\<lparr>sr_message = m, sr_destination = net, sr_via = g, sr_metric = routes sm rr t\<rparr> \<in> set ?rs"
        "t = sr_key \<lparr>sr_message = m, sr_destination = net, sr_via = g, sr_metric = routes sm rr t\<rparr>"
      using t unfolding in_rs by simp_all
    then show "t \<in> sr_key ` set ?rs" by blast
  qed
  have "routes sm rr' = routes_to net (routes sm rr)"
    unfolding rr'(3) routes_default [OF assms(1)]
    by (subst fold_set_routes [where A = "routes sm rr"]) (use in_rs keys in \<open>auto simp: restrict_map_def\<close>)
  with rr'(1,2) show ?thesis unfolding ingress_start_def by blast
qed

lemma follow_ok:
  assumes "slot_laws sm" "separate_nets U" "rr_inv sm U rr" "net \<in> U"
  shows "\<exists>rr'. follow_routes sm net (replicate n r) rr = Some (Inr rr') \<and> rr_inv sm U rr'
    \<and> routes sm rr' = (if sr_destination r = net \<and> n \<noteq> 0 then (routes sm rr)(sr_key r := sr_metric r) else routes sm rr)"
  using assms(3)
proof (induction n arbitrary: rr)
  case (Suc n)
  show ?case
  proof (cases "sr_destination r = net")
    case True
    obtain rr' where rr': "set_route sm (sr_message r) net (sr_via r) (sr_metric r) rr
        = Some (Inr (routes sm rr (sr_message r, net, sr_via r)), rr')" "rr_inv sm U rr'"
      "routes sm rr' = (routes sm rr)((sr_message r, net, sr_via r) := sr_metric r)"
      using set_route_ok [OF assms(1,2) Suc.prems assms(4), of "sr_message r" "sr_via r" "sr_metric r"] by blast
    from Suc.IH [OF rr'(2)] True show ?thesis by (auto simp: process_worker_inbound_def rr'(1,3) fun_upd_def fun_eq_iff)
  qed (use Suc in \<open>simp add: process_worker_inbound_def\<close>)
qed simp

end
