(* ===== verification/Multinode_Routing.thy ===== *)
theory Multinode_Routing
  imports Subnet_Ingress
begin

text \<open>
  What the manager of the connections and the workers it starts guarantee together. Over networks that do not overlap the
  manager never panics, and a network of another node has a worker as long as it has a route. A worker follows the
  manager's routes to its network and sends every message by the best of them.
\<close>

section \<open>The manager\<close>

fun input_nets :: "'k mr_input \<Rightarrow> net_address set" where
  "input_nets (RegisterLocalSubnet net) = {net}"
| "input_nets (SetRoute sr) = {sr_destination sr}"
| "input_nets _ = {}"

inductive mr_reach :: "('rt, 'rk, 'k::linorder, 'b) mr_ops \<Rightarrow> net_address set \<Rightarrow> ('rt, 'rk, 'k, 'b) mn_routes \<Rightarrow> bool"
  for ops U where
  init: "mr_reach ops U (mn_routes_default ops)"
| step: "mr_reach ops U s \<Longrightarrow> input_nets inp \<subseteq> U \<Longrightarrow> mr_handle ops env inp s = Some (effs, Some (s', response)) \<Longrightarrow> mr_reach ops U s'"

abbreviation net_map_ok :: "net_address set \<Rightarrow> (address_range \<times> 'v) list \<Rightarrow> bool" where
  "net_map_ok U m \<equiv> key_order.map_ok range_cmp (\<lambda>r. r \<in> net_range ` U) m"

abbreviation has_route :: "('k \<times> net_address \<times> address option \<rightharpoonup> route_metric) \<Rightarrow> net_address \<Rightarrow> bool" where
  "has_route A n \<equiv> (\<exists>m g x. A (m, n, g) = Some x)"

definition mr_inv :: "('rt, 'rk, 'k::linorder, 'b) mr_ops \<Rightarrow> net_address set \<Rightarrow> ('rt, 'rk, 'k, 'b) mn_routes \<Rightarrow> bool" where
  "mr_inv ops U s \<longleftrightarrow> rr_inv (op_routes ops) U (mr_registry s) \<and> net_map_ok U (mr_local_subnets s) \<and> net_map_ok U (mr_workers s)
     \<and> (\<forall>n\<in>U. map_of (mr_local_subnets s) (net_range n) = None
          \<longrightarrow> (map_of (mr_workers s) (net_range n) \<noteq> None \<longleftrightarrow> has_route (routes (op_routes ops) (mr_registry s)) n))"

lemma mr_invD:
  assumes "mr_inv ops U s"
  shows "rr_inv (op_routes ops) U (mr_registry s)" "net_map_ok U (mr_local_subnets s)" "net_map_ok U (mr_workers s)"
    "n \<in> U \<Longrightarrow> map_of (mr_local_subnets s) (net_range n) = None
      \<Longrightarrow> map_of (mr_workers s) (net_range n) \<noteq> None \<longleftrightarrow> has_route (routes (op_routes ops) (mr_registry s)) n"
  using assms unfolding mr_inv_def by blast+

lemma net_map:
  assumes "separate_nets U" "net_map_ok U m" "n \<in> U"
  shows "om_find range_cmp (net_range n) m = map_option (Pair (net_range n)) (map_of m (net_range n))"
    "net_map_ok U (om_insert range_cmp (net_range n) v m)"
    "map_of (om_insert range_cmp (net_range n) v m) = (map_of m)(net_range n \<mapsto> v)"
    "net_map_ok U (om_remove range_cmp (net_range n) m)"
    "map_of (om_remove range_cmp (net_range n) m) = (map_of m)(net_range n := None)"
proof -
  have ex: "exact_order range_cmp (\<lambda>r. r \<in> net_range ` U)" by (rule separate_exact [OF separate_net_ranges [OF assms(1)]])
  have k: "net_range n \<in> net_range ` U" using assms(3) by blast
  show "om_find range_cmp (net_range n) m = map_option (Pair (net_range n)) (map_of m (net_range n))"
    by (rule exact_order.find_map_of [OF ex assms(2) k])
  show "net_map_ok U (om_insert range_cmp (net_range n) v m)"
    "map_of (om_insert range_cmp (net_range n) v m) = (map_of m)(net_range n \<mapsto> v)"
    by (rule exact_order.insert_map_of [OF ex assms(2) k])+
  show "net_map_ok U (om_remove range_cmp (net_range n) m)"
    "map_of (om_remove range_cmp (net_range n) m) = (map_of m)(net_range n := None)"
    by (rule exact_order.remove_map_of [OF ex assms(2) k])+
qed

lemma mr_inv_default:
  assumes "slot_laws (op_routes ops)" "separate_nets U"
  shows "mr_inv ops U (mn_routes_default ops)"
  by (simp add: mr_inv_def mn_routes_default_def rr_inv_default [OF assms] routes_default [OF assms(1)]
      map_ok_Nil [OF separate_exact [OF separate_net_ranges [OF assms(2)]]])

lemma net_range_eq: "separate_nets U \<Longrightarrow> m \<in> U \<Longrightarrow> n \<in> U \<Longrightarrow> net_range m = net_range n \<longleftrightarrow> m = n"
  using canonical_range_inj separate_netsD(1) by blast

text \<open>The worker of a network, given that it exists exactly when the network is not local and has a route.\<close>

lemma update_worker_ok:
  assumes "separate_nets U" "net_map_ok U workers" "n \<in> U"
    "\<not> is_local \<longrightarrow> (map_of workers (net_range n) \<noteq> None \<longleftrightarrow> before)"
  shows "\<exists>effs res. update_worker env n (net_range n) is_local before after workers = Some (effs, res)
    \<and> (\<forall>d sr. TellSubscriber d sr \<notin> set effs)
    \<and> (\<forall>workers'. res = Some workers' \<longrightarrow> net_map_ok U workers'
        \<and> (\<forall>r. r \<noteq> net_range n \<longrightarrow> map_of workers' r = map_of workers r)
        \<and> (\<not> is_local \<longrightarrow> (map_of workers' (net_range n) \<noteq> None \<longleftrightarrow> after)))"
  using assms(2,4) net_map [OF assms(1-3)]
  by (cases is_local; cases before; cases after; cases "map_of workers (net_range n)"; cases "rv_started env")
    (auto simp: update_worker_def)

text \<open>The messages to one subscriber among the effects, in order.\<close>

fun told :: "address \<Rightarrow> 'k mr_effect list \<Rightarrow> 'k set_route_msg list" where
  "told d [] = []"
| "told d (TellSubscriber d' sr # effs) = (if d' = d then sr # told d effs else told d effs)"
| "told d (_ # effs) = told d effs"

lemma told_append: "told d (es @ es') = told d es @ told d es'"
  by (induction d es rule: told.induct) auto

lemma told_none: "(\<forall>d sr. TellSubscriber d sr \<notin> set es) \<Longrightarrow> told d es = []"
  by (induction d es rule: told.induct) auto

lemma told_subscribers: "\<exists>k. told d (map (\<lambda>(_, a). TellSubscriber a sr) subs) = replicate k sr \<and> (d \<in> snd ` set subs \<longrightarrow> k \<noteq> 0)"
proof (induction subs)
  case (Cons x subs)
  then obtain k where k: "told d (map (\<lambda>(_, a). TellSubscriber a sr) subs) = replicate k sr" "d \<in> snd ` set subs \<longrightarrow> k \<noteq> 0"
    by blast
  show ?case
  proof (cases "snd x = d")
    case True
    then show ?thesis using k(1) by (intro exI [of _ "Suc k"]) (auto simp: split_def)
  next
    case False
    then show ?thesis using k by (intro exI [of _ k]) (auto simp: split_def)
  qed
qed simp

lemma watch_gateway_quiet: "watch_gateway bm env via gws = (es, gws') \<Longrightarrow> TellSubscriber d sr \<notin> set es"
  by (auto simp: watch_gateway_def split: option.splits if_splits)

lemma set_route_step:
  fixes ops :: "('rt, 'rk, 'k::linorder, 'b) mr_ops"
  assumes "slot_laws (op_routes ops)" "separate_nets U" "mr_inv ops U s" "sr_destination sr \<in> U"
  shows "\<exists>effs res. on_set_route ops env sr s = Some (effs, res)
    \<and> (\<forall>s' response. res = Some (s', response) \<longrightarrow> mr_inv ops U s' \<and> response = None
        \<and> mr_subscribers s' = mr_subscribers s
        \<and> routes (op_routes ops) (mr_registry s') = (routes (op_routes ops) (mr_registry s))(sr_key sr := sr_metric sr)
        \<and> (\<exists>k. told d effs = replicate k sr \<and> (d \<in> snd ` set (mr_subscribers s) \<longrightarrow> k \<noteq> 0)))"
proof -
  let ?sm = "op_routes ops" and ?n = "sr_destination sr" and ?k = "sr_key sr"
  note inv = mr_invD [OF assms(3)]
  obtain rr where rr: "set_route ?sm (sr_message sr) ?n (sr_via sr) (sr_metric sr) (mr_registry s)
      = Some (Inr (routes ?sm (mr_registry s) ?k), rr)" "rr_inv ?sm U rr"
      "routes ?sm rr = (routes ?sm (mr_registry s))(?k := sr_metric sr)"
    using set_route_ok [OF assms(1,2) inv(1) assms(4), of "sr_message sr" "sr_via sr" "sr_metric sr"] by blast
  note before = contains_net_ok [OF assms(1,2) inv(1) assms(4), of "op_default_key ops"]
  note after = contains_net_ok [OF assms(1,2) rr(2) assms(4), of "op_default_key ops"]
  note rng = canonical_range(1) [OF separate_netsD(1) [OF assms(2,4)]]
  define is_local where "is_local \<longleftrightarrow> map_of (mr_local_subnets s) (net_range ?n) \<noteq> None"
  have loc: "om_find range_cmp (net_range ?n) (mr_local_subnets s) \<noteq> None \<longleftrightarrow> is_local"
    using net_map(1) [OF assms(2) inv(2) assms(4)] by (simp add: is_local_def)
  define b a where "b = has_route (routes ?sm (mr_registry s)) ?n" and "a = has_route (routes ?sm rr) ?n"
  have "\<not> is_local \<longrightarrow> (map_of (mr_workers s) (net_range ?n) \<noteq> None \<longleftrightarrow> b)"
    using inv(4) [OF assms(4)] unfolding is_local_def b_def by blast
  from update_worker_ok [OF assms(2) inv(3) assms(4) this, of env a]
  obtain effs :: "'k mr_effect list" and res where uw: "update_worker env ?n (net_range ?n) is_local b a (mr_workers s) = Some (effs, res)"
      "\<forall>d sr. TellSubscriber d sr \<notin> set effs"
      "\<forall>workers'. res = Some workers' \<longrightarrow> net_map_ok U workers'
        \<and> (\<forall>r. r \<noteq> net_range ?n \<longrightarrow> map_of workers' r = map_of (mr_workers s) r)
        \<and> (\<not> is_local \<longrightarrow> (map_of workers' (net_range ?n) \<noteq> None \<longleftrightarrow> a))" by blast
  obtain es :: "'k mr_effect list" and gws where gw: "watch_gateway (op_gws ops) env (sr_via sr) (mr_gws s) = (es, gws)"
    using prod.exhaust by blast
  let ?tell = "map (\<lambda>(_, a). TellSubscriber a sr) (mr_subscribers s)"
  have run: "on_set_route ops env sr s = Some (case res of None \<Rightarrow> (effs, None) | Some workers \<Rightarrow> (effs @ es @ ?tell,
      Some (s\<lparr>mr_registry := rr, mr_gws := gws, mr_workers := workers\<rparr>, None)))"
    using uw(1) unfolding on_set_route_def before rr(1) after rng b_def a_def loc [symmetric]
    by (simp add: before after rng gw split: option.splits)
  have "mr_inv ops U (s\<lparr>mr_registry := rr, mr_gws := gws, mr_workers := workers\<rparr>)" if "res = Some workers" for workers
  proof -
    have *: "net_map_ok U workers" "\<And>r. r \<noteq> net_range ?n \<Longrightarrow> map_of workers r = map_of (mr_workers s) r"
      "\<not> is_local \<Longrightarrow> map_of workers (net_range ?n) \<noteq> None \<longleftrightarrow> has_route (routes ?sm rr) ?n"
      using uw(3) that unfolding a_def by blast+
    have "map_of workers (net_range n) \<noteq> None \<longleftrightarrow> has_route (routes ?sm rr) n"
      if n: "n \<in> U" "map_of (mr_local_subnets s) (net_range n) = None" for n
    proof (cases "n = ?n")
      case True
      then show ?thesis using *(3) n(2) unfolding is_local_def by blast
    next
      case False
      then have "map_of workers (net_range n) = map_of (mr_workers s) (net_range n)"
        using *(2) net_range_eq [OF assms(2) n(1) assms(4)] by blast
      moreover have "routes ?sm rr (m, n, g) = routes ?sm (mr_registry s) (m, n, g)" for m g
        using False unfolding rr(3) by simp
      ultimately show ?thesis using inv(4) [OF n] by simp
    qed
    then show ?thesis using rr(2) inv(2) *(1) by (simp add: mr_inv_def)
  qed
  moreover obtain k where "told d ?tell = replicate k sr" "d \<in> snd ` set (mr_subscribers s) \<longrightarrow> k \<noteq> 0"
    using told_subscribers by blast
  then have "\<exists>k. told d (effs @ es @ ?tell) = replicate k sr \<and> (d \<in> snd ` set (mr_subscribers s) \<longrightarrow> k \<noteq> 0)"
    using told_none [OF uw(2)] told_none [of es] watch_gateway_quiet [OF gw] by (auto simp: told_append)
  ultimately show ?thesis unfolding run by (cases res) (simp_all add: rr(3) del: fun_upd_apply)
qed

lemma nets_of_ranges_ok:
  assumes "separate_nets U" "net_map_ok U m"
  shows "\<exists>ns. nets_of_ranges m = Some ns"
proof -
  have "\<forall>e\<in>set m. fst e \<in> net_range ` U"
    using assms(2) key_order.map_ok_def [OF exact_order.axioms(1) [OF separate_exact [OF separate_net_ranges [OF assms(1)]]]] by metis
  then show ?thesis
    by (induction m) (use canonical_range(2) [OF separate_netsD(1) [OF assms(1)]] in \<open>auto split: prod.splits\<close>)
qed

lemma local_subnet_step:
  assumes "separate_nets U" "mr_inv ops U s" "n \<in> U"
  shows "\<exists>s'. on_register_local_subnet n s = Some ([], Some (s', Some LocalSubnetRegistered)) \<and> mr_inv ops U s'
    \<and> mr_registry s' = mr_registry s \<and> mr_subscribers s' = mr_subscribers s"
proof -
  note inv = mr_invD [OF assms(2)]
  note ins = net_map(2,3) [OF assms(1) inv(2) assms(3), of "()"]
  have "mr_inv ops U (s\<lparr>mr_local_subnets := om_insert range_cmp (net_range n) () (mr_local_subnets s)\<rparr>)"
    unfolding mr_inv_def using inv ins by simp
  then show ?thesis
    using canonical_range(1) [OF separate_netsD(1) [OF assms(1,3)]] by (simp add: on_register_local_subnet_def)
qed

lemma mr_inv_subscribers [simp]: "mr_inv ops U (s\<lparr>mr_subscribers := x\<rparr>) = mr_inv ops U s" "mr_inv ops U (s\<lparr>mr_gws := y\<rparr>) = mr_inv ops U s"
  by (simp_all add: mr_inv_def)

text \<open>A subscriber with the reference \<open>w\<close> stays one: it does not go down, and no other watch has its reference.\<close>

fun keeps_subscriber :: "watch_ref \<Rightarrow> mr_env \<Rightarrow> 'k mr_input \<Rightarrow> bool" where
  "keeps_subscriber w env (PeerDown r _) = (r \<noteq> w)"
| "keeps_subscriber w env (SubscribeToRoutes _) = (rv_watch_ref env \<noteq> w)"
| "keeps_subscriber w env _ = True"

fun new_routes :: "'k mr_input \<Rightarrow> ('k \<times> net_address \<times> address option \<rightharpoonup> route_metric) \<Rightarrow> ('k \<times> net_address \<times> address option \<rightharpoonup> route_metric)" where
  "new_routes (SetRoute sr) A = A(sr_key sr := sr_metric sr)"
| "new_routes _ A = A"

text \<open>One message to the manager: no panic, the invariant holds, the routes change as told, and a subscriber is told of every change.\<close>

lemma mr_step:
  assumes "slot_laws (op_routes ops)" "separate_nets U" "mr_inv ops U s" "input_nets inp \<subseteq> U"
  shows "\<exists>effs res. mr_handle ops env inp s = Some (effs, res)
    \<and> (\<forall>s' response. res = Some (s', response) \<longrightarrow> mr_inv ops U s'
        \<and> routes (op_routes ops) (mr_registry s') = new_routes inp (routes (op_routes ops) (mr_registry s))
        \<and> (map_of (mr_subscribers s) w = Some d \<longrightarrow> keeps_subscriber w env inp \<longrightarrow>
            map_of (mr_subscribers s') w = Some d
            \<and> (\<exists>k. told d effs = (case inp of SetRoute sr \<Rightarrow> replicate (Suc k) sr | _ \<Rightarrow> []))))"
proof (cases inp)
  case (SetRoute sr)
  have "sr_destination sr \<in> U" using assms(4) SetRoute by simp
  from set_route_step [OF assms(1-3) this, of env d]
  obtain effs res where r: "on_set_route ops env sr s = Some (effs, res)"
    "\<forall>s' response. res = Some (s', response) \<longrightarrow> mr_inv ops U s' \<and> response = None
        \<and> mr_subscribers s' = mr_subscribers s
        \<and> routes (op_routes ops) (mr_registry s') = (routes (op_routes ops) (mr_registry s))(sr_key sr := sr_metric sr)
        \<and> (\<exists>k. told d effs = replicate k sr \<and> (d \<in> snd ` set (mr_subscribers s) \<longrightarrow> k \<noteq> 0))" by blast
  have "\<exists>k. told d effs = replicate (Suc k) sr" if "map_of (mr_subscribers s) w = Some d"
    "\<exists>k. told d effs = replicate k sr \<and> (d \<in> snd ` set (mr_subscribers s) \<longrightarrow> k \<noteq> 0)"
    using that map_of_SomeD [OF that(1)] by (metis image_eqI not0_implies_Suc snd_conv)
  then have "mr_inv ops U s' \<and> routes (op_routes ops) (mr_registry s') = new_routes inp (routes (op_routes ops) (mr_registry s))
      \<and> (map_of (mr_subscribers s) w = Some d \<longrightarrow> keeps_subscriber w env inp \<longrightarrow> map_of (mr_subscribers s') w = Some d
          \<and> (\<exists>k. told d effs = (case inp of SetRoute sr \<Rightarrow> replicate (Suc k) sr | _ \<Rightarrow> [])))"
    if "res = Some (s', response)" for s' response
    using r(2) [rule_format, OF that] SetRoute by (simp del: fun_upd_apply replicate_Suc)
  moreover have "mr_handle ops env inp s = Some (effs, res)" using r(1) SetRoute by simp
  ultimately show ?thesis by blast
next
  case (RegisterLocalSubnet n)
  then show ?thesis using local_subnet_step [OF assms(2,3), of n] assms(4) by auto
next
  case GetLocalSubnets
  then show ?thesis
    using nets_of_ranges_ok [OF assms(2) mr_invD(2) [OF assms(3)]] assms(3) by (auto simp: on_get_local_subnets_def)
next
  case (SubscribeToRoutes a)
  then show ?thesis using assms(3) by (auto simp: on_subscribe_to_routes_def hmap_insert_def update_conv')
next
  case (PeerDown r a)
  have "told d (map (\<lambda>route. TellManager (withdrawal a route)) xs) = []" for xs
    by (rule told_none) auto
  then show ?thesis using PeerDown assms(3) by (auto simp: on_down_def Let_def delete_conv')
qed

lemma mr_reach_inv:
  assumes "slot_laws (op_routes ops)" "separate_nets U" "mr_reach ops U s"
  shows "mr_inv ops U s"
  using assms(3)
proof induction
  case init
  show ?case by (rule mr_inv_default [OF assms(1,2)])
next
  case (step s inp env effs s' response)
  then show ?case using mr_step [OF assms(1,2) step.IH step.hyps(2), of env] by auto
qed

section \<open>The manager and a worker\<close>

text \<open>A sequence of messages to the manager that it handles, with what it tells one subscriber.\<close>

fun mr_run :: "('rt, 'rk, 'k::linorder, 'b) mr_ops \<Rightarrow> address \<Rightarrow> (mr_env \<times> 'k mr_input) list \<Rightarrow> ('rt, 'rk, 'k, 'b) mn_routes
    \<Rightarrow> ('k set_route_msg list \<times> ('rt, 'rk, 'k, 'b) mn_routes) option" where
  "mr_run ops d [] s = Some ([], s)"
| "mr_run ops d ((env, inp) # steps) s = (case mr_handle ops env inp s of
     Some (effs, Some (s', _)) \<Rightarrow> map_option (map_prod ((@) (told d effs)) id) (mr_run ops d steps s')
   | _ \<Rightarrow> None)"

lemma follow_manager:
  assumes "slot_laws (op_routes ops)" "separate_nets U" "net \<in> U"
    "mr_inv ops U s" "map_of (mr_subscribers s) w = Some d" "rr_inv (op_routes ops) U rr"
    "routes (op_routes ops) rr = routes_to net (routes (op_routes ops) (mr_registry s))"
    "mr_run ops d steps s = Some (msgs, s')"
    "\<forall>(env, inp)\<in>set steps. input_nets inp \<subseteq> U \<and> keeps_subscriber w env inp"
  shows "\<exists>rr'. follow_routes (op_routes ops) net msgs rr = Some (Inr rr') \<and> rr_inv (op_routes ops) U rr'
    \<and> routes (op_routes ops) rr' = routes_to net (routes (op_routes ops) (mr_registry s'))"
  using assms(4-9)
proof (induction steps arbitrary: s rr msgs)
  case (Cons x steps)
  let ?sm = "op_routes ops"
  obtain env inp where x: "x = (env, inp)" by (cases x)
  have inp: "input_nets inp \<subseteq> U" "keeps_subscriber w env inp" using Cons.prems(6) x by auto
  obtain effs s1 response ms where h: "mr_handle ops env inp s = Some (effs, Some (s1, response))"
      "mr_run ops d steps s1 = Some (ms, s')" "msgs = told d effs @ ms"
    using Cons.prems(5) x by (auto split: option.splits prod.splits)
  from mr_step [OF assms(1,2) Cons.prems(1) inp(1), of env w d] h(1) Cons.prems(2) inp(2)
  have s1: "mr_inv ops U s1" "routes ?sm (mr_registry s1) = new_routes inp (routes ?sm (mr_registry s))"
      "map_of (mr_subscribers s1) w = Some d"
      "\<exists>k. told d effs = (case inp of SetRoute sr \<Rightarrow> replicate (Suc k) sr | _ \<Rightarrow> [])"
    by auto
  obtain rr1 where rr1: "follow_routes ?sm net (told d effs) rr = Some (Inr rr1)" "rr_inv ?sm U rr1"
      "routes ?sm rr1 = routes_to net (routes ?sm (mr_registry s1))"
  proof (cases inp)
    case (SetRoute sr)
    then obtain k where k: "told d effs = replicate (Suc k) sr" using s1(4) by auto
    from follow_ok [OF assms(1,2) Cons.prems(3) assms(3), of "Suc k" sr]
    obtain rr1 where "follow_routes ?sm net (told d effs) rr = Some (Inr rr1)" "rr_inv ?sm U rr1"
      "routes ?sm rr1 = (if sr_destination sr = net then (routes ?sm rr)(sr_key sr := sr_metric sr) else routes ?sm rr)"
      unfolding k by auto
    moreover have "(if sr_destination sr = net then (routes ?sm rr)(sr_key sr := sr_metric sr) else routes ?sm rr)
        = routes_to net (routes ?sm (mr_registry s1))"
      unfolding s1(2) SetRoute Cons.prems(4) by (auto simp: restrict_map_def)
    ultimately show thesis using that by simp
  qed (use that [of rr] s1 Cons.prems(3,4) in auto)
  from Cons.IH [OF s1(1,3) rr1(2,3) h(2)] Cons.prems(6) rr1(1)
  show ?case unfolding h(3) follow_append by auto
qed simp

section \<open>Properties\<close>

text \<open>C11. As long as the networks of the local subnets and of the routes do not overlap, the manager never panics, whatever it
  has handled before, and a network that is not local has a worker exactly when there is a route to it.\<close>

theorem manager_workers_match_routes:
  assumes "slot_laws (op_routes ops)" "separate_nets U" "mr_reach ops U s" "input_nets inp \<subseteq> U" "n \<in> U"
  shows "mr_handle ops env inp s \<noteq> None
    \<and> (om_find range_cmp (net_range n) (mr_local_subnets s) = None \<longrightarrow>
        (om_find range_cmp (net_range n) (mr_workers s) \<noteq> None \<longleftrightarrow> has_route (routes (op_routes ops) (mr_registry s)) n))"
proof -
  note inv = mr_reach_inv [OF assms(1-3)]
  note D = mr_invD [OF inv]
  have "mr_handle ops env inp s \<noteq> None" using mr_step [OF assms(1,2) inv assms(4), of env] by (metis option.discI)
  then show ?thesis
    using D(4) [OF assms(5)] net_map(1) [OF assms(2) D(2) assms(5)] net_map(1) [OF assms(2) D(3) assms(5)] by simp
qed

text \<open>C10. A worker that subscribes to the manager's routes follows them: after the routes it got at first and whatever the manager
  told it since, its table has the manager's routes to its network, as the manager has them now. Every message of a known
  type for an address of the network then goes out by a route whose metric is the lowest the manager knows.\<close>

theorem ingress_follows_manager:
  assumes "slot_laws (op_routes ops)" "separate_nets U" "mr_reach ops U s0" "net \<in> U"
    "mr_handle ops env0 (SubscribeToRoutes d) s0 = Some (effs, Some (s1, Some (SubscribedToRoutes snapshot)))"
    "mr_run ops d steps s1 = Some (msgs, s)"
    "\<forall>(env, inp)\<in>set steps. input_nets inp \<subseteq> U \<and> keeps_subscriber (rv_watch_ref env0) env inp"
  shows "\<exists>rr0 rr. ingress_start (op_routes ops) net snapshot = Some (Inr rr0)
    \<and> follow_routes (op_routes ops) net msgs rr0 = Some (Inr rr)
    \<and> routes (op_routes ops) rr = routes_to net (routes (op_routes ops) (mr_registry s))
    \<and> (\<forall>key a gw y. a \<in> net_set net \<longrightarrow> routes (op_routes ops) (mr_registry s) (key, net, gw) = Some y \<longrightarrow>
        (\<exists>gw' x. process_subnet_inbound (op_routes ops) hash resolve \<lparr>sg_to = a, sg_payload = ForwardOf key\<rparr> tids rr
            = Some (Some (gw', tids))
          \<and> routes (op_routes ops) (mr_registry s) (key, net, gw') = Some x \<and> x \<le> y))"
proof -
  let ?sm = "op_routes ops"
  have inv: "mr_inv ops U s0" by (rule mr_reach_inv [OF assms(1-3)])
  have s1: "mr_inv ops U s1" "map_of (mr_subscribers s1) (rv_watch_ref env0) = Some d" "mr_registry s1 = mr_registry s0"
      "snapshot = map set_route_of (all_routes ?sm (mr_registry s1))"
    using assms(5) inv by (auto simp: on_subscribe_to_routes_def hmap_insert_def update_conv')
  obtain rr0 where rr0: "ingress_start ?sm net snapshot = Some (Inr rr0)" "rr_inv ?sm U rr0"
      "routes ?sm rr0 = routes_to net (routes ?sm (mr_registry s1))"
    using ingress_start_ok [OF assms(1,2) mr_invD(1) [OF s1(1)]] unfolding s1(4) by blast
  obtain rr where rr: "follow_routes ?sm net msgs rr0 = Some (Inr rr)" "rr_inv ?sm U rr"
      "routes ?sm rr = routes_to net (routes ?sm (mr_registry s))"
    using follow_manager [OF assms(1,2,4) s1(1,2) rr0(2,3) assms(6,7)] by blast
  have "\<exists>gw' x. process_subnet_inbound ?sm hash resolve \<lparr>sg_to = a, sg_payload = ForwardOf key\<rparr> tids rr = Some (Some (gw', tids))
      \<and> routes ?sm (mr_registry s) (key, net, gw') = Some x \<and> x \<le> y"
    if "a \<in> net_set net" "routes ?sm (mr_registry s) (key, net, gw) = Some y" for key a gw y
  proof -
    have "routes ?sm rr (key, net, gw) = Some y" using that(2) rr(3) by simp
    from find_route_ok [OF assms(1,2) rr(2) this that(1), of hash]
    obtain gw' x where "find_route ?sm hash key a rr = Some (Inr (gw', x))" "routes ?sm rr (key, net, gw') = Some x" "x \<le> y" by blast
    then show ?thesis
      using rr(3) by (cases gw') (auto simp: process_subnet_inbound_def message_type_key_def)
  qed
  with rr0(1) rr(1,3) show ?thesis by blast
qed

text \<open>C21. When a gateway goes down, the manager tells itself to withdraw exactly the routes through it: the routes that remain after
  these messages are those through other gateways and to the node itself.\<close>

theorem gateway_down_withdraws:
  assumes "slot_laws (op_routes ops)" "separate_nets U" "mr_reach ops U s" "(r, gw) \<in> bm_pairs (op_gws ops) (mr_gws s)"
  shows "\<exists>rs s'. on_down ops r gw s = Some (map TellManager rs, Some (s', None))
    \<and> fold (\<lambda>sr. new_routes (SetRoute sr)) rs (routes (op_routes ops) (mr_registry s'))
      = routes (op_routes ops) (mr_registry s) |` {x. snd (snd x) \<noteq> Some gw}"
proof -
  let ?A = "routes (op_routes ops) (mr_registry s)" and ?sm = "op_routes ops"
  let ?es = "filter (\<lambda>(_, e). re_gw e = Some gw) (sm_iter ?sm (rr_entries (mr_registry s)))"
  let ?rs = "map (\<lambda>(_, e). withdrawal gw (re_message e, re_dst_net e, re_metric e)) ?es"
  have fold: "fold (\<lambda>sr. new_routes (SetRoute sr)) (map (\<lambda>(_, e). withdrawal gw (re_message e, re_dst_net e, re_metric e)) es) A
      = A |` {x. \<forall>(_, e)\<in>set es. x \<noteq> (re_message e, re_dst_net e, Some gw)}" for es A
    by (induction es arbitrary: A) (auto simp: withdrawal_def restrict_map_def fun_eq_iff)
  define S where "S = {x. \<forall>(_, e)\<in>set ?es. x \<noteq> (re_message e, re_dst_net e, Some gw)}"
  have kept: "x \<in> S \<or> ?A x = None \<longleftrightarrow> snd (snd x) \<noteq> Some gw \<or> ?A x = None" for x
    using routes_iff [OF assms(1,2) mr_invD(1) [OF mr_reach_inv [OF assms(1-3)]], of x]
    unfolding slot_iter(1) [OF assms(1), symmetric] by (fastforce simp: route_of_def S_def)
  have "(?A |` S) x = (?A |` {x. snd (snd x) \<noteq> Some gw}) x" for x
    using kept [of x] by (auto simp: restrict_map_def)
  then have "?A |` S = ?A |` {x. snd (snd x) \<noteq> Some gw}" by (rule ext)
  with fold [of ?es ?A, folded S_def] show ?thesis
    using assms(4) by (intro exI [of _ ?rs]) (force simp: on_down_def bm_contains_left_def Let_def all_routes_by_gw_def comp_def split_def)
qed

section \<open>Examples\<close>

type_synonym listed_gws = "(watch_ref \<times> address) list"

definition rt_ops :: "(nat \<times> (nat \<times> nat route_entry) list, nat, nat, listed_gws) mr_ops" where
  "rt_ops = \<lparr>op_routes = route_slots, op_gws = listed_pairs, op_default_key = 0\<rparr>"

definition rt_env :: "watch_ref \<Rightarrow> mr_env" where
  "rt_env w = \<lparr>rv_watch_ref = w, rv_started = Some 0xC01, rv_stopped = True\<rparr>"

definition rt_route :: "net_address \<Rightarrow> address \<Rightarrow> route_metric option \<Rightarrow> nat mr_input" where
  "rt_route n gw x = SetRoute \<lparr>sr_message = 7, sr_destination = n, sr_via = Some gw, sr_metric = x\<rparr>"

definition rt_net :: net_address where
  "rt_net = route_net 0xA00"

lemma rt_laws: "slot_laws (op_routes rt_ops)"
  using route_slots_laws by (simp add: rt_ops_def)

lemma rt_nets: "separate_nets {rt_net, route_net 0xB00}"
  using route_nets by (simp add: rt_net_def)

definition rt_after :: "net_address \<Rightarrow> (nat \<times> (nat \<times> nat route_entry) list, nat, nat, listed_gws) mn_routes" where
  "rt_after n = (case mr_handle rt_ops (rt_env 8) (rt_route n 0xD01 (Some 3)) (mn_routes_default rt_ops) of
     Some (_, Some (s, _)) \<Rightarrow> s | _ \<Rightarrow> mn_routes_default rt_ops)"

definition rt_state :: "(nat \<times> (nat \<times> nat route_entry) list, nat, nat, listed_gws) mn_routes" where
  "rt_state = rt_after rt_net"


lemma rt_reach: "mr_reach rt_ops {rt_net, route_net 0xB00} rt_state"
proof -
  have "input_nets (rt_route rt_net 0xD01 (Some 3)) \<subseteq> {rt_net, route_net 0xB00}" by (simp add: rt_route_def)
  from mr_reach.step [OF mr_reach.init this] show ?thesis
    unfolding rt_state_def rt_after_def by (auto split: option.splits intro: mr_reach.init)
qed

theorem manager_workers_match_routes_witness:
  "mr_handle rt_ops (rt_env 9) (rt_route rt_net 0xD01 None) rt_state \<noteq> None
    \<and> om_find range_cmp (net_range rt_net) (mr_local_subnets rt_state) = None
    \<and> (om_find range_cmp (net_range rt_net) (mr_workers rt_state) \<noteq> None
        \<longleftrightarrow> has_route (routes (op_routes rt_ops) (mr_registry rt_state)) rt_net)"
proof -
  have "input_nets (rt_route rt_net 0xD01 None) \<subseteq> {rt_net, route_net 0xB00}" by (simp add: rt_route_def)
  moreover have "om_find range_cmp (net_range rt_net) (mr_local_subnets rt_state) = None" by code_simp
  ultimately show ?thesis using manager_workers_match_routes [OF rt_laws rt_nets rt_reach, of _ rt_net "rt_env 9"] by blast
qed

definition rt_steps :: "(mr_env \<times> nat mr_input) list" where
  "rt_steps = [(rt_env 10, rt_route rt_net 0xD02 (Some 2)), (rt_env 11, PeerDown 8 0xD01),
     (rt_env 12, rt_route rt_net 0xD01 None)]"

theorem ingress_follows_manager_witness:
  "\<exists>s1 snapshot msgs s rr0 rr.
    mr_handle rt_ops (rt_env 9) (SubscribeToRoutes 0xE01) rt_state = Some ([WatchPeer 0xE01], Some (s1, Some (SubscribedToRoutes snapshot)))
    \<and> mr_run rt_ops 0xE01 rt_steps s1 = Some (msgs, s) \<and> length msgs = 2
    \<and> ingress_start (op_routes rt_ops) rt_net snapshot = Some (Inr rr0)
    \<and> follow_routes (op_routes rt_ops) rt_net msgs rr0 = Some (Inr rr)
    \<and> routes (op_routes rt_ops) rr = routes_to rt_net (routes (op_routes rt_ops) (mr_registry s))"
proof -
  obtain s1 snapshot where s1: "mr_handle rt_ops (rt_env 9) (SubscribeToRoutes 0xE01) rt_state
      = Some ([WatchPeer 0xE01], Some (s1, Some (SubscribedToRoutes snapshot)))"
    by (simp add: on_subscribe_to_routes_def)
  have "map_option (\<lambda>(msgs, _). length msgs) (mr_run rt_ops 0xE01 rt_steps
      (case mr_handle rt_ops (rt_env 9) (SubscribeToRoutes 0xE01) rt_state of Some (_, Some (s, _)) \<Rightarrow> s)) = Some 2"
    by code_simp
  then obtain msgs s where run: "mr_run rt_ops 0xE01 rt_steps s1 = Some (msgs, s)" "length msgs = 2"
    unfolding s1 by auto
  have "\<forall>(env, inp)\<in>set rt_steps. input_nets inp \<subseteq> {rt_net, route_net 0xB00} \<and> keeps_subscriber (rv_watch_ref (rt_env 9)) env inp"
    by (simp add: rt_steps_def rt_route_def rt_env_def)
  from ingress_follows_manager [OF rt_laws rt_nets rt_reach _ s1 run(1) this, of rt_net] s1 run show ?thesis by blast
qed

theorem gateway_down_withdraws_witness:
  "\<exists>rs s'. on_down rt_ops 8 0xD01 rt_state = Some (map TellManager rs, Some (s', None))
    \<and> fold (\<lambda>sr. new_routes (SetRoute sr)) rs (routes (op_routes rt_ops) (mr_registry s'))
      = routes (op_routes rt_ops) (mr_registry rt_state) |` {x. snd (snd x) \<noteq> Some 0xD01}"
  by (rule gateway_down_withdraws [OF rt_laws rt_nets rt_reach]) code_simp


end
