(* ===== verification/Spec2Isabelle.thy ===== *)
theory Spec2Isabelle
  imports Mixed_Sup Container_Props Inbox Task_Registry Ask Route_Props Timer Uniform_Props Name_Service Multinode_Waitlist Multinode_Routing
begin

text \<open>
  A verification development of the mm1 actor runtime.
\<close>

end
